(* ===== verification/Prelude.thy ===== *)
theory Prelude
  imports Complex_Main "HOL-Library.Word" "HOL-Library.Monad_Syntax"
begin

text \<open>
  Shared vocabulary of the development: bytes, the C integer types of the program
  (32-bit \<open>int\<close>, 16-bit \<open>in_port_t\<close>), the truncating remainder of C, the object
  representation that \<open>memcpy\<close> copies (little-endian, two's complement), bounded reads of
  a byte buffer, and arithmetic on the ring of queue indexes.

  A C \<open>int\<close> is an \<open>int\<close> that satisfies \<open>c_int\<close>; where an operation of the
  program can leave that range, \<open>wrap32\<close> writes the wrap-around out. An operation whose
  execution is undefined in C (a read outside a buffer, a null dereference, a division by
  zero, a second \<open>free\<close>) is the value \<open>None\<close> of an option.
\<close>

named_theorems c_simps \<open>facts on C integers and their object representation\<close>
named_theorems ring_simps \<open>facts on indexes modulo the queue length\<close>
named_theorems heap_simps \<open>facts on loads, stores and allocation\<close>

type_synonym byte = "8 word"
type_synonym port = "16 word"

text \<open>\<open>struct timespec\<close> of the C library.\<close>

record timespec =
  tv_sec :: int
  tv_nsec :: int

subsection \<open>C integers\<close>

abbreviation INT_MAX :: int where
  "INT_MAX \<equiv> 2147483647"

definition c_int :: "int \<Rightarrow> bool" where
  "c_int x \<longleftrightarrow> - 2147483648 \<le> x \<and> x \<le> INT_MAX"

definition wrap32 :: "int \<Rightarrow> int" where
  "wrap32 x = (x + 2147483648) mod 4294967296 - 2147483648"

definition c_rem :: "int \<Rightarrow> int \<Rightarrow> int" where
  "c_rem a b = (if 0 \<le> a then a mod \<bar>b\<bar> else - ((- a) mod \<bar>b\<bar>))"

lemma c_int_0 [c_simps]: "c_int 0"
  by (simp add: c_int_def)

lemma wrap32_id [c_simps]: "c_int x \<Longrightarrow> wrap32 x = x"
  by (simp add: c_int_def wrap32_def)

lemma c_int_wrap32 [c_simps]: "c_int (wrap32 x)"
proof -
  have "0 \<le> (x + 2147483648) mod 4294967296" "(x + 2147483648) mod 4294967296 < 4294967296"
    by simp_all
  then show ?thesis by (simp add: c_int_def wrap32_def)
qed

lemma wrap32_mod [c_simps]: "wrap32 (x mod 4294967296) = wrap32 x"
  by (simp add: wrap32_def mod_add_left_eq)

text \<open>The range of \<open>wrap32\<close> is that of the signed reading of a 32-bit word.\<close>

lemma wrap32_sint: "wrap32 x = sint (word_of_int x :: 32 word)"
proof -
  have "sint (word_of_int x :: 32 word) = signed_take_bit 31 x"
    by (simp add: signed_of_int)
  then show ?thesis
    by (simp add: wrap32_def signed_take_bit_eq_take_bit_shift take_bit_eq_mod)
qed

lemma c_rem_nonneg [c_simps]: "0 \<le> a \<Longrightarrow> 0 < b \<Longrightarrow> c_rem a b = a mod b"
  by (simp add: c_rem_def)

lemma c_rem_bounds: "0 < b \<Longrightarrow> - b < c_rem a b \<and> c_rem a b < b"
proof (cases "0 \<le> a")
  case True
  moreover assume "0 < b"
  moreover from \<open>0 < b\<close> have "0 \<le> a mod b" "a mod b < b" by simp_all
  ultimately show ?thesis by (simp add: c_rem_def)
next
  case False
  moreover assume "0 < b"
  moreover from \<open>0 < b\<close> have "0 \<le> (- a) mod b" "(- a) mod b < b" by simp_all
  ultimately show ?thesis by (simp add: c_rem_def)
qed

subsection \<open>Object representation\<close>

primrec le_bytes :: "nat \<Rightarrow> int \<Rightarrow> byte list" where
  "le_bytes 0 x = []"
| "le_bytes (Suc n) x = word_of_int x # le_bytes n (x div 256)"

primrec le_val :: "byte list \<Rightarrow> int" where
  "le_val [] = 0"
| "le_val (b # bs) = uint b + 256 * le_val bs"

abbreviation int_bytes :: "int \<Rightarrow> byte list" where
  "int_bytes x \<equiv> le_bytes 4 x"

definition bytes_int :: "byte list \<Rightarrow> int" where
  "bytes_int bs = wrap32 (le_val bs)"

definition port_bytes :: "port \<Rightarrow> byte list" where
  "port_bytes p = le_bytes 2 (uint p)"

definition bytes_port :: "byte list \<Rightarrow> port" where
  "bytes_port bs = word_of_int (le_val bs)"

definition bool_byte :: "bool \<Rightarrow> byte" where
  "bool_byte b = (if b then 1 else 0)"

lemma length_le_bytes [simp]: "length (le_bytes n x) = n"
  by (induction n arbitrary: x) auto

lemma length_port_bytes [simp]: "length (port_bytes p) = 2"
  by (simp add: port_bytes_def)

lemma uint_byte_mod: "uint (word_of_int x :: byte) = x mod 256"
  by (simp add: uint_word_of_int)

lemma le_val_le_bytes: "le_val (le_bytes n x) = x mod 256 ^ n"
proof (induction n arbitrary: x)
  case 0
  show ?case by simp
next
  case (Suc n)
  have "x mod (256 * 256 ^ n) = 256 * (x div 256 mod 256 ^ n) + x mod 256"
    using zmod_zmult2_eq [of "256 ^ n" x 256] by simp
  with Suc.IH show ?case by (simp add: uint_byte_mod)
qed

lemma bytes_int_bytes [c_simps]: "c_int x \<Longrightarrow> bytes_int (int_bytes x) = x"
  by (simp add: bytes_int_def le_val_le_bytes c_simps)

lemma c_int_bytes_int [c_simps]: "c_int (bytes_int bs)"
  by (simp add: bytes_int_def c_simps)

lemma bytes_port_bytes [c_simps]: "bytes_port (port_bytes p) = p"
proof -
  have "uint p mod 65536 = uint p"
    using uint_lt2p [of p] by simp
  then show ?thesis by (simp add: bytes_port_def port_bytes_def le_val_le_bytes)
qed

lemma bool_byte_neq_0 [c_simps]: "(bool_byte b \<noteq> 0) = b"
  by (simp add: bool_byte_def)

lemma int_bytes_inj: "c_int x \<Longrightarrow> c_int y \<Longrightarrow> (int_bytes x = int_bytes y) = (x = y)"
  by (metis bytes_int_bytes)

subsection \<open>Bounded reads and writes\<close>

definition peek :: "byte list \<Rightarrow> nat \<Rightarrow> nat \<Rightarrow> byte list option" where
  "peek bs off n = (if off + n \<le> length bs then Some (take n (drop off bs)) else None)"

definition overwrite :: "byte list \<Rightarrow> byte list \<Rightarrow> byte list" where
  "overwrite buf dgram = take (length buf) dgram @ drop (length dgram) buf"

lemma length_overwrite [simp]: "length (overwrite buf d) = length buf"
  by (simp add: overwrite_def)

lemma peek_length: "peek bs off n = Some r \<Longrightarrow> length r = n"
  by (auto simp: peek_def split: if_splits)

lemma peek_append2 [c_simps]:
  "length xs \<le> off \<Longrightarrow> peek (xs @ ys) off n = peek ys (off - length xs) n"
  by (auto simp: peek_def)

lemma peek_append1 [c_simps]:
  "n = length xs \<Longrightarrow> peek (xs @ ys) 0 n = Some xs"
  by (simp add: peek_def)

lemma peek_overwrite:
  "off + n \<le> length d \<Longrightarrow> length d \<le> length buf \<Longrightarrow>
   peek (overwrite buf d) off n = peek d off n"
  by (simp add: peek_def overwrite_def)

subsection \<open>Wire formats\<close>

text \<open>The contract of a wire format that announces its own length: a value that can be sent is
  encoded, and decoding reads it back from any buffer that starts with the encoding. The packet
  and the message formats are its two instances.\<close>

locale codec =
  fixes enc :: "'m \<Rightarrow> byte list option"
    and dec :: "byte list \<Rightarrow> 'm option"
    and sendable :: "'m \<Rightarrow> bool"
  assumes encodes: "sendable m \<Longrightarrow> \<exists>bs. enc m = Some bs"
    and decodes: "sendable m \<Longrightarrow> enc m = Some bs \<Longrightarrow> dec (bs @ rest) = Some m"
begin

lemma round_trip: "sendable m \<Longrightarrow> \<exists>bs. enc m = Some bs \<and> dec bs = Some m"
  using encodes decodes [of m _ "[]"] by fastforce

lemma injective: "sendable m \<Longrightarrow> sendable n \<Longrightarrow> enc m = enc n \<Longrightarrow> m = n"
  using round_trip [of m] round_trip [of n] by auto

text \<open>No encoding is a proper prefix of another.\<close>

lemma prefix_free:
  assumes "sendable m" "sendable n" "enc m = Some bs" "enc n = Some (bs @ rest)"
  shows "m = n \<and> rest = []"
proof -
  have "dec (bs @ rest) = Some m" using decodes assms(1,3) .
  moreover have "dec ((bs @ rest) @ []) = Some n" using decodes assms(2,4) .
  ultimately have "m = n" by simp
  with assms(3,4) show ?thesis by simp
qed

lemma overwritten:
  "sendable m \<Longrightarrow> enc m = Some bs \<Longrightarrow> length bs \<le> length buf \<Longrightarrow> dec (overwrite buf bs) = Some m"
  by (simp add: overwrite_def decodes)

end

subsection \<open>Ring arithmetic\<close>

lemma ring_diff_eq:
  fixes b :: int
  assumes "(b + i) mod q = (b + j) mod q" "0 \<le> i" "i < q" "0 \<le> j" "j < q"
  shows "i = j"
proof -
  from assms(1) have "i mod q = j mod q"
    using mod_diff_cong [of "b + i" q "b + j" b b] by simp
  with assms(2-5) show ?thesis by simp
qed

lemma ring_split:
  fixes b :: int
  assumes "0 \<le> b" "b < q" "0 \<le> k" "k < q"
  shows "(b + k) mod q = (if b + k < q then b + k else b + k - q)"
proof (cases "b + k < q")
  case True
  with assms show ?thesis by simp
next
  case False
  have "(b + k) mod q = (b + k - q) mod q" by simp
  also have "\<dots> = b + k - q" using False assms by (intro mod_pos_pos_trivial) auto
  finally show ?thesis using False by simp
qed

lemma ring_cover:
  fixes b :: int
  assumes "0 < q" "0 \<le> i" "i < q"
  obtains k where "0 \<le> k" "k < q" "i = (b + k) mod q"
proof
  show "0 \<le> (i - b) mod q" "(i - b) mod q < q" using assms by simp_all
  show "i = (b + (i - b) mod q) mod q" using assms by (simp add: mod_add_right_eq)
qed

subsection \<open>Lists\<close>

lemma takeWhile_stops: "x \<in> set xs \<Longrightarrow> \<not> P x \<Longrightarrow> length (takeWhile P xs) < length xs"
  by (induction xs) auto

subsection \<open>The option monad\<close>

lemma bind_Some_iff [simp]:
  "(Option.bind m f = Some y) = (\<exists>x. m = Some x \<and> f x = Some y)"
  by (cases m) auto

end
