(* ===== verification/Packet.thy ===== *)
theory Packet
  imports Prelude
begin

text \<open>
  The GBN packet (gbn/packet.h, gbn/packet.c): its header, the wire format written by
  \<open>serializePacket\<close> and read by \<open>deserializePacket\<close>, the message identifiers, and the
  division of a message in packets. \<open>chunks\<close> is the reference definition of the division;
  the loop of \<open>packetize\<close> is proved to compute it.
\<close>

subsection \<open>Header and packet\<close>

record header =
  isAck :: bool
  isFirst :: bool
  index :: int
  endIndex :: int
  msgId :: int
  dataLen :: int
  queueLen :: int
  ackPort :: port

record packet =
  hdr :: header
  data :: "byte list"

definition MTU :: int where
  "MTU = 1500"

definition newPacket :: packet where
  "newPacket = \<lparr>hdr = \<lparr>isAck = False, isFirst = False, index = 0, endIndex = 0, msgId = 0,
     dataLen = 0, queueLen = 0, ackPort = 0\<rparr>, data = []\<rparr>"

definition calcHeaderSize :: int where
  "calcHeaderSize = 2 * 1 + (5 * 4) + 2"

definition calcPacketSize :: "packet \<Rightarrow> int" where
  "calcPacketSize p = calcHeaderSize + dataLen (hdr p)"

definition calcMaxDataLen :: int where
  "calcMaxDataLen = MTU - calcHeaderSize"

definition calcAckSize :: int where
  "calcAckSize = calcHeaderSize"

text \<open>The values a header field can take: each integer field is a C \<open>int\<close>, and the length
  field tells the size of the data buffer.\<close>

definition wf_header :: "header \<Rightarrow> bool" where
  "wf_header h \<longleftrightarrow> c_int (index h) \<and> c_int (endIndex h) \<and> c_int (msgId h)
     \<and> c_int (dataLen h) \<and> c_int (queueLen h)"

definition wf_packet :: "packet \<Rightarrow> bool" where
  "wf_packet p \<longleftrightarrow> wf_header (hdr p) \<and> dataLen (hdr p) = int (length (data p))"

subsection \<open>Wire format\<close>

definition header_bytes :: "header \<Rightarrow> byte list" where
  "header_bytes h = [bool_byte (isAck h)] @ [bool_byte (isFirst h)] @ int_bytes (dataLen h)
     @ int_bytes (msgId h) @ int_bytes (index h) @ int_bytes (endIndex h)
     @ int_bytes (queueLen h) @ port_bytes (ackPort h)"

definition serializePacket :: "packet \<Rightarrow> byte list option" where
  "serializePacket p =
     (if dataLen (hdr p) < 0 then None
      else if dataLen (hdr p) \<noteq> 0 then
        do { d \<leftarrow> peek (data p) 0 (nat (dataLen (hdr p))); Some (header_bytes (hdr p) @ d) }
      else Some (header_bytes (hdr p)))"

definition deserializePacket :: "byte list \<Rightarrow> packet option" where
  "deserializePacket bytes = do {
     a \<leftarrow> peek bytes 0 1;
     f \<leftarrow> peek bytes 1 1;
     dl \<leftarrow> peek bytes 2 4;
     mi \<leftarrow> peek bytes 6 4;
     ix \<leftarrow> peek bytes 10 4;
     ei \<leftarrow> peek bytes 14 4;
     ql \<leftarrow> peek bytes 18 4;
     ap \<leftarrow> peek bytes 22 2;
     d \<leftarrow> (if bytes_int dl \<noteq> 0 then
            (if bytes_int dl < 0 then None else peek bytes 24 (nat (bytes_int dl)))
          else Some []);
     Some \<lparr>hdr = \<lparr>isAck = (hd a \<noteq> 0), isFirst = (hd f \<noteq> 0), index = bytes_int ix,
             endIndex = bytes_int ei, msgId = bytes_int mi, dataLen = bytes_int dl,
             queueLen = bytes_int ql, ackPort = bytes_port ap\<rparr>,
           data = d\<rparr> }"

lemma length_header_bytes [simp]: "length (header_bytes h) = 24"
  by (simp add: header_bytes_def)

lemma header_peeks:
  assumes "xs = header_bytes h @ d"
  shows "peek xs 0 1 = Some [bool_byte (isAck h)]"
    and "peek xs 1 1 = Some [bool_byte (isFirst h)]"
    and "peek xs 2 4 = Some (int_bytes (dataLen h))"
    and "peek xs 6 4 = Some (int_bytes (msgId h))"
    and "peek xs 10 4 = Some (int_bytes (index h))"
    and "peek xs 14 4 = Some (int_bytes (endIndex h))"
    and "peek xs 18 4 = Some (int_bytes (queueLen h))"
    and "peek xs 22 2 = Some (port_bytes (ackPort h))"
  unfolding assms by (simp_all add: header_bytes_def peek_def)

lemma deserialize_header_bytes:
  assumes "wf_header h" "0 \<le> dataLen h" "nat (dataLen h) \<le> length d"
  shows "deserializePacket (header_bytes h @ d)
       = Some \<lparr>hdr = h, data = take (nat (dataLen h)) d\<rparr>"
proof -
  have pd: "peek (header_bytes h @ d) 24 (nat (dataLen h)) = Some (take (nat (dataLen h)) d)"
    using assms(3) by (simp add: peek_def)
  have "c_int (dataLen h)" "c_int (msgId h)" "c_int (index h)" "c_int (endIndex h)"
    "c_int (queueLen h)"
    using assms(1) by (simp_all add: wf_header_def)
  then show ?thesis
    using assms(2)
    by (simp add: deserializePacket_def header_peeks [OF refl] bytes_int_bytes
        bytes_port_bytes bool_byte_neq_0 pd del: One_nat_def)
qed

lemma serializePacket_wf:
  "wf_packet p \<Longrightarrow> serializePacket p = Some (header_bytes (hdr p) @ data p)"
  by (auto simp: serializePacket_def wf_packet_def peek_def)

text \<open>A serialized packet is read back from any buffer that starts with its bytes.\<close>

lemma deserialize_serialize_prefix:
  assumes "wf_packet p" "serializePacket p = Some bs"
  shows "deserializePacket (bs @ rest) = Some p"
proof -
  from assms have bs: "bs = header_bytes (hdr p) @ data p"
    by (simp add: serializePacket_wf)
  from assms(1) have "wf_header (hdr p)" "dataLen (hdr p) = int (length (data p))"
    by (simp_all add: wf_packet_def)
  with deserialize_header_bytes [of "hdr p" "data p @ rest"] show ?thesis
    by (simp add: bs)
qed

lemma length_serializePacket:
  "wf_packet p \<Longrightarrow> serializePacket p = Some bs \<Longrightarrow> int (length bs) = calcPacketSize p"
  by (auto simp: serializePacket_wf calcPacketSize_def calcHeaderSize_def wf_packet_def)

lemma deserializePacket_wf_header:
  "deserializePacket bs = Some p \<Longrightarrow> wf_header (hdr p)"
  by (auto simp: deserializePacket_def wf_header_def c_simps split: if_splits)

lemma deserializePacket_wf: "deserializePacket bs = Some p \<Longrightarrow> wf_packet p"
proof -
  assume a: "deserializePacket bs = Some p"
  then have "dataLen (hdr p) = int (length (data p))"
    by (auto simp: deserializePacket_def split: if_splits dest!: peek_length)
  with a show ?thesis by (simp add: wf_packet_def deserializePacket_wf_header)
qed

lemma deserializePacket_short: "length bs < 24 \<Longrightarrow> deserializePacket bs = None"
  by (auto simp: deserializePacket_def peek_def)

interpretation packet_codec: codec serializePacket deserializePacket wf_packet
  by unfold_locales (auto simp: serializePacket_wf intro: deserialize_serialize_prefix)

text \<open>The bytes after the packet's own do not reach the result: a receive buffer that still
  holds older bytes gives the same packet.\<close>

lemmas deserialize_overwrite = packet_codec.overwritten

text \<open>A packet as it is sent; the port field is written by each launch.\<close>

definition wire_bytes :: "packet \<Rightarrow> byte list" where
  "wire_bytes p = header_bytes (hdr p) @ data p"

definition core :: "packet \<Rightarrow> packet" where
  "core p = p\<lparr>hdr := (hdr p)\<lparr>ackPort := 0\<rparr>\<rparr>"

definition withPort :: "port \<Rightarrow> packet \<Rightarrow> packet" where
  "withPort prt p = p\<lparr>hdr := (hdr p)\<lparr>ackPort := prt\<rparr>\<rparr>"

lemma core_withPort [simp]: "core (withPort prt p) = core p"
  by (simp add: core_def withPort_def)

lemma wf_withPort [simp]: "wf_packet (withPort prt p) = wf_packet p"
  by (simp add: wf_packet_def wf_header_def withPort_def)

lemma serialize_wire: "wf_packet p \<Longrightarrow> serializePacket p = Some (wire_bytes p)"
  by (simp add: serializePacket_wf wire_bytes_def)

lemma data_withPort [simp]: "data (withPort prt p) = data p"
  by (simp add: withPort_def)

subsection \<open>Message identifiers\<close>

definition generateMsgId :: "int \<Rightarrow> int \<times> int" where
  "generateMsgId LAST_MSG_ID = (LAST_MSG_ID, c_rem (wrap32 (LAST_MSG_ID + 1)) INT_MAX)"

definition msg_id_inv :: "int \<Rightarrow> bool" where
  "msg_id_inv n \<longleftrightarrow> 0 \<le> n \<and> n < INT_MAX"

lemma generateMsgId_next:
  "msg_id_inv n \<Longrightarrow> generateMsgId n = (n, (n + 1) mod INT_MAX)"
  by (simp add: generateMsgId_def msg_id_inv_def c_simps c_int_def)

lemma generateMsgId_inv: "msg_id_inv n \<Longrightarrow> msg_id_inv (snd (generateMsgId n))"
  by (simp add: generateMsgId_next) (simp add: msg_id_inv_def)

text \<open>The identifier drawn by the \<open>k\<close>-th call after the counter had the value \<open>n\<close>.\<close>

primrec nth_msg_id :: "int \<Rightarrow> nat \<Rightarrow> int" where
  "nth_msg_id n 0 = fst (generateMsgId n)"
| "nth_msg_id n (Suc k) = nth_msg_id (snd (generateMsgId n)) k"

lemma nth_msg_id_eq: "msg_id_inv n \<Longrightarrow> nth_msg_id n k = (n + int k) mod INT_MAX"
proof (induction k arbitrary: n)
  case 0
  then show ?case by (simp add: generateMsgId_next) (simp add: msg_id_inv_def)
next
  case (Suc k)
  have "nth_msg_id n (Suc k) = ((n + 1) mod INT_MAX + int k) mod INT_MAX"
    using Suc generateMsgId_inv [of n] by (simp add: generateMsgId_next)
  also have "\<dots> = (n + 1 + int k) mod INT_MAX" by (rule mod_add_left_eq)
  finally show ?case by (simp add: algebra_simps)
qed

subsection \<open>Division of a message\<close>

function packetize_loop ::
  "int \<Rightarrow> byte list \<Rightarrow> nat \<Rightarrow> nat \<Rightarrow> nat \<Rightarrow> nat \<Rightarrow> nat \<Rightarrow> nat \<Rightarrow> packet list option"
where
  "packetize_loop mid msg numOfFullPackets remain numOfPackets howMany i j =
     (if i < numOfPackets then
        let howMany' = (if numOfFullPackets \<le> i then remain else howMany) in
        do {
          buf \<leftarrow> peek msg j howMany';
          ps \<leftarrow> packetize_loop mid msg numOfFullPackets remain numOfPackets howMany'
                 (i + 1) (j + howMany');
          Some (newPacket\<lparr>hdr := (hdr newPacket)\<lparr>isFirst := (i = 0), msgId := mid,
                  dataLen := int howMany'\<rparr>, data := buf\<rparr> # ps)
        }
      else Some [])"
  by pat_completeness auto
termination
  by (relation "measure (\<lambda>(mid, msg, full, remain, num, howMany, i, j). num - i)") auto

declare packetize_loop.simps [simp del]

definition packetize :: "byte list \<Rightarrow> nat \<Rightarrow> int \<Rightarrow> (packet list \<times> nat \<times> int) option" where
  "packetize msg sz LAST_MSG_ID =
     (let numOfFullPackets = sz div nat calcMaxDataLen;
          remain = sz mod nat calcMaxDataLen;
          hasRemain = (remain \<noteq> 0);
          numOfPackets = numOfFullPackets + (if hasRemain then 1 else 0);
          (mid, last') = generateMsgId LAST_MSG_ID
      in do {
        packets \<leftarrow> packetize_loop mid msg numOfFullPackets remain numOfPackets
                     (nat calcMaxDataLen) 0 0;
        Some (packets, numOfPackets, last') })"

text \<open>Reference definition: cut the message every \<open>m\<close> bytes.\<close>

function chunks :: "nat \<Rightarrow> 'a list \<Rightarrow> 'a list list" where
  "chunks m xs = (if xs = [] \<or> m = 0 then [] else take m xs # chunks m (drop m xs))"
  by pat_completeness auto
termination
  by (relation "measure (\<lambda>(m, xs). length xs)") auto

declare chunks.simps [simp del]

definition mk_packet :: "int \<Rightarrow> nat \<Rightarrow> byte list \<Rightarrow> packet" where
  "mk_packet mid i d = newPacket\<lparr>hdr := (hdr newPacket)\<lparr>isFirst := (i = 0), msgId := mid,
     dataLen := int (length d)\<rparr>, data := d\<rparr>"

lemma chunks_Nil [simp]: "chunks m [] = []"
  by (simp add: chunks.simps)

lemma concat_chunks: "0 < m \<Longrightarrow> concat (chunks m xs) = xs"
proof (induction m xs rule: chunks.induct)
  case (1 m xs)
  then show ?case by (cases "xs = []") (simp_all add: chunks.simps [of m xs])
qed

lemma chunks_bound: "c \<in> set (chunks m xs) \<Longrightarrow> 0 < length c \<and> length c \<le> m"
proof (induction m xs rule: chunks.induct)
  case (1 m xs)
  then show ?case by (auto simp: chunks.simps [of m xs] split: if_splits)
qed

lemma length_chunks: "0 < m \<Longrightarrow>
  length (chunks m xs) = length xs div m + (if length xs mod m \<noteq> 0 then 1 else 0)"
proof (induction m xs rule: chunks.induct)
  case (1 m xs)
  show ?case
  proof (cases "xs = []")
    case False
    with 1 have IH: "length (chunks m (drop m xs)) = (length xs - m) div m
        + (if (length xs - m) mod m \<noteq> 0 then 1 else 0)" by simp
    show ?thesis
    proof (cases "m \<le> length xs")
      case True
      with IH False 1(2) show ?thesis
        by (simp add: chunks.simps [of m xs] le_div_geq le_mod_geq)
    next
      case short: False
      with IH False 1(2) show ?thesis by (simp add: chunks.simps [of m xs])
    qed
  qed simp
qed

lemma packetize_loop_chunks:
  assumes m: "0 < m" and full: "full = length msg div m" and rem: "remain = length msg mod m"
    and num: "num = full + (if remain \<noteq> 0 then 1 else 0)" and i: "i \<le> full" and j: "j = i * m"
  shows "packetize_loop mid msg full remain num m i j
       = Some (map (\<lambda>(k, d). mk_packet mid k d) (enumerate i (chunks m (drop j msg))))"
  using i j
proof (induction "full - i" arbitrary: i j)
  case 0
  then have i: "i = full" by simp
  have len: "length (drop j msg) = remain"
    using 0 i full rem by (simp add: minus_div_mult_eq_mod)
  show ?case
  proof (cases "remain = 0")
    case True
    with len show ?thesis by (simp add: packetize_loop.simps num i)
  next
    case False
    have "remain < m" using m rem by simp
    with len False have "chunks m (drop j msg) = [drop j msg]"
      by (auto simp: chunks.simps [of m "drop j msg"])
    moreover have "peek msg j remain = Some (drop j msg)"
      using len False by (auto simp: peek_def)
    ultimately show ?thesis
      using False len
      by (simp add: packetize_loop.simps [of mid msg full remain "Suc full" m full j]
          packetize_loop.simps [of mid msg full remain "Suc full" remain "Suc full"]
          num i mk_packet_def)
  qed
next
  case (Suc k)
  then have i: "i < full" by simp
  have "Suc i * m \<le> full * m" using i by (intro mult_right_mono) simp_all
  also have "\<dots> \<le> length msg" using full by (simp add: times_div_less_eq_dividend)
  finally have le: "j + m \<le> length msg" using Suc.prems by simp
  then have pk: "peek msg j m = Some (take m (drop j msg))" by (simp add: peek_def)
  have ch: "chunks m (drop j msg) = take m (drop j msg) # chunks m (drop (j + m) msg)"
    using le m by (simp add: chunks.simps [of m "drop j msg"] add.commute)
  have IH: "packetize_loop mid msg full remain num m (Suc i) (j + m)
      = Some (map (\<lambda>(k, d). mk_packet mid k d) (enumerate (Suc i) (chunks m (drop (j + m) msg))))"
    using Suc.hyps(1) [of "Suc i" "j + m"] Suc.hyps(2) Suc.prems i by simp
  have mk: "newPacket\<lparr>hdr := (hdr newPacket)\<lparr>isFirst := (i = 0), msgId := mid, dataLen := int m\<rparr>,
      data := take m (drop j msg)\<rparr> = mk_packet mid i (take m (drop j msg))"
    using le by (simp add: mk_packet_def)
  have "i < num" using i by (simp add: num)
  then show ?case
    using i le by (simp add: packetize_loop.simps [of mid msg full remain num m i j] pk ch IH
        mk Let_def)
qed

lemma packetize_eq:
  "packetize msg (length msg) lid =
     Some (map (\<lambda>(k, d). mk_packet (fst (generateMsgId lid)) k d)
             (enumerate 0 (chunks (nat calcMaxDataLen) msg)),
           length (chunks (nat calcMaxDataLen) msg), snd (generateMsgId lid))"
proof -
  have m: "0 < nat calcMaxDataLen" by (simp add: calcMaxDataLen_def MTU_def calcHeaderSize_def)
  show ?thesis
    using packetize_loop_chunks [OF m refl refl refl, of 0 msg 0 "fst (generateMsgId lid)"]
    by (simp add: packetize_def length_chunks [OF m] Let_def case_prod_beta del: One_nat_def)
qed

end
