(* ===== verification/LaunchBattery.thy ===== *)
theory LaunchBattery
  imports Packet
begin

text \<open>
  The send window (gbn/window.c) and the launch battery (gbn/launchBattery.c), a ring of
  \<open>QUEUE_LEN\<close> pads that each hold a packet and its status. The array of pads is a function
  of the index; every access of the program is at an index modulo \<open>QUEUE_LEN\<close>.
  \<open>battery_inv\<close> says which pads the ring occupies, counted from the window base, and
  \<open>queue\<close> reads them as the list of packets that wait for an acknowledgement: the
  operations on the ring are proved to be operations on that list.
\<close>

subsection \<open>Send window\<close>

record sendWindow =
  base :: int
  nextSeqNum :: int

definition WINSIZE_DEFAULT :: int where
  "WINSIZE_DEFAULT = 2"

definition QUEUE_LEN :: int where
  "QUEUE_LEN = 1024"

definition newSendWindow :: "sendWindow \<times> int" where
  "newSendWindow = (\<lparr>base = 0, nextSeqNum = WINSIZE_DEFAULT\<rparr>, WINSIZE_DEFAULT)"

text \<open>\<open>getWinSize\<close> reads the file's static variable \<open>winsize\<close>, here a field of the state.\<close>

subsection \<open>Pads and battery\<close>

datatype launchPadStatus = EMPTY | READY | SENT | ACKED | LOST

record launchPad =
  pad_packet :: "packet option"
  launches :: "32 word"
  status :: launchPadStatus
  launchTime :: timespec

record launchBattery =
  pads :: "int \<Rightarrow> launchPad"
  contiguousPadsAvailable :: int
  nextAvailableIndex :: int

record batteryState =
  battery :: launchBattery
  window :: sendWindow
  winsize :: int

definition newLaunchPad :: launchPad where
  "newLaunchPad = \<lparr>pad_packet = None, launches = 0, status = EMPTY,
     launchTime = \<lparr>tv_sec = 0, tv_nsec = 0\<rparr>\<rparr>"

definition newLaunchBattery :: launchBattery where
  "newLaunchBattery = \<lparr>pads = (\<lambda>_. newLaunchPad), contiguousPadsAvailable = QUEUE_LEN,
     nextAvailableIndex = 0\<rparr>"

definition initLaunchBattery :: batteryState where
  "initLaunchBattery = \<lparr>battery = newLaunchBattery, window = fst newSendWindow,
     winsize = snd newSendWindow\<rparr>"

definition isInWindow :: "sendWindow \<Rightarrow> int \<Rightarrow> bool" where
  "isInWindow w i =
     (let currentBase = base w; currentNextSeqNum = nextSeqNum w in
      if currentBase < currentNextSeqNum then currentBase \<le> i \<and> i < currentNextSeqNum
      else (currentBase \<le> i \<and> i < QUEUE_LEN) \<or> (0 \<le> i \<and> i < currentNextSeqNum))"

definition isLaunchPadAvailable :: "launchPad \<Rightarrow> bool" where
  "isLaunchPadAvailable p = (case status p of
     EMPTY \<Rightarrow> True | ACKED \<Rightarrow> True | LOST \<Rightarrow> True | _ \<Rightarrow> False)"

definition resetLaunchPad :: "launchPad \<Rightarrow> launchPad" where
  "resetLaunchPad p = newLaunchPad"

definition willTheyFit :: "launchBattery \<Rightarrow> int \<Rightarrow> bool" where
  "willTheyFit b n = (n \<le> contiguousPadsAvailable b)"

definition updateContiguousPads :: "launchBattery \<Rightarrow> int \<Rightarrow> launchBattery" where
  "updateContiguousPads b change =
     b\<lparr>contiguousPadsAvailable := contiguousPadsAvailable b + change\<rparr>"

definition stamp :: "int \<Rightarrow> int \<Rightarrow> int \<Rightarrow> packet \<Rightarrow> packet" where
  "stamp start n i p = p\<lparr>hdr := (hdr p)\<lparr>index := c_rem (start + i) QUEUE_LEN,
     endIndex := c_rem (start + n - 1) QUEUE_LEN, queueLen := QUEUE_LEN\<rparr>\<rparr>"

definition addOne :: "int \<Rightarrow> int \<Rightarrow> int \<Rightarrow> packet \<Rightarrow> launchBattery \<Rightarrow> launchBattery" where
  "addOne start n i p b =
     (let atIndex = c_rem (start + i) QUEUE_LEN;
          currentLaunchPad = pads b atIndex
      in if isLaunchPadAvailable currentLaunchPad then
           let pad = (if status currentLaunchPad = ACKED \<or> status currentLaunchPad = LOST
                      then resetLaunchPad currentLaunchPad else currentLaunchPad)
           in updateContiguousPads
                (b\<lparr>pads := (pads b)(atIndex :=
                     pad\<lparr>pad_packet := Some (stamp start n i p), status := READY\<rparr>)\<rparr>) (- 1)
         else b)"

fun addLoop :: "int \<Rightarrow> int \<Rightarrow> int \<Rightarrow> packet list \<Rightarrow> launchBattery \<Rightarrow> launchBattery" where
  "addLoop start n i [] b = b"
| "addLoop start n i (p # ps) b = addLoop start n (i + 1) ps (addOne start n i p b)"

text \<open>With no packet to add the code stores an uninitialised \<open>nextAvailableIndex\<close>.\<close>

definition addToLaunchBattery ::
  "launchBattery \<Rightarrow> packet list \<Rightarrow> int \<Rightarrow> (int \<times> launchBattery) option"
where
  "addToLaunchBattery b packets n =
     (if \<not> willTheyFit b n then Some (- 1, b)
      else if n \<le> 0 \<or> int (length packets) < n then None
      else
        let start = nextAvailableIndex b;
            b' = addLoop start n 0 (take (nat n) packets) b
        in Some (0, b'\<lparr>nextAvailableIndex := c_rem (start + n) QUEUE_LEN\<rparr>))"

subsection \<open>Invariant and abstraction\<close>

definition window_inv :: "sendWindow \<Rightarrow> int \<Rightarrow> bool" where
  "window_inv w win \<longleftrightarrow> 0 \<le> base w \<and> base w < QUEUE_LEN \<and> 0 < win \<and> win < QUEUE_LEN
     \<and> nextSeqNum w = (base w + win) mod QUEUE_LEN"

definition used :: "launchBattery \<Rightarrow> int" where
  "used b = QUEUE_LEN - contiguousPadsAvailable b"

definition pad_at :: "batteryState \<Rightarrow> int \<Rightarrow> launchPad" where
  "pad_at s k = pads (battery s) ((base (window s) + k) mod QUEUE_LEN)"

definition loaded :: "int \<Rightarrow> launchPad \<Rightarrow> bool" where
  "loaded i p \<longleftrightarrow> (status p = READY \<or> status p = SENT)
     \<and> (\<exists>q. pad_packet p = Some q \<and> wf_packet q \<and> index (hdr q) = i \<and> queueLen (hdr q) = QUEUE_LEN)"

definition vacant :: "launchPad \<Rightarrow> bool" where
  "vacant p \<longleftrightarrow> status p = EMPTY \<or> status p = ACKED"

definition battery_inv :: "batteryState \<Rightarrow> bool" where
  "battery_inv s \<longleftrightarrow> window_inv (window s) (winsize s)
     \<and> 0 \<le> used (battery s) \<and> used (battery s) \<le> QUEUE_LEN
     \<and> nextAvailableIndex (battery s) = (base (window s) + used (battery s)) mod QUEUE_LEN
     \<and> (\<forall>k. 0 \<le> k \<and> k < used (battery s) \<longrightarrow>
          loaded ((base (window s) + k) mod QUEUE_LEN) (pad_at s k))
     \<and> (\<forall>k. used (battery s) \<le> k \<and> k < QUEUE_LEN \<longrightarrow> vacant (pad_at s k))"

definition queue :: "batteryState \<Rightarrow> packet list" where
  "queue s = map (\<lambda>k. the (pad_packet (pad_at s (int k)))) [0..<nat (used (battery s))]"

lemma QUEUE_LEN_pos [simp]: "0 < QUEUE_LEN" "QUEUE_LEN \<noteq> 0" "0 \<le> QUEUE_LEN"
  by (simp_all add: QUEUE_LEN_def)

lemma ring_index [simp]: "0 \<le> x mod QUEUE_LEN" "x mod QUEUE_LEN < QUEUE_LEN"
  by simp_all

lemma c_int_ring [c_simps]: "c_int (x mod QUEUE_LEN)" "c_int QUEUE_LEN"
proof -
  have "0 \<le> x mod QUEUE_LEN" "x mod QUEUE_LEN < QUEUE_LEN" "QUEUE_LEN = 1024"
    by (simp_all add: QUEUE_LEN_def)
  then show "c_int (x mod QUEUE_LEN)" "c_int QUEUE_LEN"
    unfolding c_int_def by linarith+
qed

lemma ring_same_iff:
  assumes "0 \<le> i" "i < QUEUE_LEN" "0 \<le> j" "j < QUEUE_LEN"
  shows "((b + i) mod QUEUE_LEN = (b + j) mod QUEUE_LEN) = (i = j)"
  using ring_diff_eq [of b i QUEUE_LEN j] assms by auto

text \<open>A window that wraps: an index counts as in the window exactly when its distance from
  the base is below the window size, and an index outside the ring never does.\<close>

lemma isInWindow_iff:
  assumes w: "window_inv w win" and i: "0 \<le> i" "i < QUEUE_LEN"
  shows "isInWindow w i = ((i - base w) mod QUEUE_LEN < win)"
proof -
  have b: "0 \<le> base w" "base w < QUEUE_LEN" "0 < win" "win < QUEUE_LEN"
    and n: "nextSeqNum w = (if base w + win < QUEUE_LEN then base w + win else base w + win - QUEUE_LEN)"
    using w ring_split [of "base w" QUEUE_LEN win] by (auto simp: window_inv_def)
  have d: "(i - base w) mod QUEUE_LEN = (if base w \<le> i then i - base w else i - base w + QUEUE_LEN)"
  proof (cases "base w \<le> i")
    case True
    with b i show ?thesis by (simp add: mod_pos_pos_trivial)
  next
    case False
    have "(i - base w) mod QUEUE_LEN = (i - base w + QUEUE_LEN) mod QUEUE_LEN" by simp
    also have "\<dots> = i - base w + QUEUE_LEN" using False b i by (intro mod_pos_pos_trivial) auto
    finally show ?thesis using False by simp
  qed
  show ?thesis using b n i d by (auto simp: isInWindow_def Let_def)
qed

lemma isInWindow_range: "window_inv w win \<Longrightarrow> isInWindow w i \<Longrightarrow> 0 \<le> i \<and> i < QUEUE_LEN"
proof -
  assume w: "window_inv w win" and i: "isInWindow w i"
  have "nextSeqNum w < QUEUE_LEN" "0 \<le> base w" using w by (simp_all add: window_inv_def)
  with i show ?thesis by (auto simp: isInWindow_def Let_def split: if_splits)
qed

lemma vacant_available: "vacant p \<Longrightarrow> isLaunchPadAvailable p"
  by (auto simp: vacant_def isLaunchPadAvailable_def)

lemma loaded_not_available: "loaded i p \<Longrightarrow> \<not> isLaunchPadAvailable p"
  by (auto simp: loaded_def isLaunchPadAvailable_def)

lemma length_queue: "battery_inv s \<Longrightarrow> int (length (queue s)) = used (battery s)"
  by (simp add: queue_def battery_inv_def)

text \<open>The count the battery keeps is the number of pads that can take a packet.\<close>

lemma available_pads:
  assumes inv: "battery_inv s"
  shows "contiguousPadsAvailable (battery s) =
    int (card {i. 0 \<le> i \<and> i < QUEUE_LEN \<and> isLaunchPadAvailable (pads (battery s) i)})"
proof -
  let ?u = "used (battery s)" and ?b = "base (window s)"
  have "{i. 0 \<le> i \<and> i < QUEUE_LEN \<and> isLaunchPadAvailable (pads (battery s) i)}
      = (\<lambda>k. (?b + k) mod QUEUE_LEN) ` {?u..<QUEUE_LEN}" (is "?L = ?R")
  proof
    show "?L \<subseteq> ?R"
    proof
      fix i assume i: "i \<in> ?L"
      then obtain k where k: "0 \<le> k" "k < QUEUE_LEN" "i = (?b + k) mod QUEUE_LEN"
        using ring_cover [of QUEUE_LEN i ?b] by auto
      with i inv have "\<not> k < ?u"
        using loaded_not_available by (auto simp: battery_inv_def pad_at_def)
      with k show "i \<in> ?R" by auto
    qed
  next
    show "?R \<subseteq> ?L"
      using inv vacant_available by (auto simp: battery_inv_def pad_at_def)
  qed
  moreover have "inj_on (\<lambda>k. (?b + k) mod QUEUE_LEN) {?u..<QUEUE_LEN}"
    using inv by (intro inj_onI) (auto simp: battery_inv_def ring_same_iff)
  ultimately have "card ?L = card {?u..<QUEUE_LEN}" by (simp add: card_image)
  also have "\<dots> = nat (QUEUE_LEN - ?u)" by simp
  finally show ?thesis using inv by (simp add: used_def battery_inv_def)
qed

subsection \<open>Adding packets\<close>

lemma battery_inv_init: "battery_inv initLaunchBattery"
  by (auto simp: battery_inv_def initLaunchBattery_def newLaunchBattery_def newSendWindow_def
      window_inv_def used_def pad_at_def vacant_def newLaunchPad_def QUEUE_LEN_def
      WINSIZE_DEFAULT_def)

definition load_pad :: "packet \<Rightarrow> launchPad \<Rightarrow> launchPad" where
  "load_pad q p = (if status p = ACKED \<or> status p = LOST then resetLaunchPad p else p)
     \<lparr>pad_packet := Some q, status := READY\<rparr>"

lemma addLoop_spec:
  assumes "0 \<le> i" "i + int (length ps) \<le> QUEUE_LEN" "0 \<le> start"
    and "\<forall>k. i \<le> k \<and> k < i + int (length ps) \<longrightarrow>
      isLaunchPadAvailable (pads b ((start + k) mod QUEUE_LEN))"
  shows "contiguousPadsAvailable (addLoop start n i ps b)
      = contiguousPadsAvailable b - int (length ps)
    \<and> (\<forall>k. 0 \<le> k \<and> k < QUEUE_LEN \<longrightarrow> pads (addLoop start n i ps b) ((start + k) mod QUEUE_LEN) =
         (if i \<le> k \<and> k < i + int (length ps)
          then load_pad (stamp start n k (ps ! nat (k - i))) (pads b ((start + k) mod QUEUE_LEN))
          else pads b ((start + k) mod QUEUE_LEN)))"
  using assms
proof (induction ps arbitrary: i b)
  case Nil
  then show ?case by auto
next
  case (Cons p ps)
  let ?b = "addOne start n i p b"
  have i: "0 \<le> i" "i < QUEUE_LEN" using Cons.prems by auto
  have "isLaunchPadAvailable (pads b ((start + i) mod QUEUE_LEN))"
    using Cons.prems(4) by (metis add.right_neutral add_strict_left_mono length_greater_0_conv
        list.distinct(1) of_nat_0_less_iff order_refl)
  then have one: "?b = updateContiguousPads (b\<lparr>pads := (pads b)((start + i) mod QUEUE_LEN :=
      load_pad (stamp start n i p) (pads b ((start + i) mod QUEUE_LEN)))\<rparr>) (- 1)"
    using i Cons.prems(3) by (simp add: addOne_def load_pad_def c_simps Let_def)
  have pads': "pads ?b ((start + k) mod QUEUE_LEN) =
      (if k = i then load_pad (stamp start n i p) (pads b ((start + k) mod QUEUE_LEN))
       else pads b ((start + k) mod QUEUE_LEN))" if "0 \<le> k" "k < QUEUE_LEN" for k
    using that i by (simp add: one updateContiguousPads_def ring_same_iff)
  have "\<forall>k. i + 1 \<le> k \<and> k < i + 1 + int (length ps) \<longrightarrow>
      isLaunchPadAvailable (pads ?b ((start + k) mod QUEUE_LEN))"
    using Cons.prems pads' by auto
  from Cons.IH [OF _ _ Cons.prems(3) this] Cons.prems i have
    IH: "contiguousPadsAvailable (addLoop start n (i + 1) ps ?b)
        = contiguousPadsAvailable ?b - int (length ps)"
    and IH2: "\<And>k. 0 \<le> k \<Longrightarrow> k < QUEUE_LEN \<Longrightarrow>
      pads (addLoop start n (i + 1) ps ?b) ((start + k) mod QUEUE_LEN) =
         (if i + 1 \<le> k \<and> k < i + 1 + int (length ps)
          then load_pad (stamp start n k (ps ! nat (k - (i + 1)))) (pads ?b ((start + k) mod QUEUE_LEN))
          else pads ?b ((start + k) mod QUEUE_LEN))"
    by auto
  have "pads (addLoop start n i (p # ps) b) ((start + k) mod QUEUE_LEN) =
      (if i \<le> k \<and> k < i + int (length (p # ps))
       then load_pad (stamp start n k ((p # ps) ! nat (k - i))) (pads b ((start + k) mod QUEUE_LEN))
       else pads b ((start + k) mod QUEUE_LEN))" if k: "0 \<le> k" "k < QUEUE_LEN" for k
  proof -
    have "nat (k - i) = Suc (nat (k - (i + 1)))" if "i + 1 \<le> k" using that by simp
    then show ?thesis using IH2 [OF k] pads' [OF k] by auto
  qed
  moreover have "contiguousPadsAvailable ?b = contiguousPadsAvailable b - 1"
    by (simp add: one updateContiguousPads_def)
  ultimately show ?case using IH by auto
qed

definition stamp_all :: "int \<Rightarrow> packet list \<Rightarrow> packet list" where
  "stamp_all start ps = map (\<lambda>(i, p). stamp start (int (length ps)) (int i) p) (enumerate 0 ps)"

lemma load_pad_loaded:
  "wf_packet q \<Longrightarrow> index (hdr q) = i \<Longrightarrow> queueLen (hdr q) = QUEUE_LEN \<Longrightarrow> loaded i (load_pad q p)"
  by (simp add: loaded_def load_pad_def resetLaunchPad_def newLaunchPad_def)

lemma wf_stamp: "wf_packet p \<Longrightarrow> 0 \<le> start + i \<Longrightarrow> 0 \<le> start + n - 1 \<Longrightarrow> wf_packet (stamp start n i p)"
  by (auto simp add: wf_packet_def wf_header_def stamp_def c_simps)

text \<open>The ring after the packets went in, seen from the window base.\<close>

lemma addToLaunchBattery_pads:
  assumes inv: "battery_inv s" and n: "n = int (length ps)" "0 < n"
    and fit: "willTheyFit (battery s) n"
  shows "\<exists>b'. addToLaunchBattery (battery s) ps n = Some (0, b')
    \<and> contiguousPadsAvailable b' = contiguousPadsAvailable (battery s) - n
    \<and> nextAvailableIndex b' = (base (window s) + used (battery s) + n) mod QUEUE_LEN
    \<and> (\<forall>k. 0 \<le> k \<and> k < QUEUE_LEN \<longrightarrow> pads b' ((base (window s) + k) mod QUEUE_LEN) =
         (if used (battery s) \<le> k \<and> k < used (battery s) + n
          then load_pad (stamp (nextAvailableIndex (battery s)) n (k - used (battery s))
                  (ps ! nat (k - used (battery s)))) (pad_at s k)
          else pad_at s k))"
proof -
  let ?u = "used (battery s)" and ?b = "base (window s)" and ?st = "nextAvailableIndex (battery s)"
  let ?L = "addLoop ?st n 0 ps (battery s)"
  have st: "?st = (?b + ?u) mod QUEUE_LEN" "0 \<le> ?st" and u: "0 \<le> ?u" "?u + n \<le> QUEUE_LEN"
    using inv fit by (auto simp: battery_inv_def used_def willTheyFit_def)
  have pos: "(?st + k) mod QUEUE_LEN = (?b + (?u + k)) mod QUEUE_LEN" for k
    by (simp add: st(1) mod_add_left_eq add.assoc)
  have "isLaunchPadAvailable (pads (battery s) ((?st + k) mod QUEUE_LEN))" if "0 \<le> k" "k < n" for k
    using inv that u vacant_available unfolding pos by (simp add: battery_inv_def pad_at_def)
  with addLoop_spec [of 0 ps ?st "battery s" n] st(2) u n
  have cont: "contiguousPadsAvailable ?L = contiguousPadsAvailable (battery s) - n"
    and pads: "\<And>k. 0 \<le> k \<Longrightarrow> k < QUEUE_LEN \<Longrightarrow> pads ?L ((?st + k) mod QUEUE_LEN) =
      (if 0 \<le> k \<and> k < n then load_pad (stamp ?st n k (ps ! nat k))
         (pads (battery s) ((?st + k) mod QUEUE_LEN))
       else pads (battery s) ((?st + k) mod QUEUE_LEN))"
    by auto
  have "pads ?L ((?b + k) mod QUEUE_LEN) =
      (if ?u \<le> k \<and> k < ?u + n then load_pad (stamp ?st n (k - ?u) (ps ! nat (k - ?u))) (pad_at s k)
       else pad_at s k)" if k: "0 \<le> k" "k < QUEUE_LEN" for k
  proof (cases "?u \<le> k")
    case True
    have "pads ?L ((?st + (k - ?u)) mod QUEUE_LEN) = (if k - ?u < n
        then load_pad (stamp ?st n (k - ?u) (ps ! nat (k - ?u))) (pads (battery s) ((?b + k) mod QUEUE_LEN))
        else pads (battery s) ((?b + k) mod QUEUE_LEN))"
      using pads [of "k - ?u"] True k u(1) pos [of "k - ?u"] by simp
    moreover have "(?st + (k - ?u)) mod QUEUE_LEN = (?b + k) mod QUEUE_LEN"
      using pos [of "k - ?u"] by simp
    ultimately show ?thesis using True by (simp add: pad_at_def)
  next
    case False
    have q: "(?st + (k - ?u + QUEUE_LEN)) mod QUEUE_LEN = (?b + k) mod QUEUE_LEN"
      using pos [of "k - ?u + QUEUE_LEN"] by (simp add: add.assoc [symmetric])
    have "pads ?L ((?st + (k - ?u + QUEUE_LEN)) mod QUEUE_LEN) = pads (battery s) ((?b + k) mod QUEUE_LEN)"
      using pads [of "k - ?u + QUEUE_LEN"] False k u n(2) unfolding q by simp
    then show ?thesis using False unfolding q by (simp add: pad_at_def)
  qed
  moreover have "c_rem (?st + n) QUEUE_LEN = (?b + ?u + n) mod QUEUE_LEN"
    using st n(2) pos [of n] by (simp add: c_simps add.assoc)
  ultimately show ?thesis
    using fit n cont by (simp add: addToLaunchBattery_def Let_def)
qed

text \<open>What the loaded pads give once the battery \<open>b'\<close> holds \<open>n\<close> more packets from the list
  \<open>ps\<close>: the ring is still well formed, and the packets stand behind those already waiting.\<close>

definition extends :: "batteryState \<Rightarrow> packet list \<Rightarrow> launchBattery \<Rightarrow> bool" where
  "extends s ps b' \<longleftrightarrow> (let n = int (length ps); u = used (battery s); start = nextAvailableIndex (battery s) in
     0 < n \<and> n \<le> contiguousPadsAvailable (battery s)
     \<and> contiguousPadsAvailable b' = contiguousPadsAvailable (battery s) - n
     \<and> nextAvailableIndex b' = (base (window s) + u + n) mod QUEUE_LEN
     \<and> (\<forall>k. 0 \<le> k \<and> k < QUEUE_LEN \<longrightarrow> pad_at (s\<lparr>battery := b'\<rparr>) k =
          (if u \<le> k \<and> k < u + n
           then load_pad (stamp start n (k - u) (ps ! nat (k - u))) (pad_at s k) else pad_at s k)))"

lemma extends_D:
  assumes "battery_inv s" "extends s ps b'"
  shows "nextAvailableIndex (battery s) = (base (window s) + used (battery s)) mod QUEUE_LEN"
    "0 \<le> nextAvailableIndex (battery s)" "0 \<le> used (battery s)"
    "used (battery s) + int (length ps) \<le> QUEUE_LEN" "used b' = used (battery s) + int (length ps)"
    "int (length ps) \<le> QUEUE_LEN"
  using assms by (auto simp: extends_def Let_def battery_inv_def used_def)

lemma extends_inv:
  assumes inv: "battery_inv s" and e: "extends s ps b'" and wf: "\<forall>p\<in>set ps. wf_packet p"
  shows "battery_inv (s\<lparr>battery := b'\<rparr>)"
proof -
  let ?n = "int (length ps)" and ?u = "used (battery s)" and ?b = "base (window s)"
    and ?st = "nextAvailableIndex (battery s)" and ?s = "s\<lparr>battery := b'\<rparr>"
  note D = extends_D [OF inv e]
  have pa: "pad_at ?s k = (if ?u \<le> k \<and> k < ?u + ?n
      then load_pad (stamp ?st ?n (k - ?u) (ps ! nat (k - ?u))) (pad_at s k) else pad_at s k)"
    if "0 \<le> k" "k < QUEUE_LEN" for k using e that by (simp add: extends_def Let_def)
  have "loaded ((?b + k) mod QUEUE_LEN) (pad_at ?s k)" if k: "0 \<le> k" "k < ?u + ?n" for k
  proof (cases "k < ?u")
    case True
    with pa [of k] k D inv show ?thesis by (simp add: battery_inv_def)
  next
    case False
    have w: "wf_packet (ps ! nat (k - ?u))" using wf k False by (simp add: nat_less_iff)
    have "index (hdr (stamp ?st ?n (k - ?u) p)) = (?b + k) mod QUEUE_LEN" for p
      using False D(2) by (simp add: stamp_def c_simps) (simp add: D(1) mod_add_left_eq)
    moreover have "wf_packet (stamp ?st ?n (k - ?u) (ps ! nat (k - ?u)))"
      using wf_stamp [OF w] D(2) k False by simp
    ultimately have "loaded ((?b + k) mod QUEUE_LEN)
        (load_pad (stamp ?st ?n (k - ?u) (ps ! nat (k - ?u))) (pad_at s k))"
      by (intro load_pad_loaded) (auto simp: stamp_def)
    with pa [of k] k False D show ?thesis by simp
  qed
  moreover have "vacant (pad_at ?s k)" if "?u + ?n \<le> k" "k < QUEUE_LEN" for k
    using pa [of k] that D inv by (simp add: battery_inv_def)
  ultimately show ?thesis
    using inv D e by (simp add: battery_inv_def extends_def Let_def add.assoc)
qed

lemma extends_queue:
  assumes inv: "battery_inv s" and e: "extends s ps b'"
  shows "queue (s\<lparr>battery := b'\<rparr>) = queue s @ stamp_all (nextAvailableIndex (battery s)) ps"
proof (rule nth_equalityI)
  let ?n = "int (length ps)" and ?u = "used (battery s)" and ?st = "nextAvailableIndex (battery s)"
    and ?s = "s\<lparr>battery := b'\<rparr>"
  note D = extends_D [OF inv e]
  have len: "length (queue s) = nat ?u" by (simp add: queue_def)
  show "length (queue ?s) = length (queue s @ stamp_all ?st ps)"
    using D by (simp add: queue_def stamp_all_def nat_add_distrib)
  fix i assume "i < length (queue ?s)"
  then have i: "int i < ?u + ?n" "int i < QUEUE_LEN" and q: "queue ?s ! i = the (pad_packet (pad_at ?s (int i)))"
    using D by (simp_all add: queue_def)
  then have pa: "pad_at ?s (int i) = (if ?u \<le> int i
      then load_pad (stamp ?st ?n (int i - ?u) (ps ! nat (int i - ?u))) (pad_at s (int i)) else pad_at s (int i))"
    using e by (simp add: extends_def Let_def)
  show "queue ?s ! i = (queue s @ stamp_all ?st ps) ! i"
  proof (cases "int i < ?u")
    case True
    with pa q show ?thesis by (simp add: nth_append len zless_nat_eq_int_zless queue_def)
  next
    case False
    then have j: "i - nat ?u < length ps" "int (i - nat ?u) = int i - ?u" "nat (int i - ?u) = i - nat ?u"
      using i D by auto
    have "queue ?s ! i = stamp ?st ?n (int i - ?u) (ps ! (i - nat ?u))"
      using pa False j(3) unfolding q by (simp add: load_pad_def)
    moreover have "stamp_all ?st ps ! (i - nat ?u) = stamp ?st ?n (int i - ?u) (ps ! (i - nat ?u))"
      using j by (simp add: stamp_all_def nth_enumerate_eq)
    ultimately show ?thesis using False len D by (simp add: nth_append nat_less_iff)
  qed
qed

text \<open>All packets or none: with enough pads the list of waiting packets grows by exactly the
  packets given, stamped with consecutive ring indexes; otherwise nothing changes.\<close>

lemma addToLaunchBattery_queue:
  assumes inv: "battery_inv s" and n: "n = int (length ps)" "0 < n"
    and wf: "\<forall>p\<in>set ps. wf_packet p"
  shows "if n \<le> contiguousPadsAvailable (battery s)
    then \<exists>b'. addToLaunchBattery (battery s) ps n = Some (0, b')
      \<and> battery_inv (s\<lparr>battery := b'\<rparr>)
      \<and> queue (s\<lparr>battery := b'\<rparr>) = queue s @ stamp_all (nextAvailableIndex (battery s)) ps
    else addToLaunchBattery (battery s) ps n = Some (- 1, battery s)"
proof (cases "n \<le> contiguousPadsAvailable (battery s)")
  case False
  then show ?thesis by (simp add: addToLaunchBattery_def willTheyFit_def)
next
  case True
  from addToLaunchBattery_pads [OF inv n] True obtain b' where
    "addToLaunchBattery (battery s) ps n = Some (0, b')" and e: "extends s ps b'"
    using n by (auto simp: willTheyFit_def extends_def Let_def pad_at_def)
  then show ?thesis using True extends_inv [OF inv e wf] extends_queue [OF inv e] by auto
qed

end
