(* ===== verification/Heap.thy ===== *)
theory Heap
  imports Prelude
begin

text \<open>
  The part of the C heap that the pointer structures of the program use
  (dataStructures/ll.h, dataStructures/hTable.h): list nodes, key/value pairs, key buffers
  and client values. Address 0 is the null pointer. \<open>calloc\<close> gives an address that was
  never given before, so a dangling pointer stays dangling; it is taken to succeed, as the
  program never checks it. A load or store through a pointer to no live object of the
  expected kind, and a \<open>free\<close> of one that is not live, is \<open>None\<close>.
\<close>

type_synonym addr = nat

abbreviation NULL :: addr where
  "NULL \<equiv> 0"

datatype 'v obj =
    NodeObj (node_value: addr) (node_next: addr)
  | PairObj (pair_key: addr) (pair_value: addr)
  | KeyObj (key_bytes: "byte list")
  | ValObj (val_of: 'v)

record 'v heap =
  mem :: "addr \<rightharpoonup> 'v obj"
  brk :: addr

definition heap_ok :: "'v heap \<Rightarrow> bool" where
  "heap_ok h \<longleftrightarrow> 0 < brk h \<and> mem h 0 = None \<and> (\<forall>a\<ge>brk h. mem h a = None)"

definition empty_heap :: "'v heap" where
  "empty_heap = \<lparr>mem = Map.empty, brk = 1\<rparr>"

definition alloc :: "'v heap \<Rightarrow> 'v obj \<Rightarrow> addr \<times> 'v heap" where
  "alloc h x = (brk h, h\<lparr>mem := (mem h)(brk h \<mapsto> x), brk := Suc (brk h)\<rparr>)"

definition free :: "'v heap \<Rightarrow> addr \<Rightarrow> 'v heap option" where
  "free h a = (if a = NULL then Some h
     else case mem h a of None \<Rightarrow> None | Some _ \<Rightarrow> Some (h\<lparr>mem := (mem h)(a := None)\<rparr>))"

definition load_node :: "'v heap \<Rightarrow> addr \<Rightarrow> (addr \<times> addr) option" where
  "load_node h a = (case mem h a of Some (NodeObj v n) \<Rightarrow> Some (v, n) | _ \<Rightarrow> None)"

definition load_pair :: "'v heap \<Rightarrow> addr \<Rightarrow> (addr \<times> addr) option" where
  "load_pair h a = (case mem h a of Some (PairObj k v) \<Rightarrow> Some (k, v) | _ \<Rightarrow> None)"

definition load_key :: "'v heap \<Rightarrow> addr \<Rightarrow> byte list option" where
  "load_key h a = (case mem h a of Some (KeyObj k) \<Rightarrow> Some k | _ \<Rightarrow> None)"

definition load_val :: "'v heap \<Rightarrow> addr \<Rightarrow> 'v option" where
  "load_val h a = (case mem h a of Some (ValObj v) \<Rightarrow> Some v | _ \<Rightarrow> None)"

definition store_next :: "'v heap \<Rightarrow> addr \<Rightarrow> addr \<Rightarrow> 'v heap option" where
  "store_next h a n = do {
     (v, _) \<leftarrow> load_node h a; Some (h\<lparr>mem := (mem h)(a \<mapsto> NodeObj v n)\<rparr>) }"

definition store_pair_value :: "'v heap \<Rightarrow> addr \<Rightarrow> addr \<Rightarrow> 'v heap option" where
  "store_pair_value h a w = do {
     (k, _) \<leftarrow> load_pair h a; Some (h\<lparr>mem := (mem h)(a \<mapsto> PairObj k w)\<rparr>) }"

lemma heap_ok_empty [simp]: "heap_ok empty_heap"
  by (simp add: heap_ok_def empty_heap_def)

lemma heap_ok_alloc [heap_simps]: "heap_ok h \<Longrightarrow> heap_ok (snd (alloc h x))"
  by (auto simp: heap_ok_def alloc_def)

lemma heap_ok_upd [heap_simps]:
  "heap_ok h \<Longrightarrow> mem h a \<noteq> None \<Longrightarrow> heap_ok (h\<lparr>mem := (mem h)(a \<mapsto> x)\<rparr>)"
  by (cases "a = 0") (auto simp: heap_ok_def)

lemma heap_ok_clear [heap_simps]: "heap_ok h \<Longrightarrow> heap_ok (h\<lparr>mem := (mem h)(a := None)\<rparr>)"
  by (auto simp: heap_ok_def)

lemma heap_ok_live:
  assumes "heap_ok h" "mem h a = Some x"
  shows "0 < a \<and> a < brk h"
proof -
  have "a \<noteq> 0" using assms by (metis heap_ok_def option.distinct(1))
  moreover have "\<not> brk h \<le> a" using assms by (auto simp: heap_ok_def)
  ultimately show ?thesis by simp
qed

lemma load_node_iff [simp]: "(load_node h a = Some (v, n)) = (mem h a = Some (NodeObj v n))"
  by (auto simp: load_node_def split: option.splits obj.splits)

lemma load_pair_iff [simp]: "(load_pair h a = Some (k, v)) = (mem h a = Some (PairObj k v))"
  by (auto simp: load_pair_def split: option.splits obj.splits)

lemma load_key_iff [simp]: "(load_key h a = Some k) = (mem h a = Some (KeyObj k))"
  by (auto simp: load_key_def split: option.splits obj.splits)

lemma load_val_iff [simp]: "(load_val h a = Some v) = (mem h a = Some (ValObj v))"
  by (auto simp: load_val_def split: option.splits obj.splits)

lemma load_node_live [heap_simps]: "mem h a = Some (NodeObj v n) \<Longrightarrow> load_node h a = Some (v, n)"
  by simp

lemma load_pair_live [heap_simps]: "mem h a = Some (PairObj k v) \<Longrightarrow> load_pair h a = Some (k, v)"
  by simp

lemma load_key_live [heap_simps]: "mem h a = Some (KeyObj k) \<Longrightarrow> load_key h a = Some k"
  by simp

lemma load_val_live [heap_simps]: "mem h a = Some (ValObj v) \<Longrightarrow> load_val h a = Some v"
  by simp

lemma free_live [heap_simps]:
  "mem h a = Some x \<Longrightarrow> a \<noteq> 0 \<Longrightarrow> free h a = Some (h\<lparr>mem := (mem h)(a := None)\<rparr>)"
  by (simp add: free_def)

lemma store_next_live [heap_simps]:
  "mem h a = Some (NodeObj v m) \<Longrightarrow>
   store_next h a n = Some (h\<lparr>mem := (mem h)(a \<mapsto> NodeObj v n)\<rparr>)"
  by (simp add: store_next_def load_node_live)

end
