(* ===== verification/LinkedList.thy ===== *)
theory LinkedList
  imports Heap
begin

text \<open>
  The singly linked list of dataStructures/ll.c on the heap: \<open>newNode\<close>, \<open>destroyLL\<close>,
  \<open>appendLL\<close>, \<open>getLL\<close>, \<open>popLL\<close> and \<open>lenLL\<close>. \<open>lls h p xs q\<close> says that the nodes \<open>xs\<close>,
  pairs of address and value, lead from \<open>p\<close> to \<open>q\<close>; a whole list ends in \<open>NULL\<close>. Each
  operation is proved to compute the list function it stands for and to touch no other
  object. A loop that follows \<open>next\<close> is a \<open>partial_function\<close>: on a cyclic structure it
  has no result; on a list it is proved to return.
\<close>

definition newNode :: "'v heap \<Rightarrow> addr \<Rightarrow> addr \<times> 'v heap" where
  "newNode h v = alloc h (NodeObj v NULL)"

partial_function (option) destroyLL :: "'v heap \<Rightarrow> addr \<Rightarrow> 'v heap option" where
  "destroyLL h current =
     (if current = NULL then Some h
      else do {
        (v, n) \<leftarrow> load_node h current;
        h' \<leftarrow> destroyLL h n;
        free h' current })"

partial_function (option) appendLL :: "'v heap \<Rightarrow> addr \<Rightarrow> addr \<Rightarrow> (addr \<times> 'v heap) option" where
  "appendLL h current value =
     (if current = NULL then Some (newNode h value)
      else do {
        (v, n) \<leftarrow> load_node h current;
        if n = NULL then do {
          let (a, h') = alloc h (NodeObj value NULL);
          h'' \<leftarrow> store_next h' current a;
          Some (current, h'') }
        else do {
          (n', h') \<leftarrow> appendLL h n value;
          h'' \<leftarrow> store_next h' current n';
          Some (current, h'') } })"

partial_function (option) lenLL_loop :: "'v heap \<Rightarrow> int \<Rightarrow> addr \<Rightarrow> int option" where
  "lenLL_loop h count current =
     (if current \<noteq> NULL then do {
        (v, n) \<leftarrow> load_node h current;
        lenLL_loop h (count + 1) n }
      else Some count)"

definition lenLL :: "'v heap \<Rightarrow> addr \<Rightarrow> int option" where
  "lenLL h current = lenLL_loop h 0 current"

primrec walkLL :: "'v heap \<Rightarrow> nat \<Rightarrow> addr \<Rightarrow> addr \<Rightarrow> (addr \<times> addr) option" where
  "walkLL h 0 previous current = Some (previous, current)"
| "walkLL h (Suc i) previous current = do {
     (v, n) \<leftarrow> load_node h current; walkLL h i current n }"

definition getLL :: "'v heap \<Rightarrow> addr \<Rightarrow> int \<Rightarrow> (int \<times> addr option) option" where
  "getLL h head ix = do {
     len \<leftarrow> lenLL h head;
     if ix < 0 \<or> len \<le> ix then Some (1, None)
     else do {
       (previous, current) \<leftarrow> walkLL h (nat ix) NULL head;
       Some (0, Some current) } }"

definition popLL ::
  "'v heap \<Rightarrow> addr \<Rightarrow> int \<Rightarrow> (int \<times> addr \<times> addr option \<times> 'v heap) option" where
  "popLL h head ix =
     (if head \<noteq> NULL then do {
        len \<leftarrow> lenLL h head;
        if 0 \<le> ix \<and> ix < len then do {
          (previous, current) \<leftarrow> walkLL h (nat ix) NULL head;
          (v, n) \<leftarrow> load_node h current;
          (head', h') \<leftarrow>
            (if previous \<noteq> NULL then do { h' \<leftarrow> store_next h previous n; Some (head, h') }
             else Some (n, h));
          h'' \<leftarrow> free h' current;
          Some (0, head', Some v, h'') }
        else Some (1, head, None, h) }
      else Some (1, head, None, h))"

subsection \<open>Representation\<close>

fun lls :: "'v heap \<Rightarrow> addr \<Rightarrow> (addr \<times> addr) list \<Rightarrow> addr \<Rightarrow> bool" where
  "lls h p [] q = (p = q)"
| "lls h p ((a, v) # xs) q =
     (p = a \<and> a \<noteq> NULL \<and> (\<exists>n. mem h a = Some (NodeObj v n) \<and> lls h n xs q))"

abbreviation ll :: "'v heap \<Rightarrow> addr \<Rightarrow> (addr \<times> addr) list \<Rightarrow> bool" where
  "ll h p xs \<equiv> lls h p xs NULL"

abbreviation addrs :: "(addr \<times> addr) list \<Rightarrow> addr set" where
  "addrs xs \<equiv> fst ` set xs"

lemma lls_append: "lls h p (xs @ ys) q = (\<exists>r. lls h p xs r \<and> lls h r ys q)"
proof (induction xs arbitrary: p)
  case (Cons x xs)
  then show ?case by (cases x) (simp, blast)
qed simp

lemma lls_frame:
  "lls h p xs q \<Longrightarrow> (\<And>a. a \<in> addrs xs \<Longrightarrow> mem h' a = mem h a) \<Longrightarrow> lls h' p xs q"
  by (induction xs arbitrary: p) auto

lemma ll_NULL [simp]: "ll h NULL xs = (xs = [])"
  by (cases xs) auto

lemma lls_live: "lls h p xs q \<Longrightarrow> a \<in> addrs xs \<Longrightarrow> a \<noteq> NULL \<and> (\<exists>v n. mem h a = Some (NodeObj v n))"
proof (induction xs arbitrary: p)
  case (Cons x xs)
  then show ?case by (cases x) auto
qed simp

lemma ll_deterministic: "ll h p xs \<Longrightarrow> ll h p ys \<Longrightarrow> xs = ys"
proof (induction xs arbitrary: p ys)
  case (Cons x xs)
  then show ?case by (cases ys; cases x) auto
qed simp

lemma ll_distinct: "ll h p xs \<Longrightarrow> distinct (map fst xs)"
proof (rule ccontr)
  assume ll: "ll h p xs" and "\<not> distinct (map fst xs)"
  then obtain us vs ws a where "map fst xs = us @ [a] @ vs @ [a] @ ws"
    using not_distinct_decomp by blast
  then obtain us' v1 vs' v2 ws' where "xs = us' @ (a, v1) # vs' @ (a, v2) # ws'"
    by (auto simp: map_eq_append_conv append_eq_map_conv Cons_eq_map_conv map_eq_Cons_conv)
  with ll have "ll h a ((a, v1) # vs' @ (a, v2) # ws')" "ll h a ((a, v2) # ws')"
    by (auto simp: lls_append)
  then have "(a, v1) # vs' @ (a, v2) # ws' = (a, v2) # ws'" by (rule ll_deterministic)
  then have "length ((a, v1) # vs' @ (a, v2) # ws') = length ((a, v2) # ws')" by (rule arg_cong)
  then show False by simp
qed

subsection \<open>The operations on a list\<close>

lemma lenLL_loop_ll: "ll h p xs \<Longrightarrow> lenLL_loop h c p = Some (c + int (length xs))"
proof (induction xs arbitrary: p c)
  case Nil
  then show ?case by (simp add: lenLL_loop.simps)
next
  case (Cons x xs)
  then show ?case
    by (cases x) (auto simp: lenLL_loop.simps [of h c p] heap_simps)
qed

lemma lenLL_ll: "ll h p xs \<Longrightarrow> lenLL h p = Some (int (length xs))"
  by (simp add: lenLL_def lenLL_loop_ll)

lemma walkLL_lls:
  "lls h p xs q \<Longrightarrow>
   walkLL h (length xs) prev p = Some (if xs = [] then prev else fst (last xs), q)"
proof (induction xs arbitrary: p prev)
  case (Cons x xs)
  then show ?case by (cases x) (auto simp: heap_simps)
qed simp

lemma getLL_ll:
  assumes "ll h p xs"
  shows "getLL h p ix =
    (if 0 \<le> ix \<and> ix < int (length xs) then Some (0, Some (fst (xs ! nat ix))) else Some (1, None))"
proof (cases "0 \<le> ix \<and> ix < int (length xs)")
  case True
  then have i: "nat ix < length xs" by (simp add: nat_less_iff)
  from assms id_take_nth_drop [OF i] obtain r
    where r: "lls h p (take (nat ix) xs) r" "ll h r (xs ! nat ix # drop (Suc (nat ix)) xs)"
    by (metis lls_append)
  then have "r = fst (xs ! nat ix)" by (cases "xs ! nat ix") simp
  with walkLL_lls [OF r(1), of NULL] True i lenLL_ll [OF assms] show ?thesis
    by (simp add: getLL_def min_def)
next
  case False
  with lenLL_ll [OF assms] show ?thesis by (auto simp: getLL_def)
qed

lemma appendLL_ll:
  assumes "ll h p xs" "heap_ok h"
  shows "\<exists>h'. appendLL h p v = Some (if p = NULL then brk h else p, h')
    \<and> ll h' (if p = NULL then brk h else p) (xs @ [(brk h, v)])
    \<and> heap_ok h' \<and> brk h' = Suc (brk h)
    \<and> (\<forall>a. a \<notin> addrs xs \<and> a \<noteq> brk h \<longrightarrow> mem h' a = mem h a)"
  using assms
proof (induction xs arbitrary: p)
  case Nil
  then have "appendLL h p v = Some (alloc h (NodeObj v NULL))"
    by (subst appendLL.simps) (simp add: newNode_def)
  with Nil show ?case by (auto simp: alloc_def heap_ok_def)
next
  case (Cons x xs)
  obtain a w where x: "x = (a, w)" by (cases x)
  with Cons.prems obtain n where p: "p = a" "a \<noteq> NULL" and a: "mem h a = Some (NodeObj w n)"
    and xs: "ll h n xs" by auto
  have lt: "a < brk h" using heap_ok_live [OF Cons.prems(2) a] by simp
  have nin: "a \<notin> addrs xs" using ll_distinct [OF Cons.prems(1)] by (auto simp: x image_iff)
  show ?case
  proof (cases "n = NULL")
    case True
    with xs have "xs = []" by simp
    have "appendLL h a v
        = Some (a, h\<lparr>mem := (mem h)(brk h \<mapsto> NodeObj v NULL, a \<mapsto> NodeObj w (brk h)),
                  brk := Suc (brk h)\<rparr>)"
      using a p(2) True lt by (subst appendLL.simps) (simp add: alloc_def heap_simps)
    then show ?thesis using Cons.prems p a lt True \<open>xs = []\<close>
      by (auto simp: x heap_ok_def)
  next
    case False
    from Cons.IH [OF xs Cons.prems(2)] False obtain h' where
      ap: "appendLL h n v = Some (n, h')" and l: "ll h' n (xs @ [(brk h, v)])"
      and ok: "heap_ok h'" "brk h' = Suc (brk h)"
      and fr: "\<forall>b. b \<notin> addrs xs \<and> b \<noteq> brk h \<longrightarrow> mem h' b = mem h b" by auto
    have a': "mem h' a = Some (NodeObj w n)" using fr nin lt a by auto
    have same: "h'\<lparr>mem := (mem h')(a \<mapsto> NodeObj w n)\<rparr> = h'"
      using a' by (simp add: fun_upd_idem)
    have "appendLL h p v = Some (p, h')"
      using a p False ap a' same by (subst appendLL.simps) (simp add: heap_simps)
    then show ?thesis using p l a' ok fr by (auto simp: x)
  qed
qed

lemma popLL_out_of_range:
  "ll h p xs \<Longrightarrow> \<not> (0 \<le> ix \<and> ix < int (length xs)) \<Longrightarrow> popLL h p ix = Some (1, p, None, h)"
  by (cases "p = NULL") (auto simp: popLL_def lenLL_ll)

lemma popLL_head:
  assumes "ll h p ((a, v) # ws)"
  shows "\<exists>q. popLL h p 0 = Some (0, q, Some v, h\<lparr>mem := (mem h)(a := None)\<rparr>)
    \<and> ll (h\<lparr>mem := (mem h)(a := None)\<rparr>) q ws"
proof -
  from assms obtain n where p: "p = a" "a \<noteq> NULL" and a: "mem h a = Some (NodeObj v n)"
    and ws: "ll h n ws" by auto
  have "a \<notin> addrs ws" using ll_distinct [OF assms] by force
  then have "ll (h\<lparr>mem := (mem h)(a := None)\<rparr>) n ws"
    by (intro lls_frame [OF ws]) auto
  then show ?thesis
    using p a lenLL_ll [OF assms] by (simp add: popLL_def heap_simps)
qed

lemma popLL_inner:
  assumes ll: "ll h p (us @ (b, w) # (a, v) # ws)" and ix: "ix = int (Suc (length us))"
  shows "\<exists>n. mem h a = Some (NodeObj v n)
    \<and> popLL h p ix = Some (0, p, Some v, h\<lparr>mem := (mem h)(b \<mapsto> NodeObj w n, a := None)\<rparr>)
    \<and> ll (h\<lparr>mem := (mem h)(b \<mapsto> NodeObj w n, a := None)\<rparr>) p (us @ (b, w) # ws)"
proof -
  from ll obtain n where us: "lls h p us b" and b: "b \<noteq> NULL" "mem h b = Some (NodeObj w a)"
    and a: "a \<noteq> NULL" "mem h a = Some (NodeObj v n)" and ws: "ll h n ws"
    by (auto simp: lls_append)
  have d: "b \<notin> addrs us" "a \<notin> addrs us" "a \<noteq> b" "b \<notin> addrs ws" "a \<notin> addrs ws"
    using ll_distinct [OF ll] by (auto simp: image_iff)
  let ?h = "h\<lparr>mem := (mem h)(b \<mapsto> NodeObj w n, a := None)\<rparr>"
  have us': "lls ?h p us b" by (rule lls_frame [OF us]) (use d in auto)
  have ws': "ll ?h n ws" by (rule lls_frame [OF ws]) (use d in auto)
  have p: "p \<noteq> NULL" using ll by (metis append_is_Nil_conv list.distinct(1) ll_NULL)
  have "lls h p (us @ [(b, w)]) a" using us b by (auto simp: lls_append)
  from walkLL_lls [OF this, of NULL] have "walkLL h (nat ix) NULL p = Some (b, a)"
    using ix by (simp add: nat_add_distrib del: walkLL.simps)
  moreover have "lenLL h p = Some (int (length us) + 2 + int (length ws))"
    using lenLL_ll [OF ll] by simp
  ultimately have "popLL h p ix = Some (0, p, Some v, ?h)"
    using p ix b a d by (simp add: popLL_def heap_simps)
  with us' ws' a b d show ?thesis by (auto simp: lls_append)
qed

text \<open>Removal at any index in range, as one fact: the list loses exactly that node, its
  address is freed, and nothing outside the list changes.\<close>

lemma popLL_ll:
  assumes ll: "ll h p xs" and i: "i < length xs" and ok: "heap_ok h"
  shows "\<exists>q h'. popLL h p (int i) = Some (0, q, Some (snd (xs ! i)), h')
    \<and> ll h' q (take i xs @ drop (Suc i) xs) \<and> heap_ok h' \<and> brk h' = brk h
    \<and> mem h' (fst (xs ! i)) = None
    \<and> (\<forall>a. a \<notin> addrs xs \<longrightarrow> mem h' a = mem h a)"
proof -
  obtain a v where av: "xs ! i = (a, v)" by (cases "xs ! i")
  then have mem_a: "a \<in> addrs xs" using i nth_mem [OF i] by force
  have xs: "xs = take i xs @ (a, v) # drop (Suc i) xs"
    using id_take_nth_drop [OF i] av by simp
  show ?thesis
  proof (cases i)
    case 0
    with xs ll have "ll h p ((a, v) # drop (Suc 0) xs)" by simp
    from popLL_head [OF this] 0 av ok mem_a show ?thesis
      by (auto simp: heap_simps) force
  next
    case (Suc j)
    obtain b w where bw: "xs ! j = (b, w)" by (cases "xs ! j")
    have tk: "take i xs = take j xs @ [(b, w)]"
      using i Suc bw by (simp add: take_Suc_conv_app_nth)
    have mem_b: "b \<in> addrs xs" using i Suc bw nth_mem [of j xs] by force
    have ix: "int i = int (Suc (length (take j xs)))" using i Suc by simp
    have "ll h p (take j xs @ (b, w) # (a, v) # drop (Suc i) xs)"
      using ll xs tk by (metis append_assoc append_Cons append_Nil)
    from popLL_inner [OF this ix] obtain n where
      n: "popLL h p (int i) = Some (0, p, Some v, h\<lparr>mem := (mem h)(b \<mapsto> NodeObj w n, a := None)\<rparr>)"
      "ll (h\<lparr>mem := (mem h)(b \<mapsto> NodeObj w n, a := None)\<rparr>) p (take j xs @ (b, w) # drop (Suc i) xs)"
      by auto
    have "mem h b \<noteq> None" using lls_live [OF ll mem_b] by auto
    then have "heap_ok (h\<lparr>mem := (mem h)(b \<mapsto> NodeObj w n)\<rparr>)"
      using ok by (intro heap_ok_upd)
    from heap_ok_clear [OF this, of a]
    have "heap_ok (h\<lparr>mem := (mem h)(b \<mapsto> NodeObj w n, a := None)\<rparr>)" by simp
    with n av mem_a mem_b show ?thesis by (auto simp: tk)
  qed
qed

lemma destroyLL_ll:
  assumes "ll h p xs"
  shows "destroyLL h p = Some (h\<lparr>mem := (\<lambda>a. if a \<in> addrs xs then None else mem h a)\<rparr>)"
  using assms
proof (induction xs arbitrary: p)
  case Nil
  then show ?case by (simp add: destroyLL.simps)
next
  case (Cons x xs)
  obtain a w where x: "x = (a, w)" by (cases x)
  with Cons.prems obtain n where p: "p = a" "a \<noteq> NULL" and a: "mem h a = Some (NodeObj w n)"
    and xs: "ll h n xs" by auto
  have nin: "a \<notin> addrs xs" using ll_distinct [OF Cons.prems] by (auto simp: x image_iff)
  let ?h = "h\<lparr>mem := (\<lambda>a. if a \<in> addrs xs then None else mem h a)\<rparr>"
  have "free ?h a = Some (?h\<lparr>mem := (mem ?h)(a := None)\<rparr>)"
    using nin a p by (intro free_live) auto
  then show ?case
    using p a Cons.IH [OF xs]
    by (subst destroyLL.simps) (auto simp: heap_simps x fun_eq_iff intro!: arg_cong)
qed

lemma ll_example: "ll (snd (newNode empty_heap 42)) 1 [(1, 42)]" "heap_ok (snd (newNode empty_heap 42))"
  by (simp_all add: newNode_def alloc_def empty_heap_def heap_ok_def)

end
