(* ===== verification/HashTable.thy ===== *)
theory HashTable
  imports LinkedList
begin

text \<open>
  The hash table with collision lists of dataStructures/hTable.c, on the heap of theory
  \<open>Heap\<close>. The table is the array of list heads; each node of a list holds the address of a
  pair, which holds the addresses of a key buffer and of a client value. \<open>rep\<close> relates a
  heap and a table to the cells the table stands for, \<open>lookup_cell\<close> is the finite map they
  form, and each operation is proved to compute on it, for keys of one fixed length (the
  only use the protocol makes of the table). Adding a key that is already bound frees the
  value it then stores; that is stated as it is.
\<close>

definition PRIME :: "32 word" where
  "PRIME = 31"

definition HASHSIZE :: nat where
  "HASHSIZE = 101"

type_synonym table = "addr list"

definition newHashTable :: table where
  "newHashTable = replicate HASHSIZE NULL"

definition newPair :: "'v heap \<Rightarrow> addr \<Rightarrow> addr \<Rightarrow> addr \<times> 'v heap" where
  "newPair h key value = alloc h (PairObj key value)"

definition destroyPair :: "'v heap \<Rightarrow> addr \<Rightarrow> 'v heap option" where
  "destroyPair h p = do {
     (k, v) \<leftarrow> load_pair h p;
     h1 \<leftarrow> free h k;
     h2 \<leftarrow> free h1 v;
     free h2 p }"

subsection \<open>Hashing and comparing keys\<close>

primrec hash_loop :: "32 word \<Rightarrow> byte list \<Rightarrow> 32 word" where
  "hash_loop h [] = h"
| "hash_loop h (b # bs) = hash_loop (h + (ucast b + PRIME * h)) bs"

definition hash_bytes :: "byte list \<Rightarrow> nat" where
  "hash_bytes key = unat (hash_loop 1 key) mod HASHSIZE"

definition hash :: "'v heap \<Rightarrow> addr \<Rightarrow> nat \<Rightarrow> nat option" where
  "hash h key keyLen = do {
     kb \<leftarrow> load_key h key; bs \<leftarrow> peek kb 0 keyLen; Some (hash_bytes bs) }"

text \<open>\<open>memcmp (a, b, n) == 0\<close>, byte by byte up to the first difference; \<open>None\<close> when the
  comparison leaves a buffer first.\<close>

fun memcmp_eq :: "byte list \<Rightarrow> byte list \<Rightarrow> nat \<Rightarrow> bool option" where
  "memcmp_eq xs ys 0 = Some True"
| "memcmp_eq (x # xs) (y # ys) (Suc n) = (if x = y then memcmp_eq xs ys n else Some False)"
| "memcmp_eq xs ys (Suc n) = None"

definition getCollisionList :: "table \<Rightarrow> nat \<Rightarrow> addr" where
  "getCollisionList t h = t ! h"

text \<open>The loop over a collision list, the same in \<open>getValueFromHashTable\<close>,
  \<open>addToHashTable\<close> and \<open>removeFromHashTable\<close>: index and pair of the first node whose key
  matches.\<close>

partial_function (option) findPair ::
  "'v heap \<Rightarrow> addr \<Rightarrow> addr \<Rightarrow> nat \<Rightarrow> int \<Rightarrow> (int \<times> addr) option option"
where
  "findPair h current key keyLen i =
     (if current = NULL then Some None
      else do {
        (p, n) \<leftarrow> load_node h current;
        (pk, pv) \<leftarrow> load_pair h p;
        kb \<leftarrow> load_key h pk;
        kq \<leftarrow> load_key h key;
        same \<leftarrow> memcmp_eq kb kq keyLen;
        if same then Some (Some (i, p)) else findPair h n key keyLen (i + 1) })"

subsection \<open>Operations\<close>

definition getValueFromHashTable :: "'v heap \<Rightarrow> table \<Rightarrow> addr \<Rightarrow> nat \<Rightarrow> addr option" where
  "getValueFromHashTable h t key keyLen =
     (if key \<noteq> NULL then do {
        hv \<leftarrow> hash h key keyLen;
        r \<leftarrow> findPair h (getCollisionList t hv) key keyLen 0;
        (case r of None \<Rightarrow> Some NULL
         | Some (i, p) \<Rightarrow> do { (pk, pv) \<leftarrow> load_pair h p; Some pv }) }
      else Some NULL)"

definition addToHashTable ::
  "'v heap \<Rightarrow> table \<Rightarrow> addr \<Rightarrow> nat \<Rightarrow> addr \<Rightarrow> (table \<times> 'v heap) option"
where
  "addToHashTable h t key keyLen value =
     (if key \<noteq> NULL then do {
        hv \<leftarrow> hash h key keyLen;
        let (pair, h1) = newPair h key value;
        let collisionList = getCollisionList t hv;
        if collisionList = NULL then do {
          let (node, h2) = newNode h1 pair;
          Some (t[hv := node], h2) }
        else do {
          r \<leftarrow> findPair h1 collisionList key keyLen 0;
          (case r of
             Some (i, currentPair) \<Rightarrow> do {
               h2 \<leftarrow> destroyPair h1 pair;
               h3 \<leftarrow> store_pair_value h2 currentPair value;
               Some (t, h3) }
           | None \<Rightarrow> do {
               (head, h2) \<leftarrow> appendLL h1 collisionList pair;
               Some (t[hv := head], h2) }) } }
      else Some (t, h))"

definition removeFromHashTable ::
  "'v heap \<Rightarrow> table \<Rightarrow> addr \<Rightarrow> nat \<Rightarrow> (table \<times> 'v heap) option"
where
  "removeFromHashTable h t key keyLen =
     (if key \<noteq> NULL then do {
        hv \<leftarrow> hash h key keyLen;
        r \<leftarrow> findPair h (getCollisionList t hv) key keyLen 0;
        (case r of None \<Rightarrow> Some (t, h)
         | Some (i, p) \<Rightarrow> do {
             h1 \<leftarrow> destroyPair h p;
             (res, head, dest, h2) \<leftarrow> popLL h1 (getCollisionList t hv) i;
             Some (t[hv := head], h2) }) }
      else Some (t, h))"

partial_function (option) destroyPairs :: "'v heap \<Rightarrow> addr \<Rightarrow> 'v heap option" where
  "destroyPairs h currentEntry =
     (if currentEntry = NULL then Some h
      else do {
        (p, n) \<leftarrow> load_node h currentEntry;
        h' \<leftarrow> destroyPair h p;
        (p', n') \<leftarrow> load_node h' currentEntry;
        destroyPairs h' n' })"

primrec destroyHashTable :: "'v heap \<Rightarrow> table \<Rightarrow> 'v heap option" where
  "destroyHashTable h [] = Some h"
| "destroyHashTable h (l # ls) = do {
     h1 \<leftarrow> destroyPairs h l;
     h2 \<leftarrow> destroyLL h1 l;
     destroyHashTable h2 ls }"

subsection \<open>Representation\<close>

record 'v cell =
  cnode :: addr
  cpair :: addr
  ckaddr :: addr
  cvaddr :: addr
  ckey :: "byte list"
  cval :: 'v

definition cell_ok :: "'v heap \<Rightarrow> 'v cell \<Rightarrow> bool" where
  "cell_ok h c \<longleftrightarrow> mem h (cpair c) = Some (PairObj (ckaddr c) (cvaddr c))
     \<and> mem h (ckaddr c) = Some (KeyObj (ckey c)) \<and> mem h (cvaddr c) = Some (ValObj (cval c))"

abbreviation node_of :: "'v cell \<Rightarrow> addr \<times> addr" where
  "node_of c \<equiv> (cnode c, cpair c)"

definition cells :: "(nat \<Rightarrow> 'v cell list) \<Rightarrow> 'v cell set" where
  "cells css = (\<Union>i<HASHSIZE. set (css i))"

definition rep :: "nat \<Rightarrow> 'v heap \<Rightarrow> table \<Rightarrow> (nat \<Rightarrow> 'v cell list) \<Rightarrow> bool" where
  "rep n h t css \<longleftrightarrow> heap_ok h \<and> length t = HASHSIZE
     \<and> (\<forall>i<HASHSIZE. ll h (t ! i) (map node_of (css i)) \<and> distinct (map ckey (css i))
          \<and> (\<forall>c\<in>set (css i). hash_bytes (ckey c) = i))
     \<and> (\<forall>c\<in>cells css. cell_ok h c \<and> length (ckey c) = n)
     \<and> inj_on cnode (cells css) \<and> inj_on cpair (cells css)
     \<and> inj_on ckaddr (cells css) \<and> inj_on cvaddr (cells css)"

definition lookup_cell :: "(nat \<Rightarrow> 'v cell list) \<Rightarrow> byte list \<Rightarrow> 'v cell option" where
  "lookup_cell css k = find (\<lambda>c. ckey c = k) (css (hash_bytes k))"

definition ht_map :: "(nat \<Rightarrow> 'v cell list) \<Rightarrow> byte list \<Rightarrow> 'v option" where
  "ht_map css k = map_option cval (lookup_cell css k)"

lemma hash_bytes_less [simp]: "hash_bytes k < HASHSIZE"
  by (simp add: hash_bytes_def HASHSIZE_def)

lemma memcmp_eq_full: "length xs = n \<Longrightarrow> length ys = n \<Longrightarrow> memcmp_eq xs ys n = Some (xs = ys)"
proof (induction n arbitrary: xs ys)
  case (Suc n)
  then show ?case by (cases xs; cases ys) auto
qed simp

lemma hash_live:
  "mem h key = Some (KeyObj k) \<Longrightarrow> length k = n \<Longrightarrow> hash h key n = Some (hash_bytes k)"
  by (simp add: hash_def peek_def)

lemma rep_D:
  assumes "rep n h t css"
  shows "heap_ok h" "length t = HASHSIZE"
    and "i < HASHSIZE \<Longrightarrow> ll h (t ! i) (map node_of (css i))"
    and "i < HASHSIZE \<Longrightarrow> distinct (map ckey (css i))"
    and "i < HASHSIZE \<Longrightarrow> c \<in> set (css i) \<Longrightarrow> hash_bytes (ckey c) = i"
    and "c \<in> cells css \<Longrightarrow> cell_ok h c" "c \<in> cells css \<Longrightarrow> length (ckey c) = n"
    and "inj_on cnode (cells css)" "inj_on cpair (cells css)"
    and "inj_on ckaddr (cells css)" "inj_on cvaddr (cells css)"
  using assms by (auto simp: rep_def)

lemma cells_I: "i < HASHSIZE \<Longrightarrow> c \<in> set (css i) \<Longrightarrow> c \<in> cells css"
  by (auto simp: cells_def)

lemma cells_node_live:
  assumes "rep n h t css" "c \<in> cells css"
  shows "\<exists>nx. mem h (cnode c) = Some (NodeObj (cpair c) nx)"
proof -
  from assms(2) obtain i where i: "i < HASHSIZE" "c \<in> set (css i)" by (auto simp: cells_def)
  then obtain us vs where "css i = us @ c # vs" by (meson split_list)
  with rep_D(3) [OF assms(1) i(1)] show ?thesis by (auto simp: lls_append)
qed

text \<open>Frame: a heap that agrees on the objects of the table represents the same cells.\<close>

lemma rep_frame:
  assumes r: "rep n h t css" and ok: "heap_ok h'"
    and fr: "\<And>c a. c \<in> cells css \<Longrightarrow> a \<in> {cnode c, cpair c, ckaddr c, cvaddr c} \<Longrightarrow>
      mem h' a = mem h a"
  shows "rep n h' t css"
proof -
  have "ll h' (t ! i) (map node_of (css i))" if i: "i < HASHSIZE" for i
    by (rule lls_frame [OF rep_D(3) [OF r i]]) (use fr cells_I [OF i] in force)
  moreover have "cell_ok h' c" if "c \<in> cells css" for c
    using rep_D(6) [OF r that] fr [OF that] by (simp add: cell_ok_def)
  ultimately show ?thesis using r ok by (auto simp: rep_def)
qed

lemma findPair_cells:
  assumes "ll h p (map node_of cs)" "\<forall>c\<in>set cs. cell_ok h c \<and> length (ckey c) = n"
    and "mem h key = Some (KeyObj k)" "length k = n"
  shows "findPair h p key n i =
    Some (if k \<in> ckey ` set cs then
            let j = length (takeWhile (\<lambda>c. ckey c \<noteq> k) cs) in Some (i + int j, cpair (cs ! j))
          else None)"
  using assms(1,2)
proof (induction cs arbitrary: p i)
  case Nil
  then show ?case by (subst findPair.simps) simp
next
  case (Cons c cs)
  then obtain nx where p: "p = cnode c" "p \<noteq> NULL" "mem h p = Some (NodeObj (cpair c) nx)"
    and l: "ll h nx (map node_of cs)" by auto
  have c: "mem h (cpair c) = Some (PairObj (ckaddr c) (cvaddr c))"
    "mem h (ckaddr c) = Some (KeyObj (ckey c))" "length (ckey c) = n"
    using Cons.prems(2) by (auto simp: cell_ok_def)
  have "memcmp_eq (ckey c) k n = Some (ckey c = k)"
    using c(3) assms(4) by (rule memcmp_eq_full)
  then have "findPair h p key n i =
      (if ckey c = k then Some (Some (i, cpair c)) else findPair h nx key n (i + 1))"
    using p c(1,2) assms(3)
    by (subst findPair.simps) (simp add: heap_simps del: bind_Some_iff)
  with Cons.IH [OF l, of "i + 1"] Cons.prems(2) show ?case
    by (auto simp: Let_def image_iff)
qed

lemma find_takeWhile:
  "find (\<lambda>c. f c = k) cs =
    (if k \<in> f ` set cs then Some (cs ! length (takeWhile (\<lambda>c. f c \<noteq> k) cs)) else None)"
  by (induction cs) (auto simp: image_iff)

lemma findPair_rep:
  assumes r: "rep n h t css" and k: "mem h key = Some (KeyObj k)" "length k = n"
  shows "findPair h (t ! hash_bytes k) key n 0 =
    Some (map_option (\<lambda>c. (int (length (takeWhile (\<lambda>c. ckey c \<noteq> k) (css (hash_bytes k)))), cpair c))
      (lookup_cell css k))"
proof -
  let ?cs = "css (hash_bytes k)"
  have "\<forall>c\<in>set ?cs. cell_ok h c \<and> length (ckey c) = n"
    using rep_D(6,7) [OF r] cells_I [OF hash_bytes_less] by blast
  from findPair_cells [OF rep_D(3) [OF r hash_bytes_less] this k, of 0] show ?thesis
    by (simp add: lookup_cell_def find_takeWhile [of ckey] Let_def)
qed

lemma lookup_cell_in: "lookup_cell css k = Some c \<Longrightarrow> c \<in> set (css (hash_bytes k)) \<and> ckey c = k"
  by (auto simp: lookup_cell_def find_Some_iff)

subsection \<open>Correctness of the operations\<close>

lemma getValue_rep:
  assumes r: "rep n h t css" and k: "mem h key = Some (KeyObj k)" "length k = n" "key \<noteq> NULL"
  shows "getValueFromHashTable h t key n =
    Some (case lookup_cell css k of None \<Rightarrow> NULL | Some c \<Rightarrow> cvaddr c)"
proof (cases "lookup_cell css k")
  case None
  then show ?thesis using findPair_rep [OF r k(1,2)] k
    by (simp add: getValueFromHashTable_def hash_live getCollisionList_def)
next
  case (Some c)
  then have "cell_ok h c"
    using lookup_cell_in [OF Some] rep_D(6) [OF r] cells_I [OF hash_bytes_less] by blast
  then show ?thesis using findPair_rep [OF r k(1,2)] k Some
    by (simp add: getValueFromHashTable_def hash_live getCollisionList_def cell_ok_def
        load_pair_live)
qed

lemma cells_upd: "i < HASHSIZE \<Longrightarrow>
  cells (css(i := cs)) = set cs \<union> (\<Union>j\<in>{..<HASHSIZE} - {i}. set (css j))"
  by (auto simp: cells_def split: if_splits)

lemma cells_snoc: "i < HASHSIZE \<Longrightarrow> cells (css(i := css i @ [c])) = insert c (cells css)"
  by (auto simp: cells_def split: if_splits)

text \<open>The object kinds keep the addresses of nodes, pairs, keys and values apart.\<close>

lemma node_addr_not_cell:
  assumes r: "rep n h t css" and i: "i < HASHSIZE" and c: "c \<in> cells css"
    and a: "a \<in> {cpair c, ckaddr c, cvaddr c}"
  shows "a \<notin> addrs (map node_of (css i))"
proof
  assume "a \<in> addrs (map node_of (css i))"
  from lls_live [OF rep_D(3) [OF r i] this] rep_D(6) [OF r c] a show False
    by (auto simp: cell_ok_def)
qed

lemma node_addr_other_bucket:
  assumes r: "rep n h t css" and i: "i < HASHSIZE" "j < HASHSIZE" "i \<noteq> j" and c: "c \<in> set (css j)"
  shows "cnode c \<notin> addrs (map node_of (css i))"
proof
  assume "cnode c \<in> addrs (map node_of (css i))"
  then obtain d where d: "d \<in> set (css i)" "cnode d = cnode c" by auto
  have "d \<in> cells css" "c \<in> cells css" using d(1) c i by (auto intro: cells_I)
  with inj_onD [OF rep_D(8) [OF r] d(2)] have "d = c" by blast
  with rep_D(5) [OF r i(1) d(1)] rep_D(5) [OF r i(2) c] i(3) show False by simp
qed

lemma rep_live_less:
  assumes r: "rep n h t css" and c: "c \<in> cells css"
    and a: "a \<in> {cnode c, cpair c, ckaddr c, cvaddr c}"
  shows "0 < a \<and> a < brk h"
  using a heap_ok_live [OF rep_D(1) [OF r]] rep_D(6) [OF r c] cells_node_live [OF r c]
  by (auto simp: cell_ok_def)

lemma rep_snoc:
  assumes r: "rep n h t css" and hv: "hv = hash_bytes (ckey c)"
    and c: "cell_ok h c" "length (ckey c) = n" "lookup_cell css (ckey c) = None"
    and fresh: "cpair c \<notin> cpair ` cells css" "ckaddr c \<notin> ckaddr ` cells css"
      "cvaddr c \<notin> cvaddr ` cells css" and na: "cnode c = brk h"
    and ok: "heap_ok h'" and l: "ll h' p (map node_of (css hv) @ [node_of c])"
    and fr: "\<forall>a. a \<notin> addrs (map node_of (css hv)) \<and> a \<noteq> brk h \<longrightarrow> mem h' a = mem h a"
  shows "rep n h' (t[hv := p]) (css(hv := css hv @ [c]))"
proof -
  have hv': "hv < HASHSIZE" by (simp add: hv)
  have cell': "cell_ok h' d" if "cell_ok h d" for d
  proof -
    have "a \<notin> addrs (map node_of (css hv)) \<and> a \<noteq> brk h" if "a \<in> {cpair d, ckaddr d, cvaddr d}" for a
      using that \<open>cell_ok h d\<close> lls_live [OF rep_D(3) [OF r hv']] heap_ok_live [OF rep_D(1) [OF r]]
      by (auto simp: cell_ok_def) fastforce+
    with that fr show ?thesis by (simp add: cell_ok_def)
  qed
  have other: "ll h' (t ! i) (map node_of (css i))" if "i < HASHSIZE" "i \<noteq> hv" for i
  proof (rule lls_frame [OF rep_D(3) [OF r that(1)]])
    fix a assume "a \<in> addrs (map node_of (css i))"
    then obtain d where d: "d \<in> set (css i)" "a = cnode d" by auto
    have "d \<in> cells css" using d(1) that(1) by (rule cells_I [rotated])
    with node_addr_other_bucket [OF r hv' that(1) that(2)[symmetric] d(1)]
      rep_live_less [OF r, of d a] fr d(2)
    show "mem h' a = mem h a" by simp
  qed
  have "cnode c \<notin> cnode ` cells css" using rep_live_less [OF r] na by fastforce
  moreover have "ckey c \<notin> ckey ` set (css hv)"
    using c(3) by (auto simp: lookup_cell_def find_takeWhile [of ckey] hv split: if_splits)
  moreover have "\<forall>d\<in>insert c (cells css). cell_ok h' d \<and> length (ckey d) = n"
    using cell' c rep_D(6,7) [OF r] by blast
  moreover have "\<forall>i<HASHSIZE. ll h' (t[hv := p] ! i) (map node_of ((css(hv := css hv @ [c])) i))"
    using l other rep_D(2) [OF r] hv' by (auto simp: nth_list_update)
  ultimately show ?thesis
    unfolding rep_def cells_snoc [OF hv'] using ok rep_D [OF r] fresh hv
    by (auto simp: inj_on_insert)
qed

text \<open>Adding a key that is not bound binds it, for good and without touching the rest.\<close>

lemma addToHashTable_fresh:
  assumes r: "rep n h t css"
    and k: "mem h key = Some (KeyObj k)" "length k = n" "key \<notin> ckaddr ` cells css"
    and v: "mem h value = Some (ValObj v)" "value \<notin> cvaddr ` cells css"
    and new: "lookup_cell css k = None"
  shows "\<exists>t' h' c. addToHashTable h t key n value = Some (t', h')
    \<and> ckey c = k \<and> cval c = v \<and> cvaddr c = value \<and> ckaddr c = key
    \<and> rep n h' t' (css(hash_bytes k := css (hash_bytes k) @ [c]))
    \<and> brk h \<le> brk h' \<and> (\<forall>a<brk h. a \<notin> cnode ` cells css \<longrightarrow> mem h' a = mem h a)"
proof -
  let ?hv = "hash_bytes k" and ?pa = "brk h"
  define h1 where "h1 = snd (newPair h key value)"
  have np: "newPair h key value = (?pa, h1)" by (simp add: h1_def newPair_def alloc_def)
  have h1: "mem h1 = (mem h)(?pa \<mapsto> PairObj key value)" "brk h1 = Suc ?pa"
    by (simp_all add: h1_def newPair_def alloc_def)
  have ok1: "heap_ok h1" using rep_D(1) [OF r] by (simp add: h1_def newPair_def heap_simps)
  have r1: "rep n h1 t css"
    by (rule rep_frame [OF r ok1]) (use rep_live_less [OF r] h1 in fastforce)
  have klt: "0 < key" "key < ?pa" "value < ?pa"
    using heap_ok_live [OF rep_D(1) [OF r]] k(1) v(1) by blast+
  let ?c = "\<lparr>cnode = brk h1, cpair = ?pa, ckaddr = key, cvaddr = value, ckey = k, cval = v\<rparr>"
  from appendLL_ll [OF rep_D(3) [OF r1 hash_bytes_less] ok1, of k ?pa] obtain p' h2 where
    ap: "appendLL h1 (t ! ?hv) ?pa = Some (p', h2)"
    and l: "ll h2 p' (map node_of (css ?hv) @ [node_of ?c])"
    and ok2: "heap_ok h2" "brk h2 = Suc (brk h1)"
    and fr: "\<forall>a. a \<notin> addrs (map node_of (css ?hv)) \<and> a \<noteq> brk h1 \<longrightarrow> mem h2 a = mem h1 a"
    by auto
  have "findPair h1 (t ! ?hv) key n 0 = Some None"
    using findPair_rep [OF r1 _ k(2), of key] k(1) klt h1 new by simp
  moreover have "newNode h1 ?pa = (p', h2)" if "t ! ?hv = NULL"
    using ap that by (subst (asm) appendLL.simps) simp
  ultimately have add: "addToHashTable h t key n value = Some (t[?hv := p'], h2)"
    using ap klt k by (simp add: addToHashTable_def hash_live np getCollisionList_def Let_def
        split: prod.splits)
  have "rep n h2 (t[?hv := p']) (css(?hv := css ?hv @ [?c]))"
  proof (rule rep_snoc [OF r1 _ _ _ _ _ _ _ _ ok2(1) l fr])
    show "cell_ok h1 ?c" using h1 k(1) v(1) klt by (simp add: cell_ok_def)
    show "cpair ?c \<notin> cpair ` cells css" using rep_live_less [OF r] by fastforce
  qed (use k v new in auto)
  moreover have "mem h2 a = mem h a" if "a < brk h" "a \<notin> cnode ` cells css" for a
  proof -
    have "a \<notin> addrs (map node_of (css ?hv))"
      using that(2) cells_I [OF hash_bytes_less] by fastforce
    with fr that(1) h1 show ?thesis by simp
  qed
  ultimately show ?thesis
    using add h1 ok2 by (intro exI [of _ "t[?hv := p']"] exI [of _ h2] exI [of _ ?c]) auto
qed

subsection \<open>Removal\<close>

lemma destroyPair_cell:
  assumes ok: "heap_ok h" and c: "cell_ok h c"
  shows "destroyPair h (cpair c)
    = Some (h\<lparr>mem := (mem h)(ckaddr c := None, cvaddr c := None, cpair c := None)\<rparr>)"
proof -
  have m: "mem h (cpair c) = Some (PairObj (ckaddr c) (cvaddr c))"
    "mem h (ckaddr c) = Some (KeyObj (ckey c))" "mem h (cvaddr c) = Some (ValObj (cval c))"
    using c by (simp_all add: cell_ok_def)
  then have "0 < cpair c" "0 < ckaddr c" "0 < cvaddr c"
    "ckaddr c \<noteq> cvaddr c" "cpair c \<noteq> ckaddr c" "cpair c \<noteq> cvaddr c"
    using heap_ok_live [OF ok] by auto
  with m show ?thesis
    by (simp add: destroyPair_def heap_simps)
qed

lemma first_index_remove:
  assumes "distinct (map f cs)" "j = length (takeWhile (\<lambda>c. f c \<noteq> k) cs)" "j < length cs"
  shows "take j cs @ drop (Suc j) cs = filter (\<lambda>c. f c \<noteq> k) cs"
proof -
  have cs: "cs = take j cs @ cs ! j # drop (Suc j) cs" using id_take_nth_drop [OF assms(3)] .
  have k: "f (cs ! j) = k" using nth_length_takeWhile assms(2,3) by blast
  have "distinct (map f (take j cs @ cs ! j # drop (Suc j) cs))" using assms(1) cs by simp
  then have "\<forall>c\<in>set (take j cs) \<union> set (drop (Suc j) cs). f c \<noteq> k"
    using k by (force simp: image_iff)
  then have "filter (\<lambda>c. f c \<noteq> k) (take j cs @ cs ! j # drop (Suc j) cs)
      = take j cs @ drop (Suc j) cs"
    using k by simp
  with cs show ?thesis by simp
qed

definition remove_key :: "(nat \<Rightarrow> 'v cell list) \<Rightarrow> byte list \<Rightarrow> (nat \<Rightarrow> 'v cell list)" where
  "remove_key css k = css(hash_bytes k := filter (\<lambda>c. ckey c \<noteq> k) (css (hash_bytes k)))"

lemma cells_remove_key:
  assumes r: "rep n h t css" and c: "lookup_cell css k = Some c"
  shows "cells (remove_key css k) = cells css - {c}"
proof -
  let ?hv = "hash_bytes k"
  have c': "c \<in> set (css ?hv)" "ckey c = k" using lookup_cell_in [OF c] by auto
  have eq: "d = c" if "d \<in> set (css ?hv)" "ckey d = k" for d
  proof -
    have "inj_on ckey (set (css ?hv))"
      using rep_D(4) [OF r hash_bytes_less, of k] by (simp add: distinct_map)
    then show ?thesis by (rule inj_onD) (use that c' in simp_all)
  qed
  have "d \<in> set (remove_key css k i) \<longleftrightarrow> d \<in> set (css i) \<and> d \<noteq> c" if i: "i < HASHSIZE" for d i
  proof (cases "i = ?hv")
    case True
    have "d \<noteq> c \<longleftrightarrow> ckey d \<noteq> k" if "d \<in> set (css ?hv)"
      using eq [OF that] c'(2) by blast
    then show ?thesis unfolding True remove_key_def by (simp cong: conj_cong)
  next
    case False
    moreover have "c \<notin> set (css i)" using rep_D(5) [OF r i, of c] c' False by auto
    ultimately show ?thesis by (auto simp: remove_key_def)
  qed
  then show ?thesis by (auto simp: cells_def)
qed

lemma rep_remove:
  assumes r: "rep n h t css" and c: "lookup_cell css k = Some c" and ok: "heap_ok h'"
    and l: "ll h' p (map node_of (remove_key css k (hash_bytes k)))"
    and fr: "\<forall>a. a \<notin> addrs (map node_of (css (hash_bytes k)))
      \<and> a \<notin> {ckaddr c, cvaddr c, cpair c} \<longrightarrow> mem h' a = mem h a"
  shows "rep n h' (t[hash_bytes k := p]) (remove_key css k)"
proof -
  let ?hv = "hash_bytes k"
  have c': "c \<in> cells css" using lookup_cell_in [OF c] cells_I [OF hash_bytes_less] by blast
  have sub: "cells (remove_key css k) = cells css - {c}" by (rule cells_remove_key [OF r c])
  have apart: "a \<notin> {ckaddr c, cvaddr c, cpair c}"
    if "d \<in> cells css" "d \<noteq> c" "a \<in> {cnode d, cpair d, ckaddr d, cvaddr d}" for a d
  proof -
    have "cpair d \<noteq> cpair c" "ckaddr d \<noteq> ckaddr c" "cvaddr d \<noteq> cvaddr c"
      using that(1,2) c' rep_D(9-11) [OF r] by (auto dest: inj_onD)
    with that(3) rep_D(6) [OF r c'] rep_D(6) [OF r that(1)] cells_node_live [OF r that(1)]
    show ?thesis by (auto simp: cell_ok_def)
  qed
  have cell': "cell_ok h' d" if "d \<in> cells css" "d \<noteq> c" for d
    using rep_D(6) [OF r that(1)] apart [OF that] node_addr_not_cell [OF r hash_bytes_less that(1)] fr
    by (simp add: cell_ok_def)
  have other: "ll h' (t ! i) (map node_of (css i))" if i: "i < HASHSIZE" "i \<noteq> ?hv" for i
  proof (rule lls_frame [OF rep_D(3) [OF r i(1)]])
    fix a assume "a \<in> addrs (map node_of (css i))"
    then obtain d where d: "d \<in> set (css i)" "a = cnode d" by auto
    have dc: "d \<in> cells css" using d(1) i(1) by (rule cells_I [rotated])
    have "d \<noteq> c"
      using lookup_cell_in [OF c] rep_D(5) [OF r i(1) d(1)] i(2) by auto
    with node_addr_other_bucket [OF r hash_bytes_less i(1) i(2)[symmetric] d(1)]
      apart [OF dc, of a] fr d(2)
    show "mem h' a = mem h a" by simp
  qed
  have "\<forall>i<HASHSIZE. ll h' (t[?hv := p] ! i) (map node_of (remove_key css k i))"
    using l other rep_D(2) [OF r] by (auto simp: nth_list_update remove_key_def)
  moreover have "\<forall>i<HASHSIZE. distinct (map ckey (remove_key css k i))
      \<and> (\<forall>d\<in>set (remove_key css k i). hash_bytes (ckey d) = i)"
    using rep_D(4,5) [OF r] by (auto simp: remove_key_def distinct_map_filter)
  ultimately show ?thesis
    unfolding rep_def sub using ok rep_D [OF r] cell'
    by (auto intro: inj_on_subset [OF _ Diff_subset])
qed

text \<open>Destroying the pair of a cell and taking its node out of the list frees the four objects of the
  cell and leaves the rest of the heap.\<close>

lemma remove_cell:
  assumes r: "rep n h t css" and Some: "lookup_cell css k = Some c"
    and j_def: "j = length (takeWhile (\<lambda>c. ckey c \<noteq> k) (css (hash_bytes k)))"
  shows "\<exists>h1 q h2. destroyPair h (cpair c) = Some h1
    \<and> popLL h1 (t ! hash_bytes k) (int j) = Some (0, q, Some (cpair c), h2)
    \<and> rep n h2 (t[hash_bytes k := q]) (remove_key css k) \<and> brk h2 = brk h \<and> mem h2 (cnode c) = None
    \<and> (\<forall>a\<in>{cpair c, ckaddr c, cvaddr c}. mem h2 a = None)
    \<and> (\<forall>a. a \<notin> addrs (map node_of (css (hash_bytes k))) \<and> a \<notin> {ckaddr c, cvaddr c, cpair c} \<longrightarrow> mem h2 a = mem h a)"
proof -
  let ?hv = "hash_bytes k"
  let ?cs = "css ?hv"
  have c: "c \<in> set ?cs" "ckey c = k" using lookup_cell_in [OF Some] by auto
  have cc: "c \<in> cells css" using c(1) by (rule cells_I [OF hash_bytes_less])
  have j: "j < length ?cs" "?cs ! j = c"
    using c Some by (auto simp: j_def lookup_cell_def find_takeWhile [of ckey] takeWhile_stops)
  define h1 where
    "h1 = h\<lparr>mem := (mem h)(ckaddr c := None, cvaddr c := None, cpair c := None)\<rparr>"
  have dp: "destroyPair h (cpair c) = Some h1"
    unfolding h1_def by (rule destroyPair_cell [OF rep_D(1) [OF r] rep_D(6) [OF r cc]])
  have ok1: "heap_ok h1" using rep_D(1) [OF r] by (simp add: h1_def heap_ok_def)
  have l1: "ll h1 (t ! ?hv) (map node_of ?cs)"
    by (rule lls_frame [OF rep_D(3) [OF r hash_bytes_less]])
      (use node_addr_not_cell [OF r hash_bytes_less cc, of _ k] in \<open>auto simp: h1_def\<close>)
  from popLL_ll [OF l1 _ ok1, of j] j obtain q h2 where
    pop: "popLL h1 (t ! ?hv) (int j) = Some (0, q, Some (cpair c), h2)"
    and l2: "ll h2 q (take j (map node_of ?cs) @ drop (Suc j) (map node_of ?cs))"
    and ok2: "heap_ok h2" "brk h2 = brk h1" and gone: "mem h2 (cnode c) = None"
    and fr2: "\<forall>a. a \<notin> addrs (map node_of ?cs) \<longrightarrow> mem h2 a = mem h1 a"
    by auto
  have rm: "remove_key css k ?hv = take j ?cs @ drop (Suc j) ?cs"
    using first_index_remove [OF rep_D(4) [OF r hash_bytes_less] j_def j(1)]
    by (simp add: remove_key_def)
  have "rep n h2 (t[?hv := q]) (remove_key css k)"
  proof (rule rep_remove [OF r Some ok2(1)])
    show "ll h2 q (map node_of (remove_key css k ?hv))"
      using l2 by (simp add: rm take_map drop_map)
    show "\<forall>a. a \<notin> addrs (map node_of ?cs) \<and> a \<notin> {ckaddr c, cvaddr c, cpair c} \<longrightarrow> mem h2 a = mem h a"
      using fr2 by (simp add: h1_def)
  qed
  moreover have "mem h2 a = None" if "a \<in> {cpair c, ckaddr c, cvaddr c}" for a
    using node_addr_not_cell [OF r hash_bytes_less cc that] fr2 that by (auto simp: h1_def)
  ultimately show ?thesis using dp pop gone ok2(2) fr2 by (auto simp: h1_def)
qed

lemma removeFromHashTable_rep:
  assumes r: "rep n h t css"
    and k: "mem h key = Some (KeyObj k)" "length k = n" "key \<notin> ckaddr ` cells css"
  shows "\<exists>t' h'. removeFromHashTable h t key n = Some (t', h')
    \<and> rep n h' t' (remove_key css k) \<and> brk h' = brk h
    \<and> (\<forall>a. (\<forall>c\<in>cells css. a \<notin> {cnode c, cpair c, ckaddr c, cvaddr c}) \<longrightarrow> mem h' a = mem h a)
    \<and> (\<forall>c. lookup_cell css k = Some c \<longrightarrow>
         mem h' (cnode c) = None \<and> mem h' (cpair c) = None \<and> mem h' (ckaddr c) = None
         \<and> mem h' (cvaddr c) = None)"
proof (cases "lookup_cell css k")
  case None
  have "removeFromHashTable h t key n = Some (t, h)"
    using findPair_rep [OF r k(1,2)] None hash_live [OF k(1,2)]
    by (simp add: removeFromHashTable_def getCollisionList_def)
  moreover have "remove_key css k = css"
    using None by (auto simp: remove_key_def lookup_cell_def find_None_iff intro!: ext filter_True)
  ultimately show ?thesis using r None by auto
next
  case (Some c)
  define j where "j = length (takeWhile (\<lambda>c. ckey c \<noteq> k) (css (hash_bytes k)))"
  from remove_cell [OF r Some j_def] obtain h1 q h2 where
    dp: "destroyPair h (cpair c) = Some h1"
    and pop: "popLL h1 (t ! hash_bytes k) (int j) = Some (0, q, Some (cpair c), h2)"
    and rest: "rep n h2 (t[hash_bytes k := q]) (remove_key css k)" "brk h2 = brk h" "mem h2 (cnode c) = None"
      "\<forall>a\<in>{cpair c, ckaddr c, cvaddr c}. mem h2 a = None"
    and fr: "\<forall>a. a \<notin> addrs (map node_of (css (hash_bytes k))) \<and> a \<notin> {ckaddr c, cvaddr c, cpair c} \<longrightarrow> mem h2 a = mem h a"
    by blast
  have cc: "c \<in> cells css" using lookup_cell_in [OF Some] cells_I [OF hash_bytes_less] by blast
  have "removeFromHashTable h t key n = Some (t[hash_bytes k := q], h2)"
    using findPair_rep [OF r k(1,2)] Some hash_live [OF k(1,2)] dp pop k(1) heap_ok_live [OF rep_D(1) [OF r]]
    by (auto simp: removeFromHashTable_def getCollisionList_def j_def)
  moreover have "mem h2 a = mem h a"
    if "\<forall>c\<in>cells css. a \<notin> {cnode c, cpair c, ckaddr c, cvaddr c}" for a
  proof -
    have "a \<notin> addrs (map node_of (css (hash_bytes k)))" "a \<notin> {ckaddr c, cvaddr c, cpair c}"
      using that cc cells_I [OF hash_bytes_less] by fastforce+
    with fr show ?thesis by simp
  qed
  ultimately show ?thesis using Some rest by auto
qed

text \<open>The map the cells form, after each operation.\<close>

lemma ht_map_snoc:
  assumes "lookup_cell css k = None" "ckey c = k"
  shows "ht_map (css(hash_bytes k := css (hash_bytes k) @ [c])) = (ht_map css)(k \<mapsto> cval c)"
proof
  fix x
  have ap: "find P (xs @ [c]) = (case find P xs of None \<Rightarrow> if P c then Some c else None | Some d \<Rightarrow> Some d)"
    for P xs by (induction xs) auto
  show "ht_map (css(hash_bytes k := css (hash_bytes k) @ [c])) x = ((ht_map css)(k \<mapsto> cval c)) x"
    using assms by (auto simp: ht_map_def lookup_cell_def ap split: option.splits)
qed

lemma ht_map_remove: "ht_map (remove_key css k) = (ht_map css)(k := None)"
proof
  fix x
  have fl: "find (\<lambda>c. ckey c = y) (filter (\<lambda>c. ckey c \<noteq> k) cs)
      = (if y = k then None else find (\<lambda>c. ckey c = y) cs)" for cs y
    by (induction cs) auto
  show "ht_map (remove_key css k) x = ((ht_map css)(k := None)) x"
    by (auto simp: ht_map_def lookup_cell_def remove_key_def fl)
qed

lemma rep_new: "rep n empty_heap newHashTable (\<lambda>_. [])"
  by (auto simp: rep_def newHashTable_def cells_def)

subsection \<open>Adding a bound key\<close>

text \<open>\<open>destroyPair (pair)\<close> frees the key and the value the new pair holds, and the old pair is
  then given that value: the table is left with a dangling value pointer.\<close>

lemma addToHashTable_bound:
  assumes r: "rep n h t css"
    and k: "mem h key = Some (KeyObj k)" "length k = n" "key \<notin> ckaddr ` cells css"
    and v: "mem h value = Some (ValObj v)" "value \<notin> cvaddr ` cells css"
    and old: "lookup_cell css k = Some c"
  shows "\<exists>h'. addToHashTable h t key n value = Some (t, h')
    \<and> mem h' (cpair c) = Some (PairObj (ckaddr c) value) \<and> mem h' value = None
    \<and> mem h' key = None"
proof -
  let ?hv = "hash_bytes k" and ?pa = "brk h"
  define h1 where "h1 = snd (newPair h key value)"
  have np: "newPair h key value = (?pa, h1)" by (simp add: h1_def newPair_def alloc_def)
  have h1: "mem h1 = (mem h)(?pa \<mapsto> PairObj key value)" "brk h1 = Suc ?pa"
    by (simp_all add: h1_def newPair_def alloc_def)
  have ok1: "heap_ok h1" using rep_D(1) [OF r] by (simp add: h1_def newPair_def heap_simps)
  have r1: "rep n h1 t css"
    by (rule rep_frame [OF r ok1]) (use rep_live_less [OF r] h1 in fastforce)
  have klt: "0 < key" "key < ?pa" "0 < value" "value < ?pa" "0 < ?pa" "key \<noteq> value"
    using heap_ok_live [OF rep_D(1) [OF r]] k(1) v(1) by fastforce+
  have cc: "c \<in> cells css" using lookup_cell_in [OF old] cells_I [OF hash_bytes_less] by blast
  have cp1: "mem h (cpair c) = Some (PairObj (ckaddr c) (cvaddr c))" "cpair c < ?pa"
    using rep_D(6) [OF r cc] rep_live_less [OF r cc, of "cpair c"] by (simp_all add: cell_ok_def)
  then have "cpair c \<noteq> key" "cpair c \<noteq> value" using k(1) v(1) by auto
  note cp = cp1 this
  have "destroyPair h1 ?pa = Some (h1\<lparr>mem := (mem h1)(key := None, value := None, ?pa := None)\<rparr>)"
    using destroyPair_cell [OF ok1, of "\<lparr>cnode = NULL, cpair = ?pa, ckaddr = key,
        cvaddr = value, ckey = k, cval = v\<rparr>"] h1 klt k(1) v(1) by (simp add: cell_ok_def)
  moreover have "t ! ?hv \<noteq> NULL"
  proof
    assume "t ! ?hv = NULL"
    with rep_D(3) [OF r1 hash_bytes_less, of k] lookup_cell_in [OF old] show False by simp
  qed
  moreover obtain i where "findPair h1 (t ! ?hv) key n 0 = Some (Some (i, cpair c))"
    using findPair_rep [OF r1 _ k(2), of key] k(1) klt h1 old by auto
  moreover define h2 where "h2 = h1\<lparr>mem := (mem h1)(key := None, value := None, ?pa := None)\<rparr>"
  moreover have "mem h2 (cpair c) = Some (PairObj (ckaddr c) (cvaddr c))"
    using cp h1 by (simp add: h2_def)
  then have "store_pair_value h2 (cpair c) value
      = Some (h2\<lparr>mem := (mem h2)(cpair c \<mapsto> PairObj (ckaddr c) value)\<rparr>)"
    by (simp add: store_pair_value_def load_pair_live)
  ultimately have "addToHashTable h t key n value
      = Some (t, h2\<lparr>mem := (mem h2)(cpair c \<mapsto> PairObj (ckaddr c) value)\<rparr>)"
    using klt(1) hash_live [OF k(1,2)]
    by (simp add: addToHashTable_def np getCollisionList_def Let_def)
  moreover have "mem h2 value = None" "mem h2 key = None" by (simp_all add: h2_def)
  ultimately show ?thesis using cp(3,4) by auto
qed

lemma rep_empty: "heap_ok h \<Longrightarrow> rep n h newHashTable (\<lambda>_. [])"
  by (auto simp: rep_def newHashTable_def cells_def)

text \<open>Fresh key and value objects beside a table.\<close>

lemma rep_fresh_objects:
  assumes r: "rep n h t css"
  shows "\<exists>h' key value. rep n h' t css \<and> mem h' key = Some (KeyObj k) \<and> mem h' value = Some (ValObj v)
    \<and> key \<notin> ckaddr ` cells css \<and> value \<notin> cvaddr ` cells css"
proof -
  define h1 where "h1 = snd (alloc h (KeyObj k))"
  define h2 where "h2 = snd (alloc h1 (ValObj v))"
  have h2: "mem h2 = (mem h)(brk h \<mapsto> KeyObj k, Suc (brk h) \<mapsto> ValObj v)"
    by (simp add: h1_def h2_def alloc_def)
  have ok: "heap_ok h2" using rep_D(1) [OF r] by (simp add: h1_def h2_def heap_simps)
  have "rep n h2 t css"
    by (rule rep_frame [OF r ok]) (use rep_live_less [OF r] h2 in fastforce)
  moreover have "brk h \<notin> ckaddr ` cells css" "Suc (brk h) \<notin> cvaddr ` cells css"
    using rep_live_less [OF r] by fastforce+
  ultimately show ?thesis using h2 by (intro exI [of _ h2] exI [of _ "brk h"] exI [of _ "Suc (brk h)"]) simp
qed

lemma bound_key_example:
  "\<exists>(h :: nat heap) t css key value c. rep 1 h t css \<and> mem h key = Some (KeyObj [7]) \<and> mem h value = Some (ValObj 1)
    \<and> key \<notin> ckaddr ` cells css \<and> value \<notin> cvaddr ` cells css \<and> lookup_cell css [7] = Some c"
proof -
  have "rep 1 (empty_heap :: nat heap) newHashTable (\<lambda>_. [])" by (rule rep_empty [OF heap_ok_empty])
  from rep_fresh_objects [OF this, of "[7]" 1] obtain h kp vp where
    h: "rep 1 (h :: nat heap) newHashTable (\<lambda>_. [])" "mem h kp = Some (KeyObj [7])" "mem h vp = Some (ValObj 1)"
    by blast
  have c0: "cells (\<lambda>_. [] :: nat cell list) = {}" by (simp add: cells_def)
  have "lookup_cell (\<lambda>_. [] :: nat cell list) [7] = None" by (simp add: lookup_cell_def)
  from addToHashTable_fresh [OF h(1,2) _ _ h(3) _ this] c0 obtain t' h' c where
    r: "rep 1 (h' :: nat heap) t' ((\<lambda>_. [])(hash_bytes [7] := [c]))" "ckey c = [7]" by auto
  have "lookup_cell ((\<lambda>_. [])(hash_bytes [7] := [c])) [7] = Some c" using r(2) by (simp add: lookup_cell_def)
  with rep_fresh_objects [OF r(1), of "[7]" 1] show ?thesis by blast
qed

end
