(* ===== verification/SortingTable.thy ===== *)
theory SortingTable
  imports HashTable
begin

text \<open>
  The sorting table of gbn/sortingTable.c: what the launcher must know of each message on
  its way, keyed by message identifier, kept in a hash table whose keys are the four bytes
  of the identifier. The locale \<open>message_table\<close> is the contract the GBN layer relies on;
  the interpretation proves that the code's table meets it.
\<close>

record sockaddr_in =
  sin_addr :: "32 word"
  sin_port :: port

record sortingEntry =
  sd :: int
  dest :: sockaddr_in
  addrlen :: nat
  errorHandler :: "nat option"

record sortingTable =
  st_heap :: "sortingEntry heap"
  st_table :: table

definition newSortingTable :: sortingTable where
  "newSortingTable = \<lparr>st_heap = empty_heap, st_table = newHashTable\<rparr>"

definition newSortingEntry :: "sortingTable \<Rightarrow> sortingEntry \<Rightarrow> addr \<times> sortingTable" where
  "newSortingEntry s e =
     (let (p, h) = alloc (st_heap s) (ValObj e) in (p, s\<lparr>st_heap := h\<rparr>))"

definition craftKeyFromMsgId :: "sortingEntry heap \<Rightarrow> int \<Rightarrow> nat \<times> addr \<times> sortingEntry heap" where
  "craftKeyFromMsgId h i = (4, alloc h (KeyObj (int_bytes i)))"

definition addToSortingTable :: "sortingTable \<Rightarrow> int \<Rightarrow> addr \<Rightarrow> sortingTable option" where
  "addToSortingTable s i entry = do {
     let (keySize, key, h) = craftKeyFromMsgId (st_heap s) i;
     (t', h') \<leftarrow> addToHashTable h (st_table s) key keySize entry;
     Some \<lparr>st_heap = h', st_table = t'\<rparr> }"

definition getFromSortingTable :: "sortingTable \<Rightarrow> int \<Rightarrow> (addr \<times> sortingTable) option" where
  "getFromSortingTable s i = do {
     let (keySize, key, h) = craftKeyFromMsgId (st_heap s) i;
     entry \<leftarrow> getValueFromHashTable h (st_table s) key keySize;
     h' \<leftarrow> free h key;
     Some (entry, s\<lparr>st_heap := h'\<rparr>) }"

definition removeFromSortingTable :: "sortingTable \<Rightarrow> int \<Rightarrow> sortingTable option" where
  "removeFromSortingTable s i = do {
     let (keySize, key, h) = craftKeyFromMsgId (st_heap s) i;
     (t', h') \<leftarrow> removeFromHashTable h (st_table s) key keySize;
     h'' \<leftarrow> free h' key;
     Some \<lparr>st_heap = h'', st_table = t'\<rparr> }"

text \<open>Registration of a message, as the sender does it, and a look-up followed by the
  dereference of the pointer it gives.\<close>

definition registerEntry :: "sortingTable \<Rightarrow> int \<Rightarrow> sortingEntry \<Rightarrow> sortingTable option" where
  "registerEntry s i e = (let (p, s') = newSortingEntry s e in addToSortingTable s' i p)"

definition readEntry :: "sortingTable \<Rightarrow> addr \<Rightarrow> sortingEntry option" where
  "readEntry s p = load_val (st_heap s) p"

definition findEntry :: "sortingTable \<Rightarrow> int \<Rightarrow> (sortingEntry option \<times> sortingTable) option" where
  "findEntry s i = do { (p, s') \<leftarrow> getFromSortingTable s i; Some (readEntry s' p, s') }"

subsection \<open>The contract\<close>

locale message_table =
  fixes empty :: 't
    and add :: "'t \<Rightarrow> int \<Rightarrow> 'e \<Rightarrow> 't option"
    and get :: "'t \<Rightarrow> int \<Rightarrow> ('e option \<times> 't) option"
    and remove :: "'t \<Rightarrow> int \<Rightarrow> 't option"
    and invar :: "'t \<Rightarrow> bool"
    and lookup :: "'t \<Rightarrow> int \<Rightarrow> 'e option"
  assumes invar_empty: "invar empty"
    and lookup_empty: "lookup empty k = None"
    and get_lookup: "invar t \<Longrightarrow> \<exists>t'. get t k = Some (lookup t k, t') \<and> invar t' \<and> lookup t' = lookup t"
    and add_fresh: "invar t \<Longrightarrow> c_int k \<Longrightarrow> lookup t k = None \<Longrightarrow>
      \<exists>t'. add t k e = Some t' \<and> invar t' \<and> (\<forall>j. c_int j \<longrightarrow> lookup t' j = ((lookup t)(k \<mapsto> e)) j)"
    and remove_key: "invar t \<Longrightarrow> c_int k \<Longrightarrow>
      \<exists>t'. remove t k = Some t' \<and> invar t' \<and> (\<forall>j. c_int j \<longrightarrow> lookup t' j = ((lookup t)(k := None)) j)"
begin

text \<open>A message that was registered is found until it is removed, whatever is looked up in
  between; removal does not disturb the other messages.\<close>

lemma register_get:
  assumes "invar t" "c_int k" "lookup t k = None" "add t k e = Some t1"
  shows "\<exists>t2. get t1 k = Some (Some e, t2) \<and> invar t2 \<and> lookup t2 = lookup t1"
proof -
  from add_fresh [OF assms(1-3), of e] assms(2,4) have "invar t1" "lookup t1 k = Some e" by auto
  with get_lookup [of t1 k] show ?thesis by auto
qed

lemma register_other:
  assumes "invar t" "c_int k" "lookup t k = None" "add t k e = Some t1" "c_int j" "j \<noteq> k"
  shows "lookup t1 j = lookup t j"
  using add_fresh [OF assms(1-3), of e] assms(4-6) by auto

lemma register_remove:
  assumes "invar t" "c_int k" "lookup t k = None" "add t k e = Some t1"
  shows "\<exists>t2. remove t1 k = Some t2 \<and> invar t2 \<and> (\<forall>j. c_int j \<longrightarrow> lookup t2 j = lookup t j)"
proof -
  from add_fresh [OF assms(1-3), of e] assms(4)
  have t1: "invar t1" "\<forall>j. c_int j \<longrightarrow> lookup t1 j = ((lookup t)(k \<mapsto> e)) j" by auto
  from remove_key [OF t1(1) assms(2)] t1(2) assms(3) show ?thesis by auto
qed

end

subsection \<open>The code's table meets the contract\<close>

definition sorting_inv :: "sortingTable \<Rightarrow> bool" where
  "sorting_inv s \<longleftrightarrow> (\<exists>css. rep 4 (st_heap s) (st_table s) css)"

definition sorting_lookup :: "sortingTable \<Rightarrow> int \<Rightarrow> sortingEntry option" where
  "sorting_lookup s i = (case findEntry s i of Some (e, s') \<Rightarrow> e | None \<Rightarrow> None)"

lemma craftKey_rep:
  assumes r: "rep 4 h t css" and k: "craftKeyFromMsgId h i = (n, key, h')"
  shows "n = 4" "key = brk h" "key \<noteq> NULL" "mem h' key = Some (KeyObj (int_bytes i))"
    "rep 4 h' t css" "key \<notin> ckaddr ` cells css" "brk h' = Suc (brk h)"
    "\<And>a. a \<noteq> key \<Longrightarrow> mem h' a = mem h a"
proof -
  have h': "h' = snd (alloc h (KeyObj (int_bytes i)))"
    and n: "n = 4" "key = brk h" using k by (auto simp: craftKeyFromMsgId_def alloc_def)
  show "n = 4" "key = brk h" "key \<noteq> NULL" "mem h' key = Some (KeyObj (int_bytes i))"
    "brk h' = Suc (brk h)" "\<And>a. a \<noteq> key \<Longrightarrow> mem h' a = mem h a"
    using n rep_D(1) [OF r] by (auto simp: h' alloc_def heap_ok_def)
  show "key \<notin> ckaddr ` cells css" using rep_live_less [OF r] n by fastforce
  show "rep 4 h' t css"
  proof (rule rep_frame [OF r])
    show "heap_ok h'" using rep_D(1) [OF r] by (simp add: h' heap_simps)
  qed (use rep_live_less [OF r] in \<open>fastforce simp: h' alloc_def\<close>)
qed

lemma getFromSortingTable_rep:
  assumes r: "rep 4 (st_heap s) (st_table s) css"
  shows "\<exists>s'. getFromSortingTable s i = Some (case lookup_cell css (int_bytes i) of
      None \<Rightarrow> NULL | Some c \<Rightarrow> cvaddr c, s')
    \<and> rep 4 (st_heap s') (st_table s') css"
proof -
  obtain n key h where ck: "craftKeyFromMsgId (st_heap s) i = (n, key, h)"
    by (metis prod_cases3)
  note k = craftKey_rep [OF r ck]
  have g: "getValueFromHashTable h (st_table s) key n = Some (case lookup_cell css (int_bytes i) of
      None \<Rightarrow> NULL | Some c \<Rightarrow> cvaddr c)"
    using getValue_rep [OF k(5) k(4) _ k(3)] k(1) by simp
  let ?h = "h\<lparr>mem := (mem h)(key := None)\<rparr>"
  have f: "free h key = Some ?h" using k(3,4) by (simp add: heap_simps)
  have "rep 4 ?h (st_table s) css"
  proof (rule rep_frame [OF k(5)])
    show "heap_ok ?h" using rep_D(1) [OF k(5)] by (simp add: heap_simps)
  qed (use rep_live_less [OF r] k(2) in fastforce)
  then show ?thesis using ck g f by (simp add: getFromSortingTable_def)
qed

lemma findEntry_rep:
  assumes r: "rep 4 (st_heap s) (st_table s) css"
  shows "\<exists>s'. findEntry s i = Some (ht_map css (int_bytes i), s')
    \<and> rep 4 (st_heap s') (st_table s') css"
proof -
  from getFromSortingTable_rep [OF r, of i] obtain s' where
    g: "getFromSortingTable s i = Some (case lookup_cell css (int_bytes i) of
      None \<Rightarrow> NULL | Some c \<Rightarrow> cvaddr c, s')" and r': "rep 4 (st_heap s') (st_table s') css"
    by blast
  have "readEntry s' (case lookup_cell css (int_bytes i) of None \<Rightarrow> NULL | Some c \<Rightarrow> cvaddr c)
      = ht_map css (int_bytes i)"
  proof (cases "lookup_cell css (int_bytes i)")
    case None
    then show ?thesis using rep_D(1) [OF r']
      by (simp add: readEntry_def load_val_def ht_map_def heap_ok_def)
  next
    case (Some c)
    then have "cell_ok (st_heap s') c"
      using lookup_cell_in [OF Some] rep_D(6) [OF r'] cells_I [OF hash_bytes_less] by blast
    then show ?thesis using Some by (simp add: readEntry_def ht_map_def cell_ok_def load_val_live)
  qed
  with g r' show ?thesis by (simp add: findEntry_def)
qed

lemma sorting_lookup_rep:
  "rep 4 (st_heap s) (st_table s) css \<Longrightarrow> sorting_lookup s i = ht_map css (int_bytes i)"
  using findEntry_rep [of s css i] by (auto simp: sorting_lookup_def)

lemma registerEntry_rep:
  assumes r: "rep 4 (st_heap s) (st_table s) css" and new: "lookup_cell css (int_bytes i) = None"
  shows "\<exists>s' css'. registerEntry s i e = Some s' \<and> rep 4 (st_heap s') (st_table s') css'
    \<and> ht_map css' = (ht_map css)(int_bytes i \<mapsto> e)"
proof -
  let ?h = "snd (alloc (st_heap s) (ValObj e))" and ?p = "brk (st_heap s)"
  have ok: "heap_ok ?h" using rep_D(1) [OF r] by (simp add: heap_simps)
  have r1: "rep 4 ?h (st_table s) css"
    by (rule rep_frame [OF r ok]) (use rep_live_less [OF r] in \<open>fastforce simp: alloc_def\<close>)
  obtain n key h where ck: "craftKeyFromMsgId ?h i = (n, key, h)" by (metis prod_cases3)
  note k = craftKey_rep [OF r1 ck]
  have v: "mem h ?p = Some (ValObj e)" using k(2,8) by (simp add: alloc_def)
  have p: "?p \<notin> cvaddr ` cells css" using rep_live_less [OF r] by fastforce
  from addToHashTable_fresh [OF k(5,4) _ k(6) v p new] k(1) obtain t' h' c where
    a: "addToHashTable h (st_table s) key n ?p = Some (t', h')"
    and c: "ckey c = int_bytes i" "cval c = e"
    and r': "rep 4 h' t' (css(hash_bytes (int_bytes i) := css (hash_bytes (int_bytes i)) @ [c]))"
    by auto
  have "registerEntry s i e = Some \<lparr>st_heap = h', st_table = t'\<rparr>"
    using a ck by (simp add: registerEntry_def newSortingEntry_def addToSortingTable_def alloc_def)
  with r' ht_map_snoc [OF new c(1)] c(2) show ?thesis by fastforce
qed

lemma removeFromSortingTable_rep:
  assumes r: "rep 4 (st_heap s) (st_table s) css"
  shows "\<exists>s'. removeFromSortingTable s i = Some s'
    \<and> rep 4 (st_heap s') (st_table s') (remove_key css (int_bytes i))"
proof -
  obtain n key h where ck: "craftKeyFromMsgId (st_heap s) i = (n, key, h)" by (metis prod_cases3)
  note k = craftKey_rep [OF r ck]
  have key: "\<forall>c\<in>cells css. key \<notin> {cnode c, cpair c, ckaddr c, cvaddr c}"
    using rep_live_less [OF r] k(2) by fastforce
  from removeFromHashTable_rep [OF k(5,4) _ k(6)] k(1) obtain t' h' where
    rm: "removeFromHashTable h (st_table s) key n = Some (t', h')"
    and r': "rep 4 h' t' (remove_key css (int_bytes i))" "brk h' = brk h"
    and fr: "mem h' key = mem h key" using key by auto
  let ?h = "h'\<lparr>mem := (mem h')(key := None)\<rparr>"
  have f: "free h' key = Some ?h" using k(3,4) fr by (simp add: heap_simps)
  have "cells (remove_key css (int_bytes i)) \<subseteq> cells css"
    by (auto simp: cells_def remove_key_def split: if_splits)
  then have "rep 4 ?h t' (remove_key css (int_bytes i))"
    using rep_D(1) [OF r'(1)] key by (intro rep_frame [OF r'(1)]) (fastforce simp: heap_simps)+
  then show ?thesis using ck rm f by (simp add: removeFromSortingTable_def)
qed

lemma lookup_cell_None_iff: "lookup_cell css k = None \<longleftrightarrow> ht_map css k = None"
  by (simp add: ht_map_def)

interpretation send_table: message_table newSortingTable registerEntry findEntry
  removeFromSortingTable sorting_inv sorting_lookup
proof unfold_locales
  show "sorting_inv newSortingTable"
    using rep_new by (auto simp: sorting_inv_def newSortingTable_def)
  show "sorting_lookup newSortingTable k = None" for k
    using sorting_lookup_rep [of newSortingTable "\<lambda>_. []"]
    by (simp add: newSortingTable_def ht_map_def lookup_cell_def rep_new)
next
  fix t k assume "sorting_inv t"
  then obtain css where r: "rep 4 (st_heap t) (st_table t) css" by (auto simp: sorting_inv_def)
  from findEntry_rep [OF r, of k] obtain t' where
    "findEntry t k = Some (ht_map css (int_bytes k), t')" "rep 4 (st_heap t') (st_table t') css" by blast
  then show "\<exists>t'. findEntry t k = Some (sorting_lookup t k, t') \<and> sorting_inv t'
      \<and> sorting_lookup t' = sorting_lookup t"
    using sorting_lookup_rep [OF r] sorting_lookup_rep [of t' css]
    by (auto simp: sorting_inv_def)
next
  fix t k e assume "sorting_inv t" and k: "c_int k" and new: "sorting_lookup t k = None"
  then obtain css where r: "rep 4 (st_heap t) (st_table t) css" by (auto simp: sorting_inv_def)
  have "lookup_cell css (int_bytes k) = None"
    using new sorting_lookup_rep [OF r] by (simp add: lookup_cell_None_iff)
  from registerEntry_rep [OF r this, of e] obtain t' css' where
    a: "registerEntry t k e = Some t'" "rep 4 (st_heap t') (st_table t') css'"
    "ht_map css' = (ht_map css)(int_bytes k \<mapsto> e)" by blast
  then show "\<exists>t'. registerEntry t k e = Some t' \<and> sorting_inv t'
      \<and> (\<forall>j. c_int j \<longrightarrow> sorting_lookup t' j = ((sorting_lookup t)(k \<mapsto> e)) j)"
    using sorting_lookup_rep [OF r] sorting_lookup_rep [OF a(2)] k
    by (auto simp: sorting_inv_def int_bytes_inj)
next
  fix t k assume "sorting_inv t" and k: "c_int k"
  then obtain css where r: "rep 4 (st_heap t) (st_table t) css" by (auto simp: sorting_inv_def)
  from removeFromSortingTable_rep [OF r, of k] obtain t' where
    a: "removeFromSortingTable t k = Some t'"
    "rep 4 (st_heap t') (st_table t') (remove_key css (int_bytes k))" by blast
  then show "\<exists>t'. removeFromSortingTable t k = Some t' \<and> sorting_inv t'
      \<and> (\<forall>j. c_int j \<longrightarrow> sorting_lookup t' j = ((sorting_lookup t)(k := None)) j)"
    using sorting_lookup_rep [OF r] sorting_lookup_rep [OF a(2)] k
    by (auto simp: sorting_inv_def int_bytes_inj ht_map_remove)
qed

end
