(* ===== verification/NetworkSampler.thy ===== *)
theory NetworkSampler
  imports Prelude
begin

text \<open>
  The round-trip estimator of gbn/networkSampler.c. The program computes with \<open>double\<close>;
  the weights are 1/8 and 1/4 and the operands are integers far below \<open>2 ^ 49\<close>, so every
  product and sum it forms is exact, and the model computes with reals. \<open>round\<close> rounds
  half away from zero; \<open>calcSampleDeviance\<close> narrows its arguments to \<open>int\<close>.
\<close>

definition ALPHA :: real where
  "ALPHA = 0.125"

definition BETA :: real where
  "BETA = 0.25"

record networkParams =
  estimatedRtt :: timespec
  devRtt :: timespec
  estimatedUploadTime :: timespec

abbreviation zero_timespec :: timespec where
  "zero_timespec \<equiv> \<lparr>tv_sec = 0, tv_nsec = 0\<rparr>"

definition newNetworkParams :: networkParams where
  "newNetworkParams = \<lparr>estimatedRtt = zero_timespec, devRtt = zero_timespec,
     estimatedUploadTime = zero_timespec\<rparr>"

definition c_round :: "real \<Rightarrow> int" where
  "c_round x = (if 0 \<le> x then \<lfloor>x + 1 / 2\<rfloor> else - \<lfloor>- x + 1 / 2\<rfloor>)"

definition calcEWMA :: "real \<Rightarrow> real \<Rightarrow> real \<Rightarrow> real" where
  "calcEWMA estimated sample weightDecreaseDegree =
     ((1 - weightDecreaseDegree) * estimated) + (weightDecreaseDegree * sample)"

definition calcSampleDeviance :: "int \<Rightarrow> int \<Rightarrow> real" where
  "calcSampleDeviance estimated sample =
     real_of_int (wrap32 \<bar>wrap32 (wrap32 sample - wrap32 estimated)\<bar>)"

definition updateWithEWMA :: "timespec \<Rightarrow> timespec \<Rightarrow> real \<Rightarrow> timespec" where
  "updateWithEWMA toUpdate sample w = \<lparr>
     tv_sec = c_round (calcEWMA (real_of_int (tv_sec toUpdate)) (real_of_int (tv_sec sample)) w),
     tv_nsec = c_round (calcEWMA (real_of_int (tv_nsec toUpdate)) (real_of_int (tv_nsec sample)) w)\<rparr>"

text \<open>The deviation is taken from the estimate already updated; storing the \<open>double\<close> result
  in \<open>devRttSample\<close> truncates an integral value.\<close>

definition updateEstimatedRtt :: "networkParams \<Rightarrow> timespec \<Rightarrow> networkParams" where
  "updateEstimatedRtt params sampleRtt =
     (let params1 = params\<lparr>estimatedRtt := updateWithEWMA (estimatedRtt params) sampleRtt ALPHA\<rparr>;
          devRttSample = \<lparr>
            tv_sec = \<lfloor>calcSampleDeviance (tv_sec sampleRtt) (tv_sec (estimatedRtt params1))\<rfloor>,
            tv_nsec = \<lfloor>calcSampleDeviance (tv_nsec sampleRtt) (tv_nsec (estimatedRtt params1))\<rfloor>\<rparr>
      in params1\<lparr>devRtt := updateWithEWMA (devRtt params1) devRttSample BETA\<rparr>)"

definition getEstimatedRtt :: "networkParams \<Rightarrow> timespec" where
  "getEstimatedRtt params = \<lparr>tv_sec = tv_sec (estimatedRtt params), tv_nsec = tv_nsec (estimatedRtt params)\<rparr>"

definition getDevRtt :: "networkParams \<Rightarrow> timespec" where
  "getDevRtt params = \<lparr>tv_sec = tv_sec (devRtt params), tv_nsec = tv_nsec (devRtt params)\<rparr>"

lemma c_round_of_int [simp]: "c_round (real_of_int n) = n"
proof (cases "0 \<le> n")
  case True
  then show ?thesis by (simp add: c_round_def)
next
  case False
  then show ?thesis by (simp add: c_round_def)
qed

lemma c_round_mono: "x \<le> y \<Longrightarrow> c_round x \<le> c_round y"
proof -
  assume le: "x \<le> y"
  consider "0 \<le> x" | "x < 0" "0 \<le> y" | "y < 0" using le by linarith
  then show ?thesis
  proof cases
    case 1
    with le show ?thesis by (auto simp: c_round_def intro: floor_mono)
  next
    case 2
    then have "0 \<le> \<lfloor>- x + 1 / 2\<rfloor>" "0 \<le> \<lfloor>y + 1 / 2\<rfloor>" by simp_all
    then have "- \<lfloor>- x + 1 / 2\<rfloor> \<le> \<lfloor>y + 1 / 2\<rfloor>" by linarith
    with 2 show ?thesis unfolding c_round_def by simp
  next
    case 3
    have "\<lfloor>- y + 1 / 2\<rfloor> \<le> \<lfloor>- x + 1 / 2\<rfloor>" using le by (intro floor_mono) simp
    with 3 le show ?thesis by (simp add: c_round_def)
  qed
qed

text \<open>The weighted mean of two integers, rounded, lies between them.\<close>

lemma c_round_EWMA_bounds:
  assumes "0 \<le> w" "w \<le> 1"
  shows "min a b \<le> c_round (calcEWMA (real_of_int a) (real_of_int b) w)
    \<and> c_round (calcEWMA (real_of_int a) (real_of_int b) w) \<le> max a b"
proof -
  let ?m = "real_of_int (min a b)" and ?M = "real_of_int (max a b)"
  have "(1 - w) * ?m + w * ?m \<le> calcEWMA a b w"
    unfolding calcEWMA_def using assms by (intro add_mono mult_left_mono) auto
  moreover have "calcEWMA a b w \<le> (1 - w) * ?M + w * ?M"
    unfolding calcEWMA_def using assms by (intro add_mono mult_left_mono) auto
  ultimately have "?m \<le> calcEWMA a b w" "calcEWMA a b w \<le> ?M"
    by (simp_all add: algebra_simps)
  then have "c_round ?m \<le> c_round (calcEWMA a b w)" "c_round (calcEWMA a b w) \<le> c_round ?M"
    by (simp_all only: c_round_mono)
  then show ?thesis by simp
qed

lemma weights: "0 \<le> ALPHA" "ALPHA \<le> 1" "0 \<le> BETA" "BETA \<le> 1"
  by (simp_all add: ALPHA_def BETA_def)

text \<open>Rounding is off by at most one half.\<close>

lemma c_round_half: "\<bar>real_of_int (c_round x) - x\<bar> \<le> 1 / 2"
proof (cases "0 \<le> x")
  case True
  then have "c_round x = \<lfloor>x + 1 / 2\<rfloor>" by (simp add: c_round_def)
  with floor_correct [of "x + 1 / 2"] show ?thesis by linarith
next
  case False
  then have "real_of_int (c_round x) = - real_of_int \<lfloor>- x + 1 / 2\<rfloor>" by (simp add: c_round_def)
  with floor_correct [of "- x + 1 / 2"] show ?thesis by linarith
qed

lemma c_round_ratio:
  "\<bar>8 * c_round (real_of_int a / 8) - a\<bar> \<le> 4" "\<bar>4 * c_round (real_of_int a / 4) - a\<bar> \<le> 2"
proof -
  have "- 4 \<le> real_of_int (8 * c_round (real_of_int a / 8) - a)"
    "real_of_int (8 * c_round (real_of_int a / 8) - a) \<le> 4"
    using c_round_half [of "real_of_int a / 8"] unfolding abs_le_iff by simp_all
  then show "\<bar>8 * c_round (real_of_int a / 8) - a\<bar> \<le> 4" by linarith
  have "- 2 \<le> real_of_int (4 * c_round (real_of_int a / 4) - a)"
    "real_of_int (4 * c_round (real_of_int a / 4) - a) \<le> 2"
    using c_round_half [of "real_of_int a / 4"] unfolding abs_le_iff by simp_all
  then show "\<bar>4 * c_round (real_of_int a / 4) - a\<bar> \<le> 2" by linarith
qed

text \<open>One component of the estimate: an eighth of the sample is taken over; and of the deviation: a
  quarter of the distance between the sample and the new estimate is.\<close>

definition nextEstimate :: "int \<Rightarrow> int \<Rightarrow> int" where
  "nextEstimate e x = c_round (calcEWMA (real_of_int e) (real_of_int x) ALPHA)"

definition nextDeviation :: "int \<Rightarrow> int \<Rightarrow> int \<Rightarrow> int" where
  "nextDeviation d e x = c_round (calcEWMA (real_of_int d) (real_of_int \<lfloor>calcSampleDeviance x e\<rfloor>) BETA)"

lemma nextEstimate_eighth: "\<bar>8 * nextEstimate e x - (7 * e + x)\<bar> \<le> 4"
proof -
  have "calcEWMA (real_of_int e) (real_of_int x) ALPHA = real_of_int (7 * e + x) / 8"
    by (simp add: calcEWMA_def ALPHA_def field_simps)
  then show ?thesis unfolding nextEstimate_def using c_round_ratio(1) [of "7 * e + x"] by (simp only:)
qed

lemma nextEstimate_between: "min e x \<le> nextEstimate e x \<and> nextEstimate e x \<le> max e x"
  unfolding nextEstimate_def by (rule c_round_EWMA_bounds [OF weights(1,2)])

lemma calcSampleDeviance_small:
  "\<bar>a\<bar> < 1000000000 \<Longrightarrow> \<bar>b\<bar> < 1000000000 \<Longrightarrow> calcSampleDeviance a b = real_of_int \<bar>b - a\<bar>"
proof -
  assume "\<bar>a\<bar> < 1000000000" "\<bar>b\<bar> < 1000000000"
  then have "c_int a" "c_int b" "c_int (b - a)" "c_int \<bar>b - a\<bar>" by (auto simp: c_int_def)
  then show ?thesis by (simp add: calcSampleDeviance_def wrap32_id)
qed

lemma nextDeviation_quarter:
  assumes "\<bar>e\<bar> < 1000000000" "\<bar>x\<bar> < 1000000000"
  shows "\<bar>4 * nextDeviation d e x - (3 * d + \<bar>e - x\<bar>)\<bar> \<le> 2"
    and "min d \<bar>e - x\<bar> \<le> nextDeviation d e x \<and> nextDeviation d e x \<le> max d \<bar>e - x\<bar>"
proof -
  have n: "nextDeviation d e x = c_round (calcEWMA (real_of_int d) (real_of_int \<bar>e - x\<bar>) BETA)"
    unfolding nextDeviation_def calcSampleDeviance_small [OF assms(2,1)] floor_of_int ..
  have "calcEWMA (real_of_int d) (real_of_int \<bar>e - x\<bar>) BETA = real_of_int (3 * d + \<bar>e - x\<bar>) / 4"
    by (simp add: calcEWMA_def BETA_def field_simps)
  then show "\<bar>4 * nextDeviation d e x - (3 * d + \<bar>e - x\<bar>)\<bar> \<le> 2"
    unfolding n using c_round_ratio(2) [of "3 * d + \<bar>e - x\<bar>"] by (simp only:)
  show "min d \<bar>e - x\<bar> \<le> nextDeviation d e x \<and> nextDeviation d e x \<le> max d \<bar>e - x\<bar>"
    unfolding n by (rule c_round_EWMA_bounds [OF weights(3,4)])
qed

text \<open>The update, component by component.\<close>

lemma updateEstimatedRtt_simps [simp]:
  "tv_sec (estimatedRtt (updateEstimatedRtt np x)) = nextEstimate (tv_sec (estimatedRtt np)) (tv_sec x)"
  "tv_nsec (estimatedRtt (updateEstimatedRtt np x)) = nextEstimate (tv_nsec (estimatedRtt np)) (tv_nsec x)"
  "tv_sec (devRtt (updateEstimatedRtt np x)) = nextDeviation (tv_sec (devRtt np))
     (tv_sec (estimatedRtt (updateEstimatedRtt np x))) (tv_sec x)"
  "tv_nsec (devRtt (updateEstimatedRtt np x)) = nextDeviation (tv_nsec (devRtt np))
     (tv_nsec (estimatedRtt (updateEstimatedRtt np x))) (tv_nsec x)"
  by (simp_all add: updateEstimatedRtt_def Let_def updateWithEWMA_def nextEstimate_def nextDeviation_def)

text \<open>Seconds and nanoseconds that the \<open>int\<close> arguments of \<open>calcSampleDeviance\<close> and their difference hold.\<close>

definition moderate :: "timespec \<Rightarrow> bool" where
  "moderate t \<longleftrightarrow> \<bar>tv_sec t\<bar> < 1000000000 \<and> \<bar>tv_nsec t\<bar> < 1000000000"

definition sampler_inv :: "networkParams \<Rightarrow> bool" where
  "sampler_inv np \<longleftrightarrow> moderate (estimatedRtt np)
     \<and> 0 \<le> tv_sec (devRtt np) \<and> tv_sec (devRtt np) < 2000000000
     \<and> 0 \<le> tv_nsec (devRtt np) \<and> tv_nsec (devRtt np) < 2000000000"

lemma sampler_inv_new: "sampler_inv newNetworkParams"
  by (simp add: sampler_inv_def moderate_def newNetworkParams_def)

lemma updated_moderate:
  assumes "moderate (estimatedRtt np)" "moderate x"
  shows "moderate (estimatedRtt (updateEstimatedRtt np x))"
  using assms nextEstimate_between [of "tv_sec (estimatedRtt np)" "tv_sec x"]
    nextEstimate_between [of "tv_nsec (estimatedRtt np)" "tv_nsec x"]
  by (auto simp: moderate_def)

lemma nextDeviation_range:
  assumes "\<bar>e\<bar> < 1000000000" "\<bar>x\<bar> < 1000000000" "0 \<le> d" "d < 2000000000"
  shows "0 \<le> nextDeviation d e x \<and> nextDeviation d e x < 2000000000"
proof -
  have "0 \<le> \<bar>e - x\<bar>" "\<bar>e - x\<bar> < 2000000000" using assms(1,2) by simp_all
  with nextDeviation_quarter(2) [OF assms(1,2), of d] assms(3,4) show ?thesis
    by (auto simp: min_def max_def split: if_splits)
qed

lemma sampler_inv_update:
  assumes "sampler_inv np" "moderate x"
  shows "sampler_inv (updateEstimatedRtt np x)"
proof -
  have e: "moderate (estimatedRtt (updateEstimatedRtt np x))"
    using assms by (simp add: sampler_inv_def updated_moderate)
  with assms show ?thesis unfolding sampler_inv_def updateEstimatedRtt_simps(3,4)
    by (auto simp: moderate_def nextDeviation_range simp del: updateEstimatedRtt_simps)
qed

text \<open>A sequence of samples.\<close>

definition sampleAll :: "networkParams \<Rightarrow> timespec list \<Rightarrow> networkParams" where
  "sampleAll params samples = foldl updateEstimatedRtt params samples"

lemma sampleAll_inv:
  "sampler_inv np \<Longrightarrow> \<forall>x\<in>set samples. moderate x \<Longrightarrow> sampler_inv (sampleAll np samples)"
  unfolding sampleAll_def by (induction samples arbitrary: np) (auto intro: sampler_inv_update)

lemma sampleAll_between:
  assumes "\<forall>x\<in>insert (estimatedRtt np) (set samples). lo \<le> f x \<and> f x \<le> hi" "f = tv_sec \<or> f = tv_nsec"
  shows "lo \<le> f (estimatedRtt (sampleAll np samples)) \<and> f (estimatedRtt (sampleAll np samples)) \<le> hi"
  using assms(1) unfolding sampleAll_def
proof (induction samples arbitrary: np)
  case (Cons x samples)
  have "f (estimatedRtt (updateEstimatedRtt np x)) = nextEstimate (f (estimatedRtt np)) (f x)"
    using assms(2) by auto
  with nextEstimate_between [of "f (estimatedRtt np)" "f x"] Cons.prems
  have "lo \<le> f (estimatedRtt (updateEstimatedRtt np x)) \<and> f (estimatedRtt (updateEstimatedRtt np x)) \<le> hi"
    by auto
  with Cons show ?case by simp
qed simp

end
