(* ===== verification/Timer.thy ===== *)
theory Timer
  imports NetworkSampler
begin

text \<open>
  The timer of gbn/timer.c: what it does when it times out (\<open>AtTimeout\<close>), its start, the
  request to time out at once, one round of the timer thread, and the computation of the
  absolute time it waits for. A round is the code between the return of
  \<open>pthread_cond_timedwait\<close> and the next wait, which holds \<open>atTimeoutLock\<close>.
\<close>

datatype atTimeout_action =
    AT_TIMEOUT_RING_THEN_RESTART
  | AT_TIMEOUT_RING_THEN_SHUTDOWN
  | AT_TIMEOUT_RESTART
  | AT_TIMEOUT_SHUTDOWN

record timer =
  ring :: bool
  isAlive :: bool
  atTimeout :: atTimeout_action

definition newTimer :: timer where
  "newTimer = \<lparr>ring = False, isAlive = False, atTimeout = AT_TIMEOUT_RING_THEN_RESTART\<rparr>"

text \<open>\<open>NORMAL_DISTRIBUTION\<close> is the only coefficient the program has.\<close>

definition NORMAL_DISTRIBUTION :: int where
  "NORMAL_DISTRIBUTION = 2"

definition calcAdaptiveTimeoutParam :: "real \<Rightarrow> real \<Rightarrow> int \<Rightarrow> real" where
  "calcAdaptiveTimeoutParam estimatedRttParam devRttParam c =
     estimatedRttParam + (real_of_int (2 * c) * devRttParam)"

definition TOWAIT_CONST_SECONDS :: int where
  "TOWAIT_CONST_SECONDS = 1"

definition TOWAIT_CONST_NANOSECONDS :: int where
  "TOWAIT_CONST_NANOSECONDS = 0"

text \<open>Assigning a \<open>double\<close> outside the range of \<open>int\<close> is undefined.\<close>

definition double_to_int :: "real \<Rightarrow> int option" where
  "double_to_int x = (let n = c_round x in if c_int n then Some n else None)"

text \<open>\<open>adaptive\<close> says whether the build defines \<open>TIMEOUT_ADAPTIVE\<close>, as the Makefile does.\<close>

definition toWait :: "bool \<Rightarrow> networkParams \<Rightarrow> (int \<times> int) option" where
  "toWait adaptive params =
     (let estimated = (if adaptive then getEstimatedRtt params else zero_timespec);
          dev = (if adaptive then getDevRtt params else zero_timespec)
      in do {
        toWait_sec \<leftarrow> double_to_int (calcAdaptiveTimeoutParam (real_of_int (tv_sec estimated))
                        (real_of_int (tv_sec dev)) NORMAL_DISTRIBUTION);
        toWait_nsec \<leftarrow> double_to_int (calcAdaptiveTimeoutParam (real_of_int (tv_nsec estimated))
                        (real_of_int (tv_nsec dev)) NORMAL_DISTRIBUTION);
        Some (if toWait_sec = 0 \<and> toWait_nsec = 0
              then (TOWAIT_CONST_SECONDS, TOWAIT_CONST_NANOSECONDS)
              else (toWait_sec, toWait_nsec)) })"

definition addToWait :: "bool \<Rightarrow> networkParams \<Rightarrow> timespec \<Rightarrow> timespec option" where
  "addToWait adaptive params t = do {
     (toWait_sec, toWait_nsec) \<leftarrow> toWait adaptive params;
     Some \<lparr>tv_sec = tv_sec t + toWait_sec,
           tv_nsec = tv_nsec t +
             (if toWait_nsec \<noteq> 0 then toWait_nsec else TOWAIT_CONST_NANOSECONDS)\<rparr> }"

definition calcTimeout :: "bool \<Rightarrow> networkParams \<Rightarrow> timespec \<Rightarrow> timespec option" where
  "calcTimeout adaptive params now = addToWait adaptive params now"

text \<open>What \<open>pthread_cond_timedwait\<close> accepts as an absolute time.\<close>

definition valid_timespec :: "timespec \<Rightarrow> bool" where
  "valid_timespec t \<longleftrightarrow> 0 \<le> tv_nsec t \<and> tv_nsec t < 1000000000"

text \<open>One round of the thread: whether it rings, and the timer after it.\<close>

definition timerRound :: "timer \<Rightarrow> bool \<times> timer" where
  "timerRound self = (case atTimeout self of
     AT_TIMEOUT_RING_THEN_SHUTDOWN \<Rightarrow> (ring self, self\<lparr>isAlive := False\<rparr>)
   | AT_TIMEOUT_SHUTDOWN \<Rightarrow> (False, self\<lparr>isAlive := False\<rparr>)
   | AT_TIMEOUT_RING_THEN_RESTART \<Rightarrow>
       (ring self, self\<lparr>atTimeout := AT_TIMEOUT_RING_THEN_RESTART\<rparr>)
   | AT_TIMEOUT_RESTART \<Rightarrow> (False, self\<lparr>atTimeout := AT_TIMEOUT_RING_THEN_RESTART\<rparr>))"

text \<open>The thread over \<open>k\<close> returns of the wait: the number of rings and the timer. The loop
  stops as soon as the timer is not alive.\<close>

primrec timerThread :: "nat \<Rightarrow> timer \<Rightarrow> nat \<times> timer" where
  "timerThread 0 self = (0, self)"
| "timerThread (Suc k) self =
     (if isAlive self then
        let (r, self') = timerRound self; (n, self'') = timerThread k self'
        in ((if r then 1 else 0) + n, self'')
      else (0, self))"

definition startTimer :: "timer \<Rightarrow> atTimeout_action \<Rightarrow> bool \<Rightarrow> int \<times> timer" where
  "startTimer self act ringFn =
     (if isAlive self then (- 1, self)
      else (0, self\<lparr>ring := ringFn, atTimeout := act, isAlive := True\<rparr>))"

definition timeout :: "timer \<Rightarrow> atTimeout_action \<Rightarrow> timer" where
  "timeout self act = self\<lparr>atTimeout := act\<rparr>"

lemma timerThread_ringing:
  "isAlive t \<Longrightarrow> ring t \<Longrightarrow> atTimeout t = AT_TIMEOUT_RING_THEN_RESTART \<Longrightarrow>
   timerThread k t = (k, t)"
proof (induction k)
  case (Suc k)
  then have "timerRound t = (True, t)" by (simp add: timerRound_def)
  with Suc show ?case by simp
qed simp

lemma timerThread_dead: "\<not> isAlive t \<Longrightarrow> timerThread k t = (0, t)"
  by (cases k) simp_all

text \<open>On integers the coefficient makes it estimate plus four deviations.\<close>

lemma adaptive_int:
  "double_to_int (calcAdaptiveTimeoutParam (real_of_int a) (real_of_int d) NORMAL_DISTRIBUTION)
     = (if c_int (a + 4 * d) then Some (a + 4 * d) else None)"
proof -
  have "calcAdaptiveTimeoutParam (real_of_int a) (real_of_int d) NORMAL_DISTRIBUTION
      = real_of_int (a + 4 * d)"
    by (simp add: calcAdaptiveTimeoutParam_def NORMAL_DISTRIBUTION_def)
  then show ?thesis by (simp add: double_to_int_def del: of_int_add of_int_mult)
qed

lemma toWait_adaptive:
  "toWait True params =
     (let s = tv_sec (estimatedRtt params) + 4 * tv_sec (devRtt params);
          n = tv_nsec (estimatedRtt params) + 4 * tv_nsec (devRtt params)
      in if c_int s \<and> c_int n then Some (if s = 0 \<and> n = 0 then (1, 0) else (s, n)) else None)"
  by (simp add: toWait_def adaptive_int getEstimatedRtt_def getDevRtt_def Let_def
      TOWAIT_CONST_SECONDS_def TOWAIT_CONST_NANOSECONDS_def)

lemma toWait_constant: "toWait False params = Some (1, 0)"
  using adaptive_int [of 0 0]
  by (simp add: toWait_def Let_def c_int_0 TOWAIT_CONST_SECONDS_def TOWAIT_CONST_NANOSECONDS_def)

lemma addToWait_adaptive:
  assumes "toWait True params = Some (s, n)"
  shows "addToWait True params t = Some \<lparr>tv_sec = tv_sec t + s, tv_nsec = tv_nsec t + n\<rparr>"
  using assms by (simp add: addToWait_def TOWAIT_CONST_NANOSECONDS_def)

end
