(* ===== verification/Launcher.thy ===== *)
theory Launcher
  imports LaunchBattery SortingTable Timer
begin

text \<open>
  The launcher of gbn/launcher.c with the jammer (gbn/jammer.c) and the real-time signal
  check (rtSignals/rtSignalChecker.c): firing a pad, sending the packets of the window,
  the handler of the launcher events, and one round of the acknowledgement listener. Each
  of them runs under the locks of the battery, the window and the send table, on the
  launcher thread, and is one step on \<open>launcherState\<close>.

  What the system gives back is an argument: \<open>launchEnv\<close> for each launch (whether
  \<open>getsockname\<close> and \<open>sendto\<close> succeed, the random number of the jammer, the clock), the
  clock and the datagram for the listener. A datagram handed to \<open>sendto\<close> is appended to
  \<open>wire\<close>; a signal sent to the launcher is appended to \<open>pending\<close>.
\<close>

subsection \<open>Jammer and signals\<close>

definition JAM_RATE :: int where
  "JAM_RATE = 50"

definition isJammed :: "int \<Rightarrow> bool" where
  "isJammed rnd = (let r = c_rem rnd 100 in r < JAM_RATE)"

definition checkRtSignal :: "int \<Rightarrow> int \<Rightarrow> int \<Rightarrow> int" where
  "checkRtSignal sigrtmin sigrtmax rtSig = (if rtSig \<le> sigrtmin \<or> sigrtmax < rtSig then 1 else 0)"

datatype launcherEvent =
    LAUNCHER_EVENT_NEW_PACKETS_IN_SEND_WINDOW
  | LAUNCHER_EVENT_PACKET_TIMED_OUT
  | LAUNCHER_EVENT_SHUTDOWN

primrec event_code :: "launcherEvent \<Rightarrow> int" where
  "event_code LAUNCHER_EVENT_NEW_PACKETS_IN_SEND_WINDOW = 0"
| "event_code LAUNCHER_EVENT_PACKET_TIMED_OUT = 1"
| "event_code LAUNCHER_EVENT_SHUTDOWN = 2"

definition getSignalFromLauncherEvent :: "int \<Rightarrow> int \<Rightarrow> launcherEvent \<Rightarrow> int" where
  "getSignalFromLauncherEvent sigrtmin sigrtmax event =
     (let signal = sigrtmin + event_code event + 1
      in if checkRtSignal sigrtmin sigrtmax signal \<noteq> 0 then - 1 else signal)"

subsection \<open>State\<close>

record launchEnv =
  getsocknameOk :: bool
  jamRand :: int
  sendtoOk :: bool
  clock :: timespec

record launcherState =
  bs :: batteryState
  sendTable :: sortingTable
  params :: networkParams
  ltimer :: timer
  isLauncherAvailable :: bool
  sigrtmin :: int
  sigrtmax :: int
  pending :: "int list"
  eventsBlocked :: bool
  ackBuf :: "byte list"
  listenPort :: port
  wire :: "(int \<times> sockaddr_in \<times> byte list) list"

definition signalOf :: "launcherState \<Rightarrow> launcherEvent \<Rightarrow> int" where
  "signalOf st e = getSignalFromLauncherEvent (sigrtmin st) (sigrtmax st) e"

text \<open>By the time anyone notifies the launcher \<open>pthread_once\<close> has run \<open>initLauncher\<close>.\<close>

definition getLauncherId :: "launcherState \<Rightarrow> int" where
  "getLauncherId st = (if \<not> isLauncherAvailable st then - 1 else 0)"

definition notifyLauncher :: "launcherEvent \<Rightarrow> launcherState \<Rightarrow> int \<times> launcherState" where
  "notifyLauncher event st =
     (if getLauncherId st \<noteq> 0 then (- 1, st)
      else if signalOf st event = - 1 then (- 1, st)
      else (0, st\<lparr>pending := pending st @ [signalOf st event]\<rparr>))"

definition padIndex :: "launcherState \<Rightarrow> int \<Rightarrow> launchPad" where
  "padIndex st i = pads (battery (bs st)) (c_rem i QUEUE_LEN)"

definition setPad :: "launcherState \<Rightarrow> int \<Rightarrow> launchPad \<Rightarrow> launcherState" where
  "setPad st i p = st\<lparr>bs := (bs st)\<lparr>battery := (battery (bs st))
     \<lparr>pads := (pads (battery (bs st)))(c_rem i QUEUE_LEN := p)\<rparr>\<rparr>\<rparr>"

subsection \<open>Launching packets\<close>

definition fireLaunchPad :: "launchEnv \<Rightarrow> launcherState \<Rightarrow> int \<Rightarrow> (int \<times> launcherState) option" where
  "fireLaunchPad env st i =
     (let currentPad = padIndex st i in
      if \<not> getsocknameOk env then Some (- 1, st)
      else case pad_packet currentPad of
        None \<Rightarrow> None
      | Some p0 \<Rightarrow> do {
          let p = p0\<lparr>hdr := (hdr p0)\<lparr>ackPort := listenPort st\<rparr>\<rparr>;
          let pad1 = currentPad\<lparr>pad_packet := Some p\<rparr>;
          let st1 = setPad st i pad1;
          sendbuf \<leftarrow> serializePacket p;
          (currentSendEntry, tbl) \<leftarrow> getFromSortingTable (sendTable st1) (msgId (hdr p));
          let st2 = st1\<lparr>sendTable := tbl\<rparr>;
          let sent = setPad st2 i (pad1\<lparr>status := SENT, launches := launches pad1 + 1,
                        launchTime := clock env\<rparr>);
          if \<not> isJammed (jamRand env) then do {
            e \<leftarrow> readEntry tbl currentSendEntry;
            if \<not> sendtoOk env then Some (- 1, st2)
            else Some (0, sent\<lparr>wire := wire st @ [(sd e, dest e, sendbuf)]\<rparr>) }
          else Some (0, sent) })"

primrec firstIndexOf :: "launchPadStatus \<Rightarrow> launchPadStatus list \<Rightarrow> nat option" where
  "firstIndexOf s [] = None"
| "firstIndexOf s (x # xs) = (if s = x then Some 0 else map_option Suc (firstIndexOf s xs))"

fun windowLoop ::
  "(int \<Rightarrow> launchEnv) \<Rightarrow> launchPadStatus list \<Rightarrow> int \<Rightarrow> int list \<Rightarrow> int \<Rightarrow> int \<Rightarrow> launcherState
    \<Rightarrow> (int \<times> launcherState) option"
where
  "windowLoop env statuses b [] msgIdToSend n st = Some (n, st)"
| "windowLoop env statuses b (i # is) msgIdToSend n st =
     (let currentPad = padIndex st i in
      case firstIndexOf (status currentPad) statuses of
        None \<Rightarrow> windowLoop env statuses b is msgIdToSend n st
      | Some j \<Rightarrow>
          (case pad_packet currentPad of
             None \<Rightarrow> None
           | Some p \<Rightarrow>
               let m = (if i = b \<and> j = 0 then msgId (hdr p) else msgIdToSend) in
               if msgId (hdr p) = m then do {
                 (r, st') \<leftarrow> fireLaunchPad (env i) st i;
                 windowLoop env statuses b is m (if 0 \<le> r then n + 1 else n) st' }
               else windowLoop env statuses b is m n st))"

definition sendAllPacketsInWindowCore ::
  "(int \<Rightarrow> launchEnv) \<Rightarrow> launcherState \<Rightarrow> launchPadStatus list \<Rightarrow> (int \<times> launcherState) option"
where
  "sendAllPacketsInWindowCore env st statuses =
     (let b = base (window (bs st));
          n = nextSeqNum (window (bs st));
          n' = (if n < b then n + QUEUE_LEN else n)
      in windowLoop env statuses b [b..n' - 1] (- 1) 0 st)"

definition sendAllPacketsInWindow ::
  "(int \<Rightarrow> launchEnv) \<Rightarrow> launcherState \<Rightarrow> (int \<times> launcherState) option"
where
  "sendAllPacketsInWindow env st = sendAllPacketsInWindowCore env st [READY, SENT]"

definition sendAllReadyPacketsInWindow ::
  "(int \<Rightarrow> launchEnv) \<Rightarrow> launcherState \<Rightarrow> (int \<times> launcherState) option"
where
  "sendAllReadyPacketsInWindow env st = sendAllPacketsInWindowCore env st [READY]"

definition sendAllSentPacketsInWindow ::
  "(int \<Rightarrow> launchEnv) \<Rightarrow> launcherState \<Rightarrow> (int \<times> launcherState) option"
where
  "sendAllSentPacketsInWindow env st = sendAllPacketsInWindowCore env st [SENT]"

subsection \<open>Events\<close>

text \<open>What the timer of the launcher does when it rings.\<close>

definition ringLauncher :: "launcherState \<Rightarrow> launcherState" where
  "ringLauncher st = snd (notifyLauncher LAUNCHER_EVENT_PACKET_TIMED_OUT st)"

text \<open>Shutting the timer down and joining its thread: the thread runs its last round.\<close>

definition stopTimer :: "timer \<Rightarrow> timer" where
  "stopTimer t = snd (timerRound (timeout t AT_TIMEOUT_SHUTDOWN))"

definition launcherSigHandler ::
  "(int \<Rightarrow> launchEnv) \<Rightarrow> int \<Rightarrow> launcherState \<Rightarrow> launcherState option"
where
  "launcherSigHandler env sig st =
     (if sig = signalOf st LAUNCHER_EVENT_NEW_PACKETS_IN_SEND_WINDOW then do {
        (n, st1) \<leftarrow> sendAllReadyPacketsInWindow env st;
        Some (if 0 < n \<and> \<not> isAlive (ltimer st1)
              then st1\<lparr>ltimer := snd (startTimer (ltimer st1) AT_TIMEOUT_RING_THEN_RESTART True)\<rparr>
              else st1) }
      else if sig = signalOf st LAUNCHER_EVENT_PACKET_TIMED_OUT then do {
        (n, st1) \<leftarrow> sendAllSentPacketsInWindow env st;
        Some (if n = 0 \<and> isAlive (ltimer st1) then st1\<lparr>ltimer := stopTimer (ltimer st1)\<rparr> else st1) }
      else if sig = signalOf st LAUNCHER_EVENT_SHUTDOWN then
        Some (st\<lparr>isLauncherAvailable := False\<rparr>)
      else Some st)"

subsection \<open>Acknowledgements\<close>

definition sampleRttOf :: "timespec \<Rightarrow> launchPad \<Rightarrow> timespec" where
  "sampleRttOf now pad = \<lparr>tv_sec = tv_sec now - tv_sec (launchTime pad),
     tv_nsec = tv_nsec now - tv_nsec (launchTime pad)\<rparr>"

fun ackLoop :: "(int \<Rightarrow> timespec) \<Rightarrow> int \<Rightarrow> int list \<Rightarrow> int \<Rightarrow> launcherState \<Rightarrow> int \<times> launcherState" where
  "ackLoop now ackIndex [] ackedPacks st = (ackedPacks, st)"
| "ackLoop now ackIndex (i # is) ackedPacks st =
     (let currentPad = padIndex st i in
      if isInWindow (window (bs st)) (ackIndex - 1) \<and> status currentPad \<noteq> ACKED then
        let st1 = setPad st i (currentPad\<lparr>status := ACKED\<rparr>);
            st2 = st1\<lparr>bs := (bs st1)\<lparr>battery := updateContiguousPads (battery (bs st1)) 1\<rparr>\<rparr>;
            st3 = st2\<lparr>params := updateEstimatedRtt (params st2) (sampleRttOf (now i) currentPad)\<rparr>
        in ackLoop now ackIndex is (ackedPacks + 1) st3
      else ackLoop now ackIndex is ackedPacks st)"

text \<open>The part of the round that an accepted acknowledgement reaches.\<close>

definition slideWindow :: "packet \<Rightarrow> int \<Rightarrow> launcherState \<Rightarrow> launcherState option" where
  "slideWindow ack ackIndex st = do {
     tbl \<leftarrow> (if ackIndex = c_rem (wrap32 (endIndex (hdr ack) + 1)) QUEUE_LEN
             then removeFromSortingTable (sendTable st) (msgId (hdr ack))
             else Some (sendTable st));
     let st1 = st\<lparr>sendTable := tbl\<rparr>;
     let st2 = (if isAlive (ltimer st1)
                then st1\<lparr>ltimer := timeout (ltimer st1) AT_TIMEOUT_RESTART\<rparr> else st1);
     let newBase = c_rem ackIndex QUEUE_LEN;
     let newNextSeqNum = c_rem (newBase + winsize (bs st2)) QUEUE_LEN;
     let st3 = st2\<lparr>bs := (bs st2)\<lparr>window := \<lparr>base = newBase, nextSeqNum = newNextSeqNum\<rparr>\<rparr>\<rparr>;
     Some (snd (notifyLauncher LAUNCHER_EVENT_NEW_PACKETS_IN_SEND_WINDOW st3)) }"

definition processAck :: "(int \<Rightarrow> timespec) \<Rightarrow> packet \<Rightarrow> launcherState \<Rightarrow> launcherState option" where
  "processAck now ack st =
     (let b = base (window (bs st));
          ackIndex0 = index (hdr ack);
          ackIndex = (if ackIndex0 < b then ackIndex0 + QUEUE_LEN else ackIndex0);
          (ackedPacks, st1) = ackLoop now ackIndex [b..ackIndex - 1] 0 st
      in if 0 < ackedPacks then slideWindow ack ackIndex st1 else Some st1)"

text \<open>One successful \<open>recvfrom\<close> of \<open>listenForAcks\<close>. The events are blocked before the packet
  is looked at, and unblocked at the end of the branch of an acknowledgement only.\<close>

definition listenForAcksStep ::
  "(int \<Rightarrow> timespec) \<Rightarrow> byte list \<Rightarrow> launcherState \<Rightarrow> launcherState option"
where
  "listenForAcksStep now dgram st = do {
     let st0 = st\<lparr>ackBuf := overwrite (ackBuf st) (take (nat calcAckSize) dgram)\<rparr>;
     let st1 = st0\<lparr>eventsBlocked := True\<rparr>;
     ack \<leftarrow> deserializePacket (ackBuf st1);
     if isAck (hdr ack) then do {
       st2 \<leftarrow> processAck now ack st1;
       Some (st2\<lparr>eventsBlocked := False\<rparr>) }
     else Some st1 }"

text \<open>\<open>initLauncher\<close> and \<open>launcher\<close> up to the listener: the state the launcher starts with.\<close>

definition initLauncher :: "int \<Rightarrow> int \<Rightarrow> port \<Rightarrow> launcherState" where
  "initLauncher rtmin rtmax lport = \<lparr>bs = initLaunchBattery, sendTable = newSortingTable,
     params = newNetworkParams, ltimer = newTimer, isLauncherAvailable = True, sigrtmin = rtmin,
     sigrtmax = rtmax, pending = [], eventsBlocked = False,
     ackBuf = replicate (nat calcAckSize) 0, listenPort = lport, wire = []\<rparr>"

subsection \<open>Invariant\<close>

abbreviation wbase :: "launcherState \<Rightarrow> int" where
  "wbase st \<equiv> base (window (bs st))"

abbreviation busy :: "launcherState \<Rightarrow> int" where
  "busy st \<equiv> used (battery (bs st))"

abbreviation padOf :: "launcherState \<Rightarrow> int \<Rightarrow> launchPad" where
  "padOf st k \<equiv> pad_at (bs st) k"

abbreviation tableOf :: "launcherState \<Rightarrow> int \<Rightarrow> sortingEntry option" where
  "tableOf st \<equiv> sorting_lookup (sendTable st)"

text \<open>Each occupied pad holds a packet of a message that the send table knows.\<close>

definition launcher_inv :: "launcherState \<Rightarrow> bool" where
  "launcher_inv st \<longleftrightarrow> battery_inv (bs st) \<and> sorting_inv (sendTable st) \<and> length (ackBuf st) = 24
     \<and> (\<forall>k. 0 \<le> k \<and> k < busy st \<longrightarrow>
          (\<exists>p. pad_packet (padOf st k) = Some p \<and> 0 \<le> msgId (hdr p) \<and> tableOf st (msgId (hdr p)) \<noteq> None))"

definition waiting :: "launcherState \<Rightarrow> packet list" where
  "waiting st = map core (queue (bs st))"

text \<open>What a launch leaves as it is.\<close>

definition frame :: "launcherState \<Rightarrow> launcherState \<Rightarrow> bool" where
  "frame st st' \<longleftrightarrow> window (bs st') = window (bs st) \<and> winsize (bs st') = winsize (bs st)
     \<and> contiguousPadsAvailable (battery (bs st')) = contiguousPadsAvailable (battery (bs st))
     \<and> nextAvailableIndex (battery (bs st')) = nextAvailableIndex (battery (bs st))
     \<and> waiting st' = waiting st \<and> tableOf st' = tableOf st \<and> params st' = params st
     \<and> ltimer st' = ltimer st \<and> isLauncherAvailable st' = isLauncherAvailable st
     \<and> sigrtmin st' = sigrtmin st \<and> sigrtmax st' = sigrtmax st \<and> pending st' = pending st
     \<and> eventsBlocked st' = eventsBlocked st \<and> ackBuf st' = ackBuf st \<and> listenPort st' = listenPort st"

lemma frame_refl [simp]: "frame st st"
  by (simp add: frame_def)

lemma frame_trans: "frame a b \<Longrightarrow> frame b c \<Longrightarrow> frame a c"
  by (simp add: frame_def)

lemma frame_used: "frame st st' \<Longrightarrow> busy st' = busy st"
  by (simp add: frame_def used_def)

lemma launcher_inv_D:
  assumes "launcher_inv st"
  shows "battery_inv (bs st)" "sorting_inv (sendTable st)" "length (ackBuf st) = 24"
    and "0 \<le> wbase st" "wbase st < QUEUE_LEN" "0 \<le> busy st" "busy st \<le> QUEUE_LEN"
    and "0 < winsize (bs st)" "winsize (bs st) < QUEUE_LEN"
    and "0 \<le> k \<Longrightarrow> k < busy st \<Longrightarrow> loaded ((wbase st + k) mod QUEUE_LEN) (padOf st k)"
    and "busy st \<le> k \<Longrightarrow> k < QUEUE_LEN \<Longrightarrow> vacant (padOf st k)"
    and "0 \<le> k \<Longrightarrow> k < busy st \<Longrightarrow> \<exists>p. pad_packet (padOf st k) = Some p \<and> 0 \<le> msgId (hdr p)
      \<and> tableOf st (msgId (hdr p)) \<noteq> None"
  using assms by (auto simp: launcher_inv_def battery_inv_def window_inv_def)

lemma launcher_inv_init: "launcher_inv (initLauncher rtmin rtmax lport)"
  using battery_inv_init send_table.invar_empty
  by (auto simp: launcher_inv_def initLauncher_def calcAckSize_def calcHeaderSize_def
      initLaunchBattery_def newLaunchBattery_def used_def)

lemma padIndex_at: "0 \<le> i \<Longrightarrow> padIndex st i = padOf st (i - wbase st)"
  by (simp add: padIndex_def pad_at_def c_simps)

lemma pad_at_setPad:
  assumes "0 \<le> wbase st" "0 \<le> k" "k < QUEUE_LEN" "0 \<le> j" "j < QUEUE_LEN"
  shows "padOf (setPad st (wbase st + k) p) j = (if j = k then p else padOf st j)"
  using assms by (simp add: setPad_def pad_at_def c_simps ring_same_iff)

lemma setPad_fields [simp]:
  "window (bs (setPad st i p)) = window (bs st)" "winsize (bs (setPad st i p)) = winsize (bs st)"
  "contiguousPadsAvailable (battery (bs (setPad st i p))) = contiguousPadsAvailable (battery (bs st))"
  "nextAvailableIndex (battery (bs (setPad st i p))) = nextAvailableIndex (battery (bs st))"
  "sendTable (setPad st i p) = sendTable st" "params (setPad st i p) = params st"
  "ltimer (setPad st i p) = ltimer st" "isLauncherAvailable (setPad st i p) = isLauncherAvailable st"
  "sigrtmin (setPad st i p) = sigrtmin st" "sigrtmax (setPad st i p) = sigrtmax st"
  "pending (setPad st i p) = pending st" "eventsBlocked (setPad st i p) = eventsBlocked st"
  "ackBuf (setPad st i p) = ackBuf st" "listenPort (setPad st i p) = listenPort st"
  "wire (setPad st i p) = wire st" "busy (setPad st i p) = busy st"
  by (simp_all add: setPad_def used_def)

lemma waiting_setPad:
  assumes inv: "launcher_inv st" and k: "0 \<le> k" "k < busy st"
    and p: "pad_packet p = Some q" "pad_packet (padOf st k) = Some q0" "core q = core q0"
  shows "waiting (setPad st (wbase st + k) p) = waiting st"
proof -
  have "core (the (pad_packet (padOf (setPad st (wbase st + k) p) (int j)))) =
      core (the (pad_packet (padOf st (int j))))" if "j < nat (busy st)" for j
    using pad_at_setPad [of st k "int j" p] launcher_inv_D(4,7) [OF inv] k p that by auto
  then show ?thesis by (simp add: waiting_def queue_def)
qed

lemma inv_setPad:
  assumes inv: "launcher_inv st" and k: "0 \<le> k" "k < busy st"
    and p: "loaded ((wbase st + k) mod QUEUE_LEN) p" "pad_packet p = Some q"
    and q: "pad_packet (padOf st k) = Some q0" "msgId (hdr q) = msgId (hdr q0)"
  shows "launcher_inv (setPad st (wbase st + k) p)"
proof -
  note D = launcher_inv_D [OF inv]
  have pa: "padOf (setPad st (wbase st + k) p) j = (if j = k then p else padOf st j)"
    if "0 \<le> j" "j < QUEUE_LEN" for j
    using pad_at_setPad D(4,7) k that by simp
  have "battery_inv (bs (setPad st (wbase st + k) p))"
    unfolding battery_inv_def setPad_fields
  proof (intro conjI allI impI)
    fix j assume "0 \<le> j \<and> j < busy st"
    then show "loaded ((wbase st + j) mod QUEUE_LEN) (padOf (setPad st (wbase st + k) p) j)"
      using pa [of j] D(7,10) p(1) by auto
  next
    fix j assume "busy st \<le> j \<and> j < QUEUE_LEN"
    then show "vacant (padOf (setPad st (wbase st + k) p) j)"
      using pa [of j] D(11) k by auto
  qed (use D(1) in \<open>auto simp: battery_inv_def\<close>)
  moreover have "\<exists>r. pad_packet (padOf (setPad st (wbase st + k) p) j) = Some r \<and> 0 \<le> msgId (hdr r)
      \<and> tableOf st (msgId (hdr r)) \<noteq> None" if "0 \<le> j" "j < busy st" for j
    using pa [of j] D(7,12) p(2) q that k by (cases "j = k") fastforce+
  ultimately show ?thesis using D(2,3) by (simp add: launcher_inv_def)
qed

lemma inv_sendTable:
  "launcher_inv st \<Longrightarrow> sorting_inv t \<Longrightarrow> sorting_lookup t = tableOf st \<Longrightarrow>
   launcher_inv (st\<lparr>sendTable := t\<rparr>)"
  by (simp add: launcher_inv_def)

lemma inv_wire: "launcher_inv (st\<lparr>wire := w\<rparr>) = launcher_inv st"
  by (simp add: launcher_inv_def)

subsection \<open>A launch\<close>

definition launchOk :: "launchEnv \<Rightarrow> bool" where
  "launchOk env \<longleftrightarrow> getsocknameOk env \<and> (isJammed (jamRand env) \<or> sendtoOk env)"

text \<open>What a launch computes at an occupied pad: \<open>st2\<close> is the state when it gets to the jammer
  and \<open>sendto\<close>, \<open>st3\<close> the one in which the pad counts as sent.\<close>

lemma fireLaunchPad_states:
  assumes inv: "launcher_inv st" and k: "0 \<le> k" "k < busy st"
  obtains p e st2 st3 where "pad_packet (padOf st k) = Some p" "tableOf st (msgId (hdr p)) = Some e"
    "launcher_inv st2" "launcher_inv st3" "frame st st2" "frame st st3" "wire st2 = wire st" "wire st3 = wire st"
    "\<forall>j. 0 \<le> j \<and> j < QUEUE_LEN \<and> j \<noteq> k \<longrightarrow> padOf st2 j = padOf st j \<and> padOf st3 j = padOf st j"
    "status (padOf st2 k) = status (padOf st k)" "status (padOf st3 k) = SENT"
    "fireLaunchPad env st (wbase st + k) =
      (if \<not> getsocknameOk env then Some (- 1, st)
       else if \<not> isJammed (jamRand env) then
         (if \<not> sendtoOk env then Some (- 1, st2)
          else Some (0, st3\<lparr>wire := wire st @ [(sd e, dest e, wire_bytes (withPort (listenPort st) p))]\<rparr>))
       else Some (0, st3))"
proof -
  note D = launcher_inv_D [OF inv]
  let ?i = "wbase st + k" and ?pad = "padOf st k"
  obtain p where p: "pad_packet ?pad = Some p" "wf_packet p" "index (hdr p) = (wbase st + k) mod QUEUE_LEN"
    "queueLen (hdr p) = QUEUE_LEN" and ld: "loaded ((wbase st + k) mod QUEUE_LEN) ?pad"
    using D(10) [OF k] by (auto simp: loaded_def)
  obtain e where e: "tableOf st (msgId (hdr p)) = Some e" using D(12) [OF k] p(1) by auto
  have pi: "padIndex st ?i = ?pad" using D(4) k by (simp add: padIndex_at)
  let ?p = "withPort (listenPort st) p"
  let ?pad1 = "?pad\<lparr>pad_packet := Some ?p\<rparr>"
  let ?pad2 = "?pad1\<lparr>status := SENT, launches := launches ?pad1 + 1, launchTime := clock env\<rparr>"
  have ld1: "loaded ((wbase st + k) mod QUEUE_LEN) ?pad1" "loaded ((wbase st + k) mod QUEUE_LEN) ?pad2"
    using ld p by (auto simp: loaded_def withPort_def [symmetric]) (auto simp: withPort_def)
  have mid: "msgId (hdr ?p) = msgId (hdr p)" by (simp add: withPort_def)
  have ser: "serializePacket ?p = Some (wire_bytes ?p)" using p(2) by (simp add: serialize_wire)
  from send_table.get_lookup [OF D(2), of "msgId (hdr p)"] e obtain tbl q where
    g: "getFromSortingTable (sendTable st) (msgId (hdr p)) = Some (q, tbl)"
    and rd: "readEntry tbl q = Some e" and tb: "sorting_inv tbl" "sorting_lookup tbl = tableOf st"
    by (auto simp: findEntry_def)
  let ?st1 = "setPad st ?i ?pad1"
  let ?st2 = "?st1\<lparr>sendTable := tbl\<rparr>"
  let ?st3 = "setPad ?st2 ?i ?pad2"
  have inv1: "launcher_inv ?st1" by (rule inv_setPad [OF inv k ld1(1) _ p(1), where q = ?p]) (simp_all add: mid)
  have inv2: "launcher_inv ?st2" using inv_sendTable [OF inv1 tb(1)] tb(2) by simp
  have pa1: "padOf ?st1 j = (if j = k then ?pad1 else padOf st j)" if "0 \<le> j" "j < QUEUE_LEN" for j
    using pad_at_setPad [of st k j] D(4,7) k that by simp
  have pa2: "padOf ?st2 j = padOf ?st1 j" for j by simp
  have pk: "pad_packet (padOf ?st2 k) = Some ?p" using pa1 [of k] k D(7) by simp
  have st3: "?st3 = setPad ?st2 (wbase ?st2 + k) ?pad2" by simp
  have inv3: "launcher_inv ?st3"
    unfolding st3 by (rule inv_setPad [OF inv2 _ _ _ _ pk, where q = ?p]) (use k ld1(2) in \<open>simp_all\<close>)
  have pa3: "padOf ?st3 j = (if j = k then ?pad2 else padOf st j)" if "0 \<le> j" "j < QUEUE_LEN" for j
    using pad_at_setPad [of ?st2 k j ?pad2] pa1 [OF that] pa2 D(4,7) k that by simp
  have w1: "waiting ?st1 = waiting st" by (rule waiting_setPad [OF inv k _ p(1), where q = ?p]) simp_all
  have w2: "waiting ?st2 = waiting ?st1" by (simp add: waiting_def)
  have w3: "waiting ?st3 = waiting ?st2"
    unfolding st3 by (rule waiting_setPad [OF inv2 _ _ _ pk, where q = ?p]) (use k in \<open>simp_all\<close>)
  have f1: "frame st ?st1" "frame st ?st2" "frame st ?st3"
    using w1 w2 w3 tb(2) by (simp_all add: frame_def)
  have fire: "fireLaunchPad env st ?i =
      (if \<not> getsocknameOk env then Some (- 1, st)
       else if \<not> isJammed (jamRand env) then
         (if \<not> sendtoOk env then Some (- 1, ?st2)
          else Some (0, ?st3\<lparr>wire := wire st @ [(sd e, dest e, wire_bytes ?p)]\<rparr>))
       else Some (0, ?st3))"
    using p(1) g rd ser mid
    by (simp add: fireLaunchPad_def pi withPort_def [symmetric] Let_def)
  show thesis
  proof (rule that [OF p(1) e inv2 inv3 f1(2,3) _ _ _ _ _ fire])
    show "\<forall>j. 0 \<le> j \<and> j < QUEUE_LEN \<and> j \<noteq> k \<longrightarrow> padOf ?st2 j = padOf st j \<and> padOf ?st3 j = padOf st j"
      using pa1 pa3 by simp
    show "status (padOf ?st2 k) = status (padOf st k)" using pa1 [of k] k D(7) by simp
    show "status (padOf ?st3 k) = SENT" using pa3 [of k] k D(7) by simp
  qed simp_all
qed

text \<open>Firing an occupied pad never goes wrong: it finds the table entry and the packet. It
  marks the pad as sent exactly when the launch counts, puts the serialized packet on the
  wire exactly when it is not jammed, and leaves everything else.\<close>

lemma fireLaunchPad_ok:
  assumes inv: "launcher_inv st" and k: "0 \<le> k" "k < busy st"
  shows "\<exists>st' p e. fireLaunchPad env st (wbase st + k) = Some (if launchOk env then 0 else - 1, st')
    \<and> launcher_inv st' \<and> frame st st'
    \<and> (\<forall>j. 0 \<le> j \<and> j < QUEUE_LEN \<and> j \<noteq> k \<longrightarrow> padOf st' j = padOf st j)
    \<and> status (padOf st' k) = (if launchOk env then SENT else status (padOf st k))
    \<and> pad_packet (padOf st k) = Some p \<and> tableOf st (msgId (hdr p)) = Some e
    \<and> wire st' = wire st @ (if launchOk env \<and> \<not> isJammed (jamRand env)
        then [(sd e, dest e, wire_bytes (withPort (listenPort st) p))] else [])"
proof -
  from fireLaunchPad_states [OF inv k, where env = env] obtain p e st2 st3 where
    p: "pad_packet (padOf st k) = Some p" "tableOf st (msgId (hdr p)) = Some e"
    and i: "launcher_inv st2" "launcher_inv st3" and f: "frame st st2" "frame st st3"
    and w: "wire st2 = wire st" "wire st3 = wire st"
    and o: "\<forall>j. 0 \<le> j \<and> j < QUEUE_LEN \<and> j \<noteq> k \<longrightarrow> padOf st2 j = padOf st j \<and> padOf st3 j = padOf st j"
    and s: "status (padOf st2 k) = status (padOf st k)" "status (padOf st3 k) = SENT"
    and fire: "fireLaunchPad env st (wbase st + k) =
      (if \<not> getsocknameOk env then Some (- 1, st)
       else if \<not> isJammed (jamRand env) then
         (if \<not> sendtoOk env then Some (- 1, st2)
          else Some (0, st3\<lparr>wire := wire st @ [(sd e, dest e, wire_bytes (withPort (listenPort st) p))]\<rparr>))
       else Some (0, st3))" by blast
  have fw: "frame st (st3\<lparr>wire := x\<rparr>)" for x using f(2) by (simp add: frame_def waiting_def)
  have pw: "padOf (st3\<lparr>wire := x\<rparr>) j = padOf st3 j" for x j by simp
  show ?thesis
    using inv p i f w o s fw by (auto simp: fire launchOk_def inv_wire)
qed

subsection \<open>A pass over the window\<close>

definition msgAt :: "launcherState \<Rightarrow> int \<Rightarrow> int" where
  "msgAt st k = msgId (hdr (the (pad_packet (padOf st k))))"

definition picked :: "launcherState \<Rightarrow> launchPadStatus list \<Rightarrow> int \<Rightarrow> int \<Rightarrow> bool" where
  "picked st statuses m k \<longleftrightarrow> status (padOf st k) \<in> set statuses \<and> msgAt st k = m"

text \<open>The pads a pass fires: nothing unless the base pad is in the first of the statuses, and
  then the pads of the window in one of them that hold a packet of the base pad's message.\<close>

definition selected :: "launcherState \<Rightarrow> launchPadStatus list \<Rightarrow> int list" where
  "selected st statuses =
     (if statuses \<noteq> [] \<and> status (padOf st 0) = hd statuses
      then filter (picked st statuses (msgAt st 0)) [0..winsize (bs st) - 1] else [])"

definition onWire :: "(int \<Rightarrow> launchEnv) \<Rightarrow> launcherState \<Rightarrow> int \<Rightarrow> (int \<times> sockaddr_in \<times> byte list) list" where
  "onWire env st k =
     (let p = the (pad_packet (padOf st k)); e = the (tableOf st (msgAt st k));
          le = env (wbase st + k)
      in if launchOk le \<and> \<not> isJammed (jamRand le)
         then [(sd e, dest e, wire_bytes (withPort (listenPort st) p))] else [])"

text \<open>\<open>fired env st ks n st'\<close>: the state after the pads \<open>ks\<close> were fired, \<open>n\<close> of them launched.\<close>

definition fired :: "(int \<Rightarrow> launchEnv) \<Rightarrow> launcherState \<Rightarrow> int list \<Rightarrow> int \<Rightarrow> launcherState \<Rightarrow> bool" where
  "fired env st ks n st' \<longleftrightarrow> launcher_inv st' \<and> frame st st'
     \<and> n = int (length (filter (\<lambda>k. launchOk (env (wbase st + k))) ks))
     \<and> (\<forall>j. 0 \<le> j \<and> j < QUEUE_LEN \<longrightarrow>
          (j \<notin> set ks \<longrightarrow> padOf st' j = padOf st j)
          \<and> status (padOf st' j) = (if j \<in> set ks \<and> launchOk (env (wbase st + j)) then SENT
             else status (padOf st j)))
     \<and> wire st' = wire st @ concat (map (onWire env st) ks)"

lemma fired_Nil: "launcher_inv st \<Longrightarrow> fired env st [] 0 st"
  by (simp add: fired_def)

lemma fired_one:
  assumes inv: "launcher_inv st" and k: "0 \<le> k" "k < busy st"
  shows "\<exists>r st'. fireLaunchPad (env (wbase st + k)) st (wbase st + k) = Some (r, st')
    \<and> r = (if launchOk (env (wbase st + k)) then 0 else - 1)
    \<and> fired env st [k] (if 0 \<le> r then 1 else 0) st'"
proof -
  let ?e = "env (wbase st + k)"
  from fireLaunchPad_ok [OF inv k, of ?e] obtain st' p e where
    f: "fireLaunchPad ?e st (wbase st + k) = Some (if launchOk ?e then 0 else - 1, st')"
    "launcher_inv st'" "frame st st'" and
    pa: "\<And>j. 0 \<le> j \<Longrightarrow> j < QUEUE_LEN \<Longrightarrow> j \<noteq> k \<Longrightarrow> padOf st' j = padOf st j"
    "status (padOf st' k) = (if launchOk ?e then SENT else status (padOf st k))" and
    w: "pad_packet (padOf st k) = Some p" "tableOf st (msgId (hdr p)) = Some e"
    "wire st' = wire st @ (if launchOk ?e \<and> \<not> isJammed (jamRand ?e)
        then [(sd e, dest e, wire_bytes (withPort (listenPort st) p))] else [])"
    by blast
  have "status (padOf st' j) = (if j \<in> set [k] \<and> launchOk (env (wbase st + j)) then SENT
      else status (padOf st j))" if "0 \<le> j" "j < QUEUE_LEN" for j
    using pa that by (cases "j = k") simp_all
  moreover have "wire st' = wire st @ concat (map (onWire env st) [k])"
    using w by (simp add: onWire_def msgAt_def Let_def)
  ultimately show ?thesis using f pa(1) by (simp add: fired_def)
qed

lemma fired_append:
  assumes a: "fired env st ks n st1" and b: "fired env st1 ks' n' st'"
    and disj: "set ks \<inter> set ks' = {}" and ks: "\<forall>j\<in>set ks'. 0 \<le> j \<and> j < QUEUE_LEN"
  shows "fired env st (ks @ ks') (n + n') st'"
proof -
  have pa: "padOf st1 j = padOf st j" if "0 \<le> j" "j < QUEUE_LEN" "j \<notin> set ks" for j
    using a that by (simp add: fired_def)
  have fr: "frame st st1" "frame st1 st'" using a b by (simp_all add: fired_def)
  have eqs: "wbase st1 = wbase st" "tableOf st1 = tableOf st" "listenPort st1 = listenPort st"
    using fr(1) by (simp_all add: frame_def)
  have "onWire env st1 j = onWire env st j" if "j \<in> set ks'" for j
  proof -
    have "padOf st1 j = padOf st j" using pa [of j] that disj ks by blast
    then show ?thesis using eqs by (simp add: onWire_def msgAt_def Let_def)
  qed
  then have "concat (map (onWire env st1) ks') = concat (map (onWire env st) ks')"
    by (intro arg_cong [where f = concat] map_cong) simp_all
  then show ?thesis
    using a b frame_trans [OF fr] disj eqs(1) by (auto simp: fired_def)
qed

lemma firstIndexOf_None: "(firstIndexOf s xs = None) = (s \<notin> set xs)"
  by (induction xs) auto

lemma firstIndexOf_0: "(firstIndexOf s xs = Some 0) = (xs \<noteq> [] \<and> hd xs = s)"
  by (cases xs) auto

definition live_statuses :: "launchPadStatus list \<Rightarrow> bool" where
  "live_statuses statuses \<longleftrightarrow> set statuses \<subseteq> {READY, SENT}"

lemma picked_busy:
  assumes "launcher_inv st" "live_statuses statuses" "status (padOf st k) \<in> set statuses"
    "0 \<le> k" "k < QUEUE_LEN"
  shows "k < busy st" and "\<exists>p. pad_packet (padOf st k) = Some p \<and> 0 \<le> msgAt st k"
proof -
  show "k < busy st"
  proof (rule ccontr)
    assume "\<not> k < busy st"
    then have "status (padOf st k) = EMPTY \<or> status (padOf st k) = ACKED"
      using launcher_inv_D(11) [OF assms(1), of k] assms(5) by (simp add: vacant_def)
    with assms(2,3) show False by (auto simp: live_statuses_def)
  qed
  then show "\<exists>p. pad_packet (padOf st k) = Some p \<and> 0 \<le> msgAt st k"
    using launcher_inv_D(12) [OF assms(1), of k] assms(4) by (auto simp: msgAt_def)
qed

text \<open>One position of the loop, once the message to send is fixed.\<close>

lemma windowLoop_Cons:
  assumes inv: "launcher_inv st" and ls: "live_statuses statuses" and k: "0 \<le> k" "k < QUEUE_LEN"
    and b: "b = wbase st"
    and m': "m' = (if k = 0 \<and> firstIndexOf (status (padOf st k)) statuses = Some 0 then msgAt st k else m)"
  shows "\<exists>n1 st1. fired env st (filter (picked st statuses m') [k]) n1 st1
    \<and> windowLoop env statuses b ((b + k) # is) m n st = windowLoop env statuses b is m' (n + n1) st1"
proof (cases "status (padOf st k) \<in> set statuses")
  case False
  then have "firstIndexOf (status (padOf st k)) statuses = None" by (simp add: firstIndexOf_None)
  then show ?thesis
    using fired_Nil [OF inv] False k launcher_inv_D(4) [OF inv]
    by (auto simp: picked_def m' b padIndex_at Let_def intro!: exI [of _ 0] exI [of _ st])
next
  case True
  from picked_busy [OF inv ls True k] obtain p where kb: "k < busy st"
    and p: "pad_packet (padOf st k) = Some p" "msgAt st k = msgId (hdr p)" by (auto simp: msgAt_def)
  from True obtain j where j: "firstIndexOf (status (padOf st k)) statuses = Some j"
    using firstIndexOf_None by fastforce
  have pi: "padIndex st (b + k) = padOf st k"
    using k launcher_inv_D(4) [OF inv] by (simp add: b padIndex_at)
  have mm: "(if b + k = b \<and> j = 0 then msgId (hdr p) else m) = m'"
    using j p(2) by (auto simp: m')
  show ?thesis
  proof (cases "msgAt st k = m'")
    case False
    then show ?thesis
      using fired_Nil [OF inv] j p mm pi
      by (auto simp: picked_def Let_def intro!: exI [of _ 0] exI [of _ st])
  next
    case eq: True
    from fired_one [OF inv k(1) kb, of env] obtain r st1 where
      r: "fireLaunchPad (env (b + k)) st (b + k) = Some (r, st1)"
        "fired env st [k] (if 0 \<le> r then 1 else 0) st1" by (auto simp: b)
    have "windowLoop env statuses b ((b + k) # is) m n st =
        windowLoop env statuses b is m' (n + (if 0 \<le> r then 1 else 0)) st1"
      using j p mm pi eq r(1) by (simp add: Let_def)
    moreover have "filter (picked st statuses m') [k] = [k]" using eq True by (simp add: picked_def)
    ultimately show ?thesis using r(2) by metis
  qed
qed

lemma windowLoop_tail:
  assumes "launcher_inv st" "live_statuses statuses" "distinct ks"
    "\<forall>k\<in>set ks. 0 < k \<and> k < QUEUE_LEN" "b = wbase st"
  shows "\<exists>n1 st'. windowLoop env statuses b (map ((+) b) ks) m n st = Some (n + n1, st')
    \<and> fired env st (filter (picked st statuses m) ks) n1 st'"
  using assms
proof (induction ks arbitrary: st n)
  case Nil
  then show ?case using fired_Nil by (intro exI [of _ 0]) auto
next
  case (Cons k ks)
  have k: "0 \<le> k" "k < QUEUE_LEN" "k \<noteq> 0" "k \<notin> set ks" using Cons.prems by auto
  from windowLoop_Cons [OF Cons.prems(1,2) k(1,2) Cons.prems(5) refl, of env m "map ((+) b) ks" n] k(3)
  obtain n1 st1 where st1: "fired env st (filter (picked st statuses m) [k]) n1 st1"
    and wl: "windowLoop env statuses b (map ((+) b) (k # ks)) m n st =
      windowLoop env statuses b (map ((+) b) ks) m (n + n1) st1" by auto
  have fr: "frame st st1" "launcher_inv st1" using st1 by (simp_all add: fired_def)
  have pa: "padOf st1 j = padOf st j" if "j \<in> set ks" for j
  proof -
    have "0 \<le> j" "j < QUEUE_LEN" "j \<notin> set (filter (picked st statuses m) [k])"
      using that k(4) Cons.prems(4) by auto
    then show ?thesis using st1 unfolding fired_def by blast
  qed
  then have pk: "filter (picked st1 statuses m) ks = filter (picked st statuses m) ks"
    by (intro filter_cong) (simp_all add: picked_def msgAt_def)
  have "b = wbase st1" using Cons.prems(5) fr(1) by (simp add: frame_def)
  from Cons.IH [OF fr(2) Cons.prems(2) _ _ this, of "n + n1"] Cons.prems(3,4) obtain n2 st' where
    IH: "windowLoop env statuses b (map ((+) b) ks) m (n + n1) st1 = Some (n + n1 + n2, st')"
    "fired env st1 (filter (picked st statuses m) ks) n2 st'" by (auto simp: pk)
  have "fired env st (filter (picked st statuses m) [k] @ filter (picked st statuses m) ks) (n1 + n2) st'"
    using k(4) Cons.prems(4) by (intro fired_append [OF st1 IH(2)]) auto
  then show ?case using wl IH(1) by (auto simp: add.assoc intro!: exI [of _ "n1 + n2"] split: if_splits)
qed

lemma window_indexes:
  assumes inv: "launcher_inv st"
  shows "[wbase st..(if nextSeqNum (window (bs st)) < wbase st then nextSeqNum (window (bs st)) + QUEUE_LEN
      else nextSeqNum (window (bs st))) - 1] = map ((+) (wbase st)) [0..winsize (bs st) - 1]"
proof -
  note D = launcher_inv_D [OF inv]
  have "nextSeqNum (window (bs st)) = (wbase st + winsize (bs st)) mod QUEUE_LEN"
    using D(1) by (simp add: battery_inv_def window_inv_def)
  moreover have "(wbase st + winsize (bs st)) mod QUEUE_LEN =
      (if wbase st + winsize (bs st) < QUEUE_LEN then wbase st + winsize (bs st)
       else wbase st + winsize (bs st) - QUEUE_LEN)"
    using D by (intro ring_split) auto
  moreover have "[wbase st..wbase st + w - 1] = map ((+) (wbase st)) [0..w - 1]" for w
    by (rule nth_equalityI) auto
  ultimately show ?thesis using D by (auto simp: add.commute)
qed

text \<open>A pass fires exactly the selected pads, in ring order, and never fails; what it returns is
  the number of launches that succeeded.\<close>

lemma sendAllPacketsInWindowCore_fired:
  assumes inv: "launcher_inv st" and ls: "live_statuses statuses" "statuses \<noteq> []"
  shows "\<exists>n st'. sendAllPacketsInWindowCore env st statuses = Some (n, st')
    \<and> fired env st (selected st statuses) n st'"
proof -
  note D = launcher_inv_D [OF inv]
  let ?w = "winsize (bs st)" and ?b = "wbase st" and ?m = "msgAt st 0"
  let ?base = "status (padOf st 0) = hd statuses"
  let ?chosen = "if ?base then ?m else - 1"
  have ks: "[0..?w - 1] = 0 # [1..?w - 1]" using D(8) by (simp add: upto_rec1)
  have core: "sendAllPacketsInWindowCore env st statuses =
      windowLoop env statuses ?b (map ((+) ?b) (0 # [1..?w - 1])) (- 1) 0 st"
    using window_indexes [OF inv] unfolding ks by (simp add: sendAllPacketsInWindowCore_def Let_def)
  have m0: "?chosen = (if (0::int) = 0 \<and> firstIndexOf (status (padOf st 0)) statuses = Some 0
      then ?m else - 1)" using ls(2) by (auto simp: firstIndexOf_0)
  from windowLoop_Cons [OF inv ls(1) _ _ refl m0, of env "map ((+) ?b) [1..?w - 1]" 0]
  obtain n1 st1 where st1: "fired env st (filter (picked st statuses ?chosen) [0]) n1 st1"
    and wl: "windowLoop env statuses ?b (map ((+) ?b) (0 # [1..?w - 1])) (- 1) 0 st =
      windowLoop env statuses ?b (map ((+) ?b) [1..?w - 1]) ?chosen n1 st1" by auto
  have fr: "frame st st1" "launcher_inv st1" using st1 by (simp_all add: fired_def)
  have bb: "?b = wbase st1" using fr(1) by (simp add: frame_def)
  have pa: "padOf st1 j = padOf st j" if "j \<in> set [1..?w - 1]" for j
  proof -
    have "0 \<le> j" "j < QUEUE_LEN" "j \<notin> set (filter (picked st statuses ?chosen) [0])"
      using that D(9) by auto
    then show ?thesis using st1 unfolding fired_def by blast
  qed
  then have pk: "filter (picked st1 statuses ?chosen) [1..?w - 1] = filter (picked st statuses ?chosen) [1..?w - 1]"
    by (intro filter_cong) (simp_all add: picked_def msgAt_def)
  from windowLoop_tail [OF fr(2) ls(1) _ _ bb, of "[1..?w - 1]" env ?chosen n1] D(9)
  obtain n2 st' where tl: "windowLoop env statuses ?b (map ((+) ?b) [1..?w - 1]) ?chosen n1 st1 = Some (n1 + n2, st')"
    "fired env st1 (filter (picked st statuses ?chosen) [1..?w - 1]) n2 st'" by (auto simp: pk)
  have "fired env st (filter (picked st statuses ?chosen) [0] @ filter (picked st statuses ?chosen) [1..?w - 1]) (n1 + n2) st'"
    using D(9) by (intro fired_append [OF st1 tl(2)]) auto
  moreover have "filter (picked st statuses ?chosen) [0] @ filter (picked st statuses ?chosen) [1..?w - 1]
      = selected st statuses"
  proof -
    have "filter (picked st statuses (- 1)) [0..?w - 1] = []"
      using picked_busy(2) [OF inv ls(1)] D(9) by (fastforce simp: filter_empty_conv picked_def)
    then show ?thesis unfolding selected_def ks using ls(2) by (auto split: if_splits)
  qed
  ultimately show ?thesis using core wl tl(1) by auto
qed

lemma live_READY [simp]: "live_statuses [READY]" and live_SENT [simp]: "live_statuses [SENT]"
  and live_both [simp]: "live_statuses [READY, SENT]"
  by (simp_all add: live_statuses_def)

subsection \<open>The event handler\<close>

definition signals_ok :: "launcherState \<Rightarrow> bool" where
  "signals_ok st \<longleftrightarrow> 0 \<le> sigrtmin st \<and> sigrtmin st + 3 \<le> sigrtmax st"

lemma signalOf_eq: "signals_ok st \<Longrightarrow> signalOf st e = sigrtmin st + event_code e + 1"
  by (cases e) (simp_all add: signalOf_def signals_ok_def getSignalFromLauncherEvent_def
      checkRtSignal_def Let_def)

lemma signalOf_inject: "signals_ok st \<Longrightarrow> (signalOf st e = signalOf st f) = (e = f)"
  by (cases e; cases f) (simp_all add: signalOf_eq)

lemma launcher_inv_other [simp]:
  "launcher_inv (st\<lparr>ltimer := t\<rparr>) = launcher_inv st"
  "launcher_inv (st\<lparr>isLauncherAvailable := a\<rparr>) = launcher_inv st"
  "launcher_inv (st\<lparr>pending := q\<rparr>) = launcher_inv st"
  "launcher_inv (st\<lparr>eventsBlocked := eb\<rparr>) = launcher_inv st"
  "launcher_inv (st\<lparr>params := np\<rparr>) = launcher_inv st"
  by (simp_all add: launcher_inv_def)

lemma waiting_other [simp]:
  "waiting (st\<lparr>ltimer := t\<rparr>) = waiting st" "waiting (st\<lparr>isLauncherAvailable := a\<rparr>) = waiting st"
  "waiting (st\<lparr>pending := q\<rparr>) = waiting st" "waiting (st\<lparr>eventsBlocked := eb\<rparr>) = waiting st"
  "waiting (st\<lparr>sendTable := tb\<rparr>) = waiting st" "waiting (st\<lparr>ackBuf := ab\<rparr>) = waiting st"
  "waiting (st\<lparr>params := np\<rparr>) = waiting st" "waiting (st\<lparr>wire := w\<rparr>) = waiting st"
  by (simp_all add: waiting_def)

text \<open>Whatever the signal, the handler returns, keeps the invariant and the waiting packets.\<close>

lemma launcherSigHandler_inv:
  assumes "launcher_inv st"
  shows "\<exists>st'. launcherSigHandler env sig st = Some st' \<and> launcher_inv st' \<and> waiting st' = waiting st
    \<and> tableOf st' = tableOf st \<and> window (bs st') = window (bs st) \<and> winsize (bs st') = winsize (bs st)
    \<and> busy st' = busy st"
proof -
  have pass: "\<exists>n st'. sendAllPacketsInWindowCore env st [s] = Some (n, st') \<and> launcher_inv st'
      \<and> frame st st'" if "live_statuses [s]" for s
    using sendAllPacketsInWindowCore_fired [OF assms that, of env] by (auto simp: fired_def)
  from pass [of READY] obtain n st1 where r: "sendAllPacketsInWindowCore env st [READY] = Some (n, st1)"
    "launcher_inv st1" "frame st st1" by auto
  from pass [of SENT] obtain m st2 where t: "sendAllPacketsInWindowCore env st [SENT] = Some (m, st2)"
    "launcher_inv st2" "frame st st2" by auto
  show ?thesis
    using r t assms
    by (simp add: launcherSigHandler_def sendAllReadyPacketsInWindow_def
        sendAllSentPacketsInWindow_def frame_def used_def)
qed

lemma ltimer_self [simp]: "st\<lparr>ltimer := ltimer st\<rparr> = st"
  by (cases st) simp

text \<open>New packets: the ready packets of the base's message are launched, and the timer is
  started when it is not running and a launch succeeded.\<close>

lemma handler_new_packets:
  assumes "launcher_inv st" "signals_ok st"
  shows "\<exists>n st1. fired env st (selected st [READY]) n st1
    \<and> launcherSigHandler env (signalOf st LAUNCHER_EVENT_NEW_PACKETS_IN_SEND_WINDOW) st
        = Some (st1\<lparr>ltimer := (if 0 < n \<and> \<not> isAlive (ltimer st)
            then \<lparr>ring = True, isAlive = True, atTimeout = AT_TIMEOUT_RING_THEN_RESTART\<rparr>
            else ltimer st)\<rparr>)"
proof -
  from sendAllPacketsInWindowCore_fired [OF assms(1), of "[READY]" env] obtain n st1 where
    f: "sendAllPacketsInWindowCore env st [READY] = Some (n, st1)" "fired env st (selected st [READY]) n st1"
    by auto
  have "ltimer st1 = ltimer st" using f(2) by (simp add: fired_def frame_def)
  then show ?thesis using f
    by (auto simp: launcherSigHandler_def sendAllReadyPacketsInWindow_def startTimer_def
        intro!: exI [of _ n] exI [of _ st1])
qed

text \<open>A time-out: the sent packets of the base's message are launched again, and with none the
  timer is stopped.\<close>

lemma handler_timed_out:
  assumes "launcher_inv st" "signals_ok st"
  shows "\<exists>n st1. fired env st (selected st [SENT]) n st1
    \<and> launcherSigHandler env (signalOf st LAUNCHER_EVENT_PACKET_TIMED_OUT) st
        = Some (st1\<lparr>ltimer := (if n = 0 \<and> isAlive (ltimer st)
            then (ltimer st)\<lparr>atTimeout := AT_TIMEOUT_SHUTDOWN, isAlive := False\<rparr> else ltimer st)\<rparr>)"
proof -
  from sendAllPacketsInWindowCore_fired [OF assms(1), of "[SENT]" env] obtain n st1 where
    f: "sendAllPacketsInWindowCore env st [SENT] = Some (n, st1)" "fired env st (selected st [SENT]) n st1"
    by auto
  have "ltimer st1 = ltimer st" using f(2) by (simp add: fired_def frame_def)
  then show ?thesis using f
    by (auto simp: launcherSigHandler_def sendAllSentPacketsInWindow_def stopTimer_def timeout_def
        timerRound_def signalOf_inject [OF assms(2)] intro!: exI [of _ n] exI [of _ st1])
qed

subsection \<open>The acknowledgement listener\<close>

definition ackDistance :: "launcherState \<Rightarrow> packet \<Rightarrow> int" where
  "ackDistance st ack = (if index (hdr ack) < wbase st then index (hdr ack) + QUEUE_LEN
     else index (hdr ack)) - wbase st"

lemma ackLoop_outside:
  "\<not> isInWindow (window (bs st)) (a - 1) \<Longrightarrow> ackLoop now a is n st = (n, st)"
  by (induction "is" arbitrary: n) (simp_all add: Let_def)

definition markAcked :: "launchPad \<Rightarrow> launchPad" where
  "markAcked p = p\<lparr>status := ACKED\<rparr>"

lemma ackLoop_inside:
  assumes "isInWindow (window (bs st)) (a - 1)" "b = wbase st" "0 \<le> wbase st"
    and "distinct ks" "\<forall>k\<in>set ks. 0 \<le> k \<and> k < QUEUE_LEN \<and> status (padOf st k) \<noteq> ACKED"
  shows "\<exists>s'. ackLoop now a (map ((+) b) ks) n st = (n + int (length ks),
      st\<lparr>bs := s', params := sampleAll (params st) (map (\<lambda>k. sampleRttOf (now (b + k)) (padOf st k)) ks)\<rparr>)
    \<and> window s' = window (bs st) \<and> winsize s' = winsize (bs st)
    \<and> nextAvailableIndex (battery s') = nextAvailableIndex (battery (bs st))
    \<and> used (battery s') = busy st - int (length ks)
    \<and> (\<forall>j. 0 \<le> j \<and> j < QUEUE_LEN \<longrightarrow>
        pad_at s' j = (if j \<in> set ks then markAcked (padOf st j) else padOf st j))"
  using assms
proof (induction ks arbitrary: st n)
  case Nil
  then show ?case by (auto simp: sampleAll_def intro!: exI [of _ "bs st"])
next
  case (Cons k ks)
  have k: "0 \<le> k" "k < QUEUE_LEN" "k \<notin> set ks" "status (padOf st k) \<noteq> ACKED" using Cons.prems by auto
  define st1 where "st1 = setPad st (b + k) (markAcked (padOf st k))"
  define st2 where "st2 = st1\<lparr>bs := (bs st1)\<lparr>battery := updateContiguousPads (battery (bs st1)) 1\<rparr>\<rparr>"
  define st3 where "st3 = st2\<lparr>params := updateEstimatedRtt (params st2) (sampleRttOf (now (b + k)) (padOf st k))\<rparr>"
  have pi: "padIndex st (b + k) = padOf st k" using Cons.prems(2,3) k by (simp add: padIndex_at)
  have step: "ackLoop now a (map ((+) b) (k # ks)) n st = ackLoop now a (map ((+) b) ks) (n + 1) st3"
    using Cons.prems(1) k(4) pi by (simp add: st3_def st2_def st1_def markAcked_def Let_def)
  have pa: "padOf st3 j = (if j = k then markAcked (padOf st k) else padOf st j)"
    if "0 \<le> j" "j < QUEUE_LEN" for j
    using pad_at_setPad [OF Cons.prems(3) k(1,2) that] Cons.prems(2)
    by (simp add: st3_def st2_def st1_def updateContiguousPads_def pad_at_def)
  have w3: "window (bs st3) = window (bs st)" by (simp add: st3_def st2_def st1_def)
  have p: "\<forall>j\<in>set ks. 0 \<le> j \<and> j < QUEUE_LEN \<and> status (padOf st3 j) \<noteq> ACKED"
    using Cons.prems(5) pa k(3) by auto
  have smp: "map (\<lambda>k. sampleRttOf (now (b + k)) (padOf st3 k)) ks
      = map (\<lambda>k. sampleRttOf (now (b + k)) (padOf st k)) ks"
    using p pa k(3) by auto
  have "params st3 = updateEstimatedRtt (params st) (sampleRttOf (now (b + k)) (padOf st k))"
    by (simp add: st3_def st2_def st1_def)
  then have par: "sampleAll (params st3) (map (\<lambda>k. sampleRttOf (now (b + k)) (padOf st3 k)) ks)
      = sampleAll (params st) (map (\<lambda>k. sampleRttOf (now (b + k)) (padOf st k)) (k # ks))"
    unfolding smp by (simp add: sampleAll_def)
  have bsy: "busy st3 = busy st - 1" "winsize (bs st3) = winsize (bs st)"
    "nextAvailableIndex (battery (bs st3)) = nextAvailableIndex (battery (bs st))"
    by (simp_all add: st3_def st2_def st1_def used_def updateContiguousPads_def)
  have upd: "st3\<lparr>bs := x, params := y\<rparr> = st\<lparr>bs := x, params := y\<rparr>" for x y
    by (simp add: st3_def st2_def st1_def setPad_def)
  from Cons.IH [of st3 "n + 1"] Cons.prems w3 p obtain s' where
    "ackLoop now a (map ((+) b) ks) (n + 1) st3 = (n + 1 + int (length ks),
      st3\<lparr>bs := s', params := sampleAll (params st3) (map (\<lambda>k. sampleRttOf (now (b + k)) (padOf st3 k)) ks)\<rparr>)"
    "window s' = window (bs st3)" "winsize s' = winsize (bs st3)"
    "nextAvailableIndex (battery s') = nextAvailableIndex (battery (bs st3))"
    "used (battery s') = busy st3 - int (length ks)"
    "\<And>j. 0 \<le> j \<and> j < QUEUE_LEN \<Longrightarrow>
        pad_at s' j = (if j \<in> set ks then markAcked (padOf st3 j) else padOf st3 j)"
    by auto
  with step par upd w3 bsy pa k(3) show ?case by (intro exI [of _ s']) auto
qed

text \<open>Only an acknowledgement of one to \<open>winsize\<close> packets from the base, not past the end of
  the ring, has an effect.\<close>

definition ackAccepted :: "launcherState \<Rightarrow> packet \<Rightarrow> bool" where
  "ackAccepted st ack \<longleftrightarrow> 1 \<le> ackDistance st ack \<and> ackDistance st ack \<le> winsize (bs st)
     \<and> wbase st + ackDistance st ack \<le> QUEUE_LEN"

lemma inWindow_ack:
  assumes w: "window_inv (window (bs st)) (winsize (bs st))" and d: "1 \<le> d"
  shows "isInWindow (window (bs st)) (wbase st + d - 1) =
    (d \<le> winsize (bs st) \<and> wbase st + d \<le> QUEUE_LEN)"
proof (cases "wbase st + d \<le> QUEUE_LEN")
  case True
  have b: "0 \<le> wbase st" using w by (simp add: window_inv_def)
  have "(wbase st + d - 1 - wbase st) mod QUEUE_LEN = d - 1"
    using True d b by (simp add: mod_pos_pos_trivial)
  then show ?thesis using isInWindow_iff [OF w, of "wbase st + d - 1"] True d b by auto
next
  case False
  then show ?thesis using isInWindow_range [OF w, of "wbase st + d - 1"] by auto
qed

lemma processAck_ignored:
  assumes inv: "launcher_inv st" and no: "\<not> ackAccepted st ack"
  shows "processAck now ack st = Some st"
proof -
  let ?d = "ackDistance st ack"
  have w: "window_inv (window (bs st)) (winsize (bs st))"
    using launcher_inv_D(1) [OF inv] by (simp add: battery_inv_def)
  have a: "(if index (hdr ack) < wbase st then index (hdr ack) + QUEUE_LEN else index (hdr ack))
      = wbase st + ?d" by (simp add: ackDistance_def)
  have "ackLoop now (wbase st + ?d) [wbase st..wbase st + ?d - 1] 0 st = (0, st)"
  proof (cases "1 \<le> ?d")
    case True
    then show ?thesis using inWindow_ack [OF w True] no by (simp add: ackAccepted_def ackLoop_outside)
  qed simp
  then show ?thesis using a by (simp add: processAck_def Let_def)
qed

lemma battery_slide:
  assumes inv: "battery_inv s" and d: "1 \<le> d" "d \<le> used (battery s)"
    and s': "window s' = window s" "winsize s' = winsize s"
      "nextAvailableIndex (battery s') = nextAvailableIndex (battery s)"
      "used (battery s') = used (battery s) - d"
    and pads: "\<forall>j. 0 \<le> j \<and> j < QUEUE_LEN \<longrightarrow>
      pad_at s' j = (if j < d then markAcked (pad_at s j) else pad_at s j)"
    and w: "w = \<lparr>base = (base (window s) + d) mod QUEUE_LEN,
      nextSeqNum = ((base (window s) + d) mod QUEUE_LEN + winsize s) mod QUEUE_LEN\<rparr>"
  shows "battery_inv (s'\<lparr>window := w\<rparr>)"
    and "0 \<le> k \<Longrightarrow> k < used (battery s) - d \<Longrightarrow> pad_at (s'\<lparr>window := w\<rparr>) k = pad_at s (d + k)"
    and "queue (s'\<lparr>window := w\<rparr>) = drop (nat d) (queue s)"
proof -
  let ?s = "s'\<lparr>window := w\<rparr>" and ?b = "base (window s)" and ?u = "used (battery s)"
  note pa = pads [rule_format, OF conjI]
  have u: "0 \<le> ?u" "?u \<le> QUEUE_LEN" using inv by (simp_all add: battery_inv_def)
  have pos: "(base w + k) mod QUEUE_LEN = (?b + (d + k)) mod QUEUE_LEN" for k
    by (simp add: w mod_add_left_eq add.assoc)
  have shift: "pad_at ?s k = pad_at s' (d + k)" for k
    using pos s'(1) by (simp add: pad_at_def)
  have low: "pad_at ?s k = pad_at s (d + k)" if "0 \<le> k" "d + k < QUEUE_LEN" for k
    using shift [of k] pa [of "d + k"] that d(1) by simp
  have high: "pad_at ?s k = markAcked (pad_at s (d + k - QUEUE_LEN))"
    if "k < QUEUE_LEN" "QUEUE_LEN \<le> d + k" for k
  proof -
    have "pad_at s' (d + k) = pad_at s' (d + k - QUEUE_LEN)"
      using mod_add_self2 [of "base (window s') + (d + k - QUEUE_LEN)" QUEUE_LEN]
      by (simp add: pad_at_def)
    then show ?thesis using shift [of k] pa [of "d + k - QUEUE_LEN"] that d u by simp
  qed
  show keep: "pad_at ?s k = pad_at s (d + k)" if "0 \<le> k" "k < ?u - d" for k
    using low that u by simp
  have "loaded ((base w + k) mod QUEUE_LEN) (pad_at ?s k)" if "0 \<le> k" "k < ?u - d" for k
    using keep [OF that] inv that d pos by (simp add: battery_inv_def)
  moreover have "vacant (pad_at ?s k)" if "?u - d \<le> k" "k < QUEUE_LEN" for k
  proof (cases "d + k < QUEUE_LEN")
    case True
    then show ?thesis using low [of k] inv that d by (simp add: battery_inv_def)
  next
    case False
    then show ?thesis using high [of k] that by (simp add: vacant_def markAcked_def)
  qed
  moreover have "(base w + (?u - d)) mod QUEUE_LEN = (?b + ?u) mod QUEUE_LEN"
    using pos [of "?u - d"] by simp
  moreover have "window_inv w (winsize s)"
    using inv by (simp add: w battery_inv_def window_inv_def)
  ultimately show "battery_inv ?s"
    using inv s' d u by (simp add: battery_inv_def)
  have "map (\<lambda>k. the (pad_packet (pad_at ?s (int k)))) [0..<nat (?u - d)]
      = map (\<lambda>k. the (pad_packet (pad_at s (int k)))) (drop (nat d) [0..<nat ?u])"
    using d u by (intro nth_equalityI) (auto simp: keep nat_diff_distrib)
  then show "queue ?s = drop (nat d) (queue s)" using s'(4) by (simp add: queue_def drop_map)
qed

text \<open>The acknowledgement speaks of a packet that was sent, and ends its message only if it is
  past all packets of it.\<close>

definition ackHonest :: "launcherState \<Rightarrow> packet \<Rightarrow> bool" where
  "ackHonest st ack \<longleftrightarrow> wf_packet ack \<and> ackDistance st ack \<le> busy st
     \<and> (ackDistance st ack + wbase st = c_rem (wrap32 (endIndex (hdr ack) + 1)) QUEUE_LEN \<longrightarrow>
        (\<forall>k. ackDistance st ack \<le> k \<and> k < busy st \<longrightarrow> msgAt st k \<noteq> msgId (hdr ack)))"

definition endsMessage :: "launcherState \<Rightarrow> packet \<Rightarrow> bool" where
  "endsMessage st ack \<longleftrightarrow> wbase st + ackDistance st ack = c_rem (wrap32 (endIndex (hdr ack) + 1)) QUEUE_LEN"

text \<open>What an accepted acknowledgement of \<open>d\<close> packets does to the state.\<close>

definition slid :: "(int \<Rightarrow> timespec) \<Rightarrow> packet \<Rightarrow> launcherState \<Rightarrow> launcherState \<Rightarrow> bool" where
  "slid now ack st st' \<longleftrightarrow> (let d = ackDistance st ack in
     wbase st' = (wbase st + d) mod QUEUE_LEN \<and> winsize (bs st') = winsize (bs st)
     \<and> busy st' = busy st - d \<and> waiting st' = drop (nat d) (waiting st)
     \<and> (\<forall>k. 0 \<le> k \<and> k < busy st - d \<longrightarrow> padOf st' k = padOf st (d + k))
     \<and> (\<forall>i. c_int i \<longrightarrow> tableOf st' i =
          (if endsMessage st ack then (tableOf st)(msgId (hdr ack) := None) else tableOf st) i)
     \<and> params st' = sampleAll (params st)
          (map (\<lambda>k. sampleRttOf (now (wbase st + k)) (padOf st k)) [0..d - 1])
     \<and> ltimer st' = (if isAlive (ltimer st) then timeout (ltimer st) AT_TIMEOUT_RESTART else ltimer st)
     \<and> pending st' = pending (snd (notifyLauncher LAUNCHER_EVENT_NEW_PACKETS_IN_SEND_WINDOW st))
     \<and> wire st' = wire st \<and> listenPort st' = listenPort st \<and> ackBuf st' = ackBuf st
     \<and> sigrtmin st' = sigrtmin st \<and> sigrtmax st' = sigrtmax st
     \<and> isLauncherAvailable st' = isLauncherAvailable st \<and> eventsBlocked st' = eventsBlocked st)"

lemma notify_bs [simp]:
  "bs (snd (notifyLauncher e st)) = bs st" "sendTable (snd (notifyLauncher e st)) = sendTable st"
  "params (snd (notifyLauncher e st)) = params st" "ltimer (snd (notifyLauncher e st)) = ltimer st"
  "wire (snd (notifyLauncher e st)) = wire st" "ackBuf (snd (notifyLauncher e st)) = ackBuf st"
  "listenPort (snd (notifyLauncher e st)) = listenPort st"
  "sigrtmin (snd (notifyLauncher e st)) = sigrtmin st" "sigrtmax (snd (notifyLauncher e st)) = sigrtmax st"
  "isLauncherAvailable (snd (notifyLauncher e st)) = isLauncherAvailable st"
  "eventsBlocked (snd (notifyLauncher e st)) = eventsBlocked st"
  by (simp_all add: notifyLauncher_def)

lemma notify_pending:
  assumes "isLauncherAvailable st' = isLauncherAvailable st" "pending st' = pending st"
    "sigrtmin st' = sigrtmin st" "sigrtmax st' = sigrtmax st"
  shows "pending (snd (notifyLauncher e st')) = pending (snd (notifyLauncher e st))"
  using assms by (simp add: notifyLauncher_def getLauncherId_def signalOf_def)

lemma slideWindow_eq:
  assumes "(if a = c_rem (wrap32 (endIndex (hdr ack) + 1)) QUEUE_LEN
      then removeFromSortingTable (sendTable st) (msgId (hdr ack)) else Some (sendTable st)) = Some t"
  shows "slideWindow ack a st = Some (snd (notifyLauncher LAUNCHER_EVENT_NEW_PACKETS_IN_SEND_WINDOW
    (st\<lparr>sendTable := t,
       ltimer := (if isAlive (ltimer st) then timeout (ltimer st) AT_TIMEOUT_RESTART else ltimer st),
       bs := (bs st)\<lparr>window := \<lparr>base = c_rem a QUEUE_LEN,
         nextSeqNum = c_rem (c_rem a QUEUE_LEN + winsize (bs st)) QUEUE_LEN\<rparr>\<rparr>\<rparr>)))"
proof (cases "isAlive (ltimer st)")
  case True
  then show ?thesis using assms by (simp add: slideWindow_def Let_def)
next
  case False
  have "st\<lparr>sendTable := t, ltimer := ltimer st\<rparr> = st\<lparr>sendTable := t\<rparr>" by (cases st) simp
  with False show ?thesis using assms by (simp add: slideWindow_def Let_def)
qed

text \<open>The loop over the acknowledged indexes releases the \<open>d\<close> oldest pads and samples each.\<close>

lemma processAck_loop:
  assumes inv: "launcher_inv st" and acc: "ackAccepted st ack" and hon: "ackHonest st ack"
    and d_def: "d = ackDistance st ack"
  shows "\<exists>s'. ackLoop now (wbase st + d) [wbase st..wbase st + d - 1] 0 st = (d,
      st\<lparr>bs := s', params := sampleAll (params st)
        (map (\<lambda>k. sampleRttOf (now (wbase st + k)) (padOf st k)) [0..d - 1])\<rparr>)
    \<and> window s' = window (bs st) \<and> winsize s' = winsize (bs st)
    \<and> nextAvailableIndex (battery s') = nextAvailableIndex (battery (bs st))
    \<and> used (battery s') = busy st - d
    \<and> (\<forall>j. 0 \<le> j \<and> j < QUEUE_LEN \<longrightarrow> pad_at s' j = (if j < d then markAcked (padOf st j) else padOf st j))"
proof -
  note D = launcher_inv_D [OF inv]
  let ?b = "wbase st" and ?a = "wbase st + d"
  have d: "1 \<le> d" "d \<le> winsize (bs st)" "?b + d \<le> QUEUE_LEN" "d \<le> busy st"
    using acc hon by (auto simp: ackAccepted_def ackHonest_def d_def)
  have win: "isInWindow (window (bs st)) (?a - 1)"
    using inWindow_ack [OF _ d(1), of st] d D(1) by (simp add: battery_inv_def)
  have "status (padOf st k) \<noteq> ACKED" if "0 \<le> k" "k < d" for k
    using D(10) [of k] that d(4) by (auto simp: loaded_def)
  then have ks: "distinct [0..d - 1]" "\<forall>k\<in>set [0..d - 1]. 0 \<le> k \<and> k < QUEUE_LEN \<and> status (padOf st k) \<noteq> ACKED"
    using D(7) d(4) by auto
  have up: "[?b..?a - 1] = map ((+) ?b) [0..d - 1]" by (rule nth_equalityI) auto
  from ackLoop_inside [OF win refl D(4) ks, of now 0] d(1) show ?thesis unfolding up by auto
qed

text \<open>Dropping the entry of a message that ended leaves every packet still waiting with its entry.\<close>

lemma waiting_registered:
  assumes inv: "launcher_inv st" and hon: "ackHonest st ack" and d: "d = ackDistance st ack" "0 \<le> d"
    and t: "\<And>i. c_int i \<Longrightarrow> sorting_lookup t i =
        (if endsMessage st ack then (tableOf st)(msgId (hdr ack) := None) else tableOf st) i"
    and k: "d \<le> k" "k < busy st"
  shows "\<exists>p. pad_packet (padOf st k) = Some p \<and> 0 \<le> msgId (hdr p) \<and> sorting_lookup t (msgId (hdr p)) \<noteq> None"
proof -
  note D = launcher_inv_D [OF inv]
  from D(12) [of k] k d(2) obtain p where p: "pad_packet (padOf st k) = Some p"
    "0 \<le> msgId (hdr p)" "tableOf st (msgId (hdr p)) \<noteq> None" by auto
  have "wf_packet p" using D(10) [of k] k d(2) p(1) by (auto simp: loaded_def)
  then have "c_int (msgId (hdr p))" by (simp add: wf_packet_def wf_header_def)
  moreover have "endsMessage st ack \<longrightarrow> msgId (hdr p) \<noteq> msgId (hdr ack)"
    using hon k p(1) by (auto simp: ackHonest_def endsMessage_def d(1) add.commute msgAt_def)
  ultimately show ?thesis using p t by auto
qed

text \<open>An accepted and honest acknowledgement removes exactly the acknowledged packets from the
  waiting list, moves the window, and drops the table entry of a message that ended.\<close>

lemma processAck_slides:
  assumes inv: "launcher_inv st" and acc: "ackAccepted st ack" and hon: "ackHonest st ack"
  shows "\<exists>st'. processAck now ack st = Some st' \<and> launcher_inv st' \<and> slid now ack st st'"
proof -
  note D = launcher_inv_D [OF inv]
  define d where "d = ackDistance st ack"
  let ?b = "wbase st" and ?a = "wbase st + d" and ?mid = "msgId (hdr ack)"
  have d: "1 \<le> d" "d \<le> busy st" using acc hon by (auto simp: ackAccepted_def ackHonest_def d_def)
  have a: "(if index (hdr ack) < ?b then index (hdr ack) + QUEUE_LEN else index (hdr ack)) = ?a"
    by (simp add: ackDistance_def d_def)
  have mid: "c_int ?mid" using hon by (simp add: ackHonest_def wf_packet_def wf_header_def)
  from processAck_loop [OF inv acc hon d_def] obtain s' where
    loop: "ackLoop now ?a [?b..?a - 1] 0 st = (d,
      st\<lparr>bs := s', params := sampleAll (params st) (map (\<lambda>k. sampleRttOf (now (?b + k)) (padOf st k)) [0..d - 1])\<rparr>)"
    (is "_ = (d, ?st1)")
    and s': "window s' = window (bs st)" "winsize s' = winsize (bs st)"
      "nextAvailableIndex (battery s') = nextAvailableIndex (battery (bs st))"
      "used (battery s') = busy st - d"
    and pa: "\<forall>j. 0 \<le> j \<and> j < QUEUE_LEN \<longrightarrow>
      pad_at s' j = (if j < d then markAcked (padOf st j) else padOf st j)" by blast
  define w where "w = \<lparr>base = ?a mod QUEUE_LEN, nextSeqNum = (?a mod QUEUE_LEN + winsize (bs st)) mod QUEUE_LEN\<rparr>"
  note slide = battery_slide [OF D(1) d s' pa w_def [unfolded s'(2)]]
  obtain t where t: "(if endsMessage st ack then removeFromSortingTable (sendTable st) ?mid else Some (sendTable st)) = Some t"
    "sorting_inv t" "\<And>i. c_int i \<Longrightarrow> sorting_lookup t i =
          (if endsMessage st ack then (tableOf st)(?mid := None) else tableOf st) i"
    using send_table.remove_key [OF D(2) mid] D(2) by (cases "endsMessage st ack") auto
  define st3 where "st3 = ?st1\<lparr>sendTable := t,
    ltimer := (if isAlive (ltimer ?st1) then timeout (ltimer ?st1) AT_TIMEOUT_RESTART else ltimer ?st1),
    bs := (bs ?st1)\<lparr>window := w\<rparr>\<rparr>"
  let ?st' = "snd (notifyLauncher LAUNCHER_EVENT_NEW_PACKETS_IN_SEND_WINDOW st3)"
  have wq: "\<lparr>base = c_rem ?a QUEUE_LEN,
      nextSeqNum = c_rem (c_rem ?a QUEUE_LEN + winsize (bs ?st1)) QUEUE_LEN\<rparr> = w"
    using D(4,8) d(1) s'(2) by (simp add: w_def c_simps)
  have "slideWindow ack ?a ?st1 = Some ?st'"
    using slideWindow_eq [of ?a ack ?st1 t] t(1) unfolding wq st3_def
    by (simp add: endsMessage_def d_def [symmetric] split: if_splits)
  then have proc: "processAck now ack st = Some ?st'"
    using loop a d(1) by (simp add: processAck_def Let_def)
  have bs3: "bs ?st' = s'\<lparr>window := w\<rparr>" "sendTable ?st' = t" by (simp_all add: st3_def)
  have keep: "padOf ?st' k = padOf st (d + k)" if "0 \<le> k" "k < busy st - d" for k
    using slide(2) [OF that] bs3 by simp
  have "launcher_inv ?st'"
    using slide(1) t(2) D(3) bs3 s'(4) keep waiting_registered [OF inv hon d_def _ t(3)] d(1)
    by (simp add: launcher_inv_def st3_def)
  moreover have "pending ?st' = pending (snd (notifyLauncher LAUNCHER_EVENT_NEW_PACKETS_IN_SEND_WINDOW st))"
    by (rule notify_pending) (simp_all add: st3_def)
  then have "slid now ack st ?st'"
    using keep slide(3) t(3) bs3 s'(2,4)
    by (simp add: slid_def d_def [symmetric] Let_def waiting_def drop_map st3_def w_def)
  ultimately show ?thesis using proc by blast
qed

subsection \<open>Datagrams at the listener\<close>

definition received :: "byte list \<Rightarrow> launcherState \<Rightarrow> launcherState" where
  "received buf st = st\<lparr>ackBuf := buf, eventsBlocked := True\<rparr>"

lemma received_simps [simp]:
  "bs (received buf st) = bs st" "sendTable (received buf st) = sendTable st"
  "params (received buf st) = params st" "ltimer (received buf st) = ltimer st"
  "wire (received buf st) = wire st" "ackBuf (received buf st) = buf"
  "listenPort (received buf st) = listenPort st" "pending (received buf st) = pending st"
  "eventsBlocked (received buf st) = True" "waiting (received buf st) = waiting st"
  "ackDistance (received buf st) ack = ackDistance st ack"
  "ackAccepted (received buf st) ack = ackAccepted st ack"
  "ackHonest (received buf st) ack = ackHonest st ack"
  "endsMessage (received buf st) ack = endsMessage st ack"
  by (simp_all add: received_def ackDistance_def ackAccepted_def ackHonest_def endsMessage_def msgAt_def)

lemma launcher_inv_received:
  "launcher_inv st \<Longrightarrow> length buf = 24 \<Longrightarrow> launcher_inv (received buf st)"
  by (simp add: launcher_inv_def received_def)

lemma overwrite_full: "length xs = length buf \<Longrightarrow> overwrite buf xs = xs"
  by (simp add: overwrite_def)

text \<open>A datagram of the size of an acknowledgement fills the buffer.\<close>

lemma listenForAcksStep_packet:
  assumes inv: "launcher_inv st" and wf: "wf_packet p" and d: "data p = []"
  shows "listenForAcksStep now (wire_bytes p) st =
    (if isAck (hdr p)
     then map_option (\<lambda>s. s\<lparr>eventsBlocked := False\<rparr>) (processAck now p (received (wire_bytes p) st))
     else Some (received (wire_bytes p) st))"
proof -
  have "length (wire_bytes p) = 24" using d by (simp add: wire_bytes_def)
  moreover from this have "overwrite (ackBuf st) (wire_bytes p) = wire_bytes p"
    using launcher_inv_D(3) [OF inv] by (simp add: overwrite_full)
  moreover have "deserializePacket (wire_bytes p) = Some p"
    using deserialize_serialize_prefix [OF wf, of "wire_bytes p" "[]"]
    by (simp add: serialize_wire [OF wf])
  ultimately show ?thesis
    by (cases "processAck now p (received (wire_bytes p) st)")
      (simp_all add: listenForAcksStep_def calcAckSize_def calcHeaderSize_def received_def)
qed

text \<open>A header that announces data makes the listener read past its buffer.\<close>

lemma listenForAcksStep_overread:
  assumes inv: "launcher_inv st" and wf: "wf_header h" and d: "dataLen h \<noteq> 0"
  shows "listenForAcksStep now (header_bytes h @ rest) st = None"
proof -
  have "overwrite (ackBuf st) (header_bytes h) = header_bytes h"
    using launcher_inv_D(3) [OF inv] by (simp add: overwrite_full)
  moreover have "deserializePacket (header_bytes h) = None"
    using wf d header_peeks [of "header_bytes h" h "[]"]
    by (auto simp: deserializePacket_def wf_header_def bytes_int_bytes peek_def)
  ultimately show ?thesis
    by (simp add: listenForAcksStep_def calcAckSize_def calcHeaderSize_def)
qed

text \<open>An acknowledgement from a stranger, with an empty ring.\<close>

lemma processAck_forged:
  assumes inv: "launcher_inv st" and bsy: "busy st = 0" and acc: "ackAccepted st ack"
    and d: "ackDistance st ack = 1" and e: "status (padOf st 0) = EMPTY" and wf: "wf_packet ack"
  shows "\<exists>st'. processAck now ack st = Some st'
    \<and> contiguousPadsAvailable (battery (bs st')) = QUEUE_LEN + 1"
proof -
  note D = launcher_inv_D [OF inv]
  have a: "(if index (hdr ack) < wbase st then index (hdr ack) + QUEUE_LEN else index (hdr ack))
      = wbase st + 1" using d by (simp add: ackDistance_def)
  have "isInWindow (window (bs st)) (wbase st + 1 - 1)"
    using inWindow_ack [of st 1] D(1) acc d by (simp add: ackAccepted_def battery_inv_def)
  from ackLoop_inside [OF this refl D(4), of "[0]" now 0] e obtain s' where
    loop: "ackLoop now (wbase st + 1) [wbase st..wbase st + 1 - 1] 0 st = (1,
      st\<lparr>bs := s', params := sampleAll (params st) [sampleRttOf (now (wbase st)) (padOf st 0)]\<rparr>)"
    and u: "used (battery s') = - 1" using bsy by auto
  let ?st1 = "st\<lparr>bs := s', params := sampleAll (params st) [sampleRttOf (now (wbase st)) (padOf st 0)]\<rparr>"
  have "c_int (msgId (hdr ack))" using wf by (simp add: wf_packet_def wf_header_def)
  from send_table.remove_key [OF D(2) this] obtain t where
    "removeFromSortingTable (sendTable st) (msgId (hdr ack)) = Some t" by blast
  then obtain t' where "(if wbase st + 1 = c_rem (wrap32 (endIndex (hdr ack) + 1)) QUEUE_LEN
      then removeFromSortingTable (sendTable ?st1) (msgId (hdr ack)) else Some (sendTable ?st1)) = Some t'"
    by (cases "wbase st + 1 = c_rem (wrap32 (endIndex (hdr ack) + 1)) QUEUE_LEN") auto
  from slideWindow_eq [OF this] loop u a show ?thesis
    by (auto simp: processAck_def Let_def used_def)
qed

end
