(* ===== verification/Catcher.thy ===== *)
theory Catcher
  imports LaunchBattery SortingTable "HOL-Library.Sublist"
begin

text \<open>
  The receiver of gbn/catcher.c. \<open>listenForDataStep\<close> is what one datagram does, as a function
  of the state of \<open>listenForData\<close>: its receive buffer, the message buffer with its write
  position, the expected index, and the acknowledgements sent. \<open>listenLoop\<close> is the loop on a
  sequence of what \<open>recvfrom\<close> gives. The reference for one message is \<open>recvSpec\<close>: the number of
  packets of the message that arrived in order; the loop is proved to implement it on every
  sequence of packets of the message, lost, repeated and reordered ones included.
\<close>

subsection \<open>State and operations\<close>

record catcherState =
  byteBuf :: "byte list"
  msgBuf :: "byte list"
  msgSize :: int
  currentByteIndex :: int
  expectedSeqNum :: int
  morePackets :: bool
  senderAddrBuf :: sockaddr_in
  connectedTo :: "sockaddr_in option"
  sendAckAddr :: "sockaddr_in option"
  acks :: "(sockaddr_in \<times> byte list) list"

definition zeroAddr :: sockaddr_in where
  "zeroAddr = \<lparr>sin_addr = 0, sin_port = 0\<rparr>"

definition listenForDataInit :: catcherState where
  "listenForDataInit = \<lparr>byteBuf = replicate (nat MTU) 0, msgBuf = [], msgSize = 0,
     currentByteIndex = 0, expectedSeqNum = - 1, morePackets = True, senderAddrBuf = zeroAddr,
     connectedTo = None, sendAckAddr = None, acks = []\<rparr>"

text \<open>The buffer grown by \<open>reallocarray\<close>, with the bytes written at an offset.\<close>

definition writeAt :: "byte list \<Rightarrow> nat \<Rightarrow> byte list \<Rightarrow> byte list" where
  "writeAt buf off d = take off buf @ d @ drop (off + length d) buf"

definition growBuf :: "byte list \<Rightarrow> nat \<Rightarrow> byte list" where
  "growBuf buf n = take n buf @ replicate (n - length buf) 0"

text \<open>The first packet: the sender is now known, and so is where to send acknowledgements.\<close>

definition startReception :: "packet \<Rightarrow> catcherState \<Rightarrow> catcherState" where
  "startReception packet st = st\<lparr>connectedTo := Some (senderAddrBuf st),
     sendAckAddr := Some ((senderAddrBuf st)\<lparr>sin_port := ackPort (hdr packet)\<rparr>)\<rparr>"

text \<open>A packet in order. The modulus is that of the packet, zero is a division by zero.\<close>

definition acceptPacket :: "packet \<Rightarrow> catcherState \<Rightarrow> catcherState option" where
  "acceptPacket packet st =
     (let st1 = (if expectedSeqNum st = - 1 \<and> isFirst (hdr packet) then startReception packet st else st);
          newSize = msgSize st1 + dataLen (hdr packet)
      in if \<not> c_int newSize \<or> queueLen (hdr packet) = 0 then None
         else Some (st1\<lparr>
           msgBuf := writeAt (growBuf (msgBuf st1) (nat newSize)) (nat (currentByteIndex st1)) (data packet),
           currentByteIndex := currentByteIndex st1 + dataLen (hdr packet),
           msgSize := newSize,
           expectedSeqNum := c_rem (wrap32 (index (hdr packet) + 1)) (queueLen (hdr packet)),
           morePackets := (index (hdr packet) \<noteq> endIndex (hdr packet))\<rparr>))"

definition ackFor :: "packet \<Rightarrow> int \<Rightarrow> packet" where
  "ackFor packet expected = newPacket\<lparr>hdr := (hdr newPacket)\<lparr>isAck := True, index := expected,
     endIndex := endIndex (hdr packet), msgId := msgId (hdr packet)\<rparr>\<rparr>"

text \<open>Without a first packet the socket of the acknowledgements is an uninitialised variable.\<close>

definition sendAck :: "packet \<Rightarrow> catcherState \<Rightarrow> catcherState option" where
  "sendAck packet st = do {
     to \<leftarrow> sendAckAddr st;
     bytes \<leftarrow> serializePacket (ackFor packet (expectedSeqNum st));
     Some (st\<lparr>acks := acks st @ [(to, bytes)]\<rparr>) }"

definition listenForDataStep :: "sockaddr_in \<Rightarrow> byte list \<Rightarrow> catcherState \<Rightarrow> catcherState option" where
  "listenForDataStep from dgram st = do {
     let st0 = st\<lparr>byteBuf := overwrite (byteBuf st) (take (nat MTU) dgram), senderAddrBuf := from\<rparr>;
     packet \<leftarrow> deserializePacket (byteBuf st0);
     if isAck (hdr packet) then Some st0
     else do {
       let inOrder = (expectedSeqNum st0 = - 1 \<and> isFirst (hdr packet)
                      \<or> index (hdr packet) = expectedSeqNum st0);
       st1 \<leftarrow> (if inOrder then acceptPacket packet st0 else Some st0);
       if \<not> inOrder \<and> expectedSeqNum st1 = - 1 \<and> isFirst (hdr packet) then Some st1
       else if expectedSeqNum st1 \<noteq> - 1 \<or> isFirst (hdr packet) then sendAck packet st1
       else Some st1 } }"

text \<open>A socket that was connected gets datagrams of its peer only.\<close>

definition delivered :: "catcherState \<Rightarrow> sockaddr_in \<Rightarrow> bool" where
  "delivered st from = (case connectedTo st of None \<Rightarrow> True | Some a \<Rightarrow> from = a)"

text \<open>The loop on what \<open>recvfrom\<close> gives, \<open>None\<close> for an error; it ends with the rest unread, or
  waits when there is nothing more.\<close>

fun listenLoop ::
  "(sockaddr_in \<times> byte list) option list \<Rightarrow> catcherState
    \<Rightarrow> (catcherState \<times> (sockaddr_in \<times> byte list) option list) option"
where
  "listenLoop [] st = Some (st, [])"
| "listenLoop (r # rs) st =
     (if \<not> morePackets st then Some (st, r # rs)
      else case r of
        None \<Rightarrow> listenLoop rs st
      | Some (from, dgram) \<Rightarrow>
          if delivered st from then do { st' \<leftarrow> listenForDataStep from dgram st; listenLoop rs st' }
          else listenLoop rs st)"

text \<open>\<open>listenForData\<close>: the return code with the sender and the message, the acknowledgements it
  sent and the datagrams it left; \<open>Inl\<close> while it still waits.\<close>

definition listenForData ::
  "bool \<Rightarrow> (sockaddr_in \<times> byte list) option list
    \<Rightarrow> (catcherState + int \<times> sockaddr_in \<times> byte list \<times> (sockaddr_in \<times> byte list) list
         \<times> (sockaddr_in \<times> byte list) option list) option"
where
  "listenForData msgBufGiven rs =
     (if \<not> msgBufGiven then Some (Inr (- 1, zeroAddr, [], [], rs))
      else do {
        (st, rest) \<leftarrow> listenLoop rs listenForDataInit;
        Some (if morePackets st then Inl st else Inr (0, senderAddrBuf st, msgBuf st, acks st, rest)) })"

subsection \<open>One message\<close>

text \<open>The packets of one message as the battery stamps them from ring position \<open>start\<close> on, and
  as they travel with the port of the launcher.\<close>

definition message_packets :: "int \<Rightarrow> int \<Rightarrow> packet list \<Rightarrow> bool" where
  "message_packets start mid ps \<longleftrightarrow> ps \<noteq> [] \<and> int (length ps) \<le> QUEUE_LEN \<and> 0 \<le> start \<and> start < QUEUE_LEN
     \<and> (\<forall>i < length ps. let p = ps ! i in wf_packet p \<and> \<not> isAck (hdr p) \<and> (isFirst (hdr p) \<longleftrightarrow> i = 0)
          \<and> index (hdr p) = (start + int i) mod QUEUE_LEN
          \<and> endIndex (hdr p) = (start + int (length ps) - 1) mod QUEUE_LEN
          \<and> queueLen (hdr p) = QUEUE_LEN \<and> msgId (hdr p) = mid
          \<and> int (length (data p)) \<le> calcMaxDataLen)"

definition recvOne :: "nat \<Rightarrow> nat \<Rightarrow> nat \<Rightarrow> nat" where
  "recvOne n k i = (if k < n \<and> i = k then Suc k else k)"

definition recvSpec :: "nat \<Rightarrow> nat list \<Rightarrow> nat \<Rightarrow> nat" where
  "recvSpec n is k = foldl (recvOne n) k is"

text \<open>The receiver after the first \<open>k\<close> packets of the message.\<close>

definition catching :: "sockaddr_in \<Rightarrow> port \<Rightarrow> int \<Rightarrow> packet list \<Rightarrow> nat \<Rightarrow> catcherState \<Rightarrow> bool" where
  "catching from prt start ps k st \<longleftrightarrow> k \<le> length ps \<and> length (byteBuf st) = nat MTU
     \<and> msgBuf st = concat (map data (take k ps))
     \<and> msgSize st = int (length (msgBuf st)) \<and> currentByteIndex st = int (length (msgBuf st))
     \<and> expectedSeqNum st = (if k = 0 then - 1 else (start + int k) mod QUEUE_LEN)
     \<and> morePackets st = (k \<noteq> length ps)
     \<and> connectedTo st = (if k = 0 then None else Some from)
     \<and> sendAckAddr st = (if k = 0 then None else Some (from\<lparr>sin_port := prt\<rparr>))
     \<and> (k \<noteq> 0 \<longrightarrow> senderAddrBuf st = from)"

lemma packet_at:
  assumes "message_packets start mid ps" "i < length ps"
  shows "wf_packet (ps ! i)" "\<not> isAck (hdr (ps ! i))" "isFirst (hdr (ps ! i)) = (i = 0)"
    "index (hdr (ps ! i)) = (start + int i) mod QUEUE_LEN"
    "endIndex (hdr (ps ! i)) = (start + int (length ps) - 1) mod QUEUE_LEN"
    "queueLen (hdr (ps ! i)) = QUEUE_LEN" "msgId (hdr (ps ! i)) = mid"
    "length (data (ps ! i)) \<le> 1476" "dataLen (hdr (ps ! i)) = int (length (data (ps ! i)))"
  using assms by (auto simp: message_packets_def Let_def wf_packet_def calcMaxDataLen_def MTU_def
      calcHeaderSize_def)

lemma data_bound:
  assumes m: "message_packets start mid ps" and k: "k \<le> length ps"
  shows "length (concat (map data (take k ps))) \<le> 1476 * k"
  using k
proof (induction k)
  case (Suc k)
  then have "take (Suc k) ps = take k ps @ [ps ! k]" by (simp add: take_Suc_conv_app_nth)
  with Suc packet_at(8) [OF m, of k] show ?case by simp
qed simp

lemma message_c_int:
  assumes "message_packets start mid ps" "k \<le> length ps"
  shows "c_int (int (length (concat (map data (take k ps)))))"
proof -
  have "length ps \<le> 1024" using assms(1) by (simp add: message_packets_def QUEUE_LEN_def)
  then have "length (concat (map data (take k ps))) \<le> 1476 * 1024"
    using data_bound [OF assms] assms(2) by linarith
  then show ?thesis by (simp add: c_int_def)
qed

text \<open>The indexes of a message are distinct, so one packet only is in order.\<close>

lemma same_index:
  assumes m: "message_packets start mid ps" and i: "i < length ps" "k < length ps"
  shows "((start + int i) mod QUEUE_LEN = (start + int k) mod QUEUE_LEN) = (i = k)"
    and "((start + int i) mod QUEUE_LEN = (start + int (length ps) - 1) mod QUEUE_LEN) = (Suc i = length ps)"
proof -
  have n: "int (length ps) \<le> QUEUE_LEN" using m by (simp add: message_packets_def)
  show "((start + int i) mod QUEUE_LEN = (start + int k) mod QUEUE_LEN) = (i = k)"
    using ring_same_iff [of "int i" "int k" start] i n by simp
  have e: "start + int (length ps) - 1 = start + (int (length ps) - 1)" by simp
  show "((start + int i) mod QUEUE_LEN = (start + int (length ps) - 1) mod QUEUE_LEN) = (Suc i = length ps)"
  proof -
    have "0 \<le> int (length ps) - 1" using i(1) by linarith
    then show ?thesis
      unfolding e using ring_same_iff [of "int i" "int (length ps) - 1" start] i(1) n by auto
  qed
qed

lemma wf_ackFor: "wf_packet p \<Longrightarrow> c_int e \<Longrightarrow> wf_packet (ackFor p e)"
  by (simp add: wf_packet_def wf_header_def ackFor_def newPacket_def c_int_def)

lemma writeAt_end: "writeAt (growBuf buf (length buf + length d)) (length buf) d = buf @ d"
  by (simp add: writeAt_def growBuf_def)

text \<open>One packet of the message: accepted exactly when it is the next one, acknowledged as
  soon as anything was received, with the index of the next packet to come.\<close>

lemma withPort_hdr:
  "isAck (hdr (withPort prt p)) = isAck (hdr p)" "isFirst (hdr (withPort prt p)) = isFirst (hdr p)"
  "index (hdr (withPort prt p)) = index (hdr p)" "endIndex (hdr (withPort prt p)) = endIndex (hdr p)"
  "queueLen (hdr (withPort prt p)) = queueLen (hdr p)" "msgId (hdr (withPort prt p)) = msgId (hdr p)"
  "dataLen (hdr (withPort prt p)) = dataLen (hdr p)" "ackPort (hdr (withPort prt p)) = prt"
  by (simp_all add: withPort_def)

text \<open>The state once the datagram is in the buffer.\<close>

abbreviation taken :: "sockaddr_in \<Rightarrow> byte list \<Rightarrow> catcherState \<Rightarrow> catcherState" where
  "taken from b st \<equiv> st\<lparr>byteBuf := overwrite (byteBuf st) b, senderAddrBuf := from\<rparr>"

lemma ring_not_minus [simp]: "x mod QUEUE_LEN \<noteq> - 1"
  using ring_index(1) [of x] by linarith

text \<open>The test for the packet that comes next holds of the packet \<open>k\<close> and of no other.\<close>

lemma inOrder_at:
  assumes "message_packets start mid ps" "catching from prt start ps k st" "i < length ps" "k < length ps"
  shows "(expectedSeqNum st = - 1 \<and> isFirst (hdr (ps ! i)) \<or> index (hdr (ps ! i)) = expectedSeqNum st) = (i = k)"
proof (cases "k = 0")
  case True
  have "index (hdr (ps ! i)) \<noteq> - 1" using packet_at(4) [OF assms(1,3)] by simp
  then show ?thesis using True assms(2) packet_at(3) [OF assms(1,3)] by (auto simp: catching_def)
next
  case False
  then show ?thesis
    using assms(2) packet_at(3,4) [OF assms(1,3)] same_index(1) [OF assms(1,3,4)] by (auto simp: catching_def)
qed

lemma listenForDataStep_at:
  assumes m: "message_packets start mid ps" and c: "catching from prt start ps k st"
    and i: "i < length ps" and k: "k < length ps"
  shows "listenForDataStep from (wire_bytes (withPort prt (ps ! i))) st = do {
    st1 \<leftarrow> (if i = k then acceptPacket (withPort prt (ps ! i)) (taken from (wire_bytes (withPort prt (ps ! i))) st)
      else Some (taken from (wire_bytes (withPort prt (ps ! i))) st));
    if i \<noteq> k \<and> expectedSeqNum st1 = - 1 \<and> isFirst (hdr (ps ! i)) then Some st1
    else if expectedSeqNum st1 \<noteq> - 1 \<or> isFirst (hdr (ps ! i)) then sendAck (withPort prt (ps ! i)) st1 else Some st1 }"
proof -
  note P = packet_at [OF m i]
  let ?p = "withPort prt (ps ! i)"
  have wf: "wf_packet ?p" using P(1) by simp
  have len: "length (wire_bytes ?p) \<le> nat MTU" using P(8) by (simp add: wire_bytes_def MTU_def)
  have "deserializePacket (overwrite (byteBuf st) (wire_bytes ?p)) = Some ?p"
    using deserialize_overwrite [OF wf serialize_wire [OF wf]] len c by (simp add: catching_def)
  then show ?thesis
    using len P(2) inOrder_at [OF m c i k] by (simp add: listenForDataStep_def withPort_hdr Let_def)
qed

text \<open>Accepting the packet \<open>k\<close>, and acknowledging any packet.\<close>

lemma next_seq:
  assumes "message_packets start mid ps" "k < length ps"
  shows "c_rem (wrap32 (index (hdr (ps ! k)) + 1)) QUEUE_LEN = (start + int (Suc k)) mod QUEUE_LEN"
proof -
  have "c_int ((start + int k) mod QUEUE_LEN + 1)"
    using ring_index [of "start + int k"] unfolding c_int_def QUEUE_LEN_def by linarith
  then show ?thesis
    using packet_at(4) [OF assms] mod_add_left_eq [of "start + int k" QUEUE_LEN 1]
    by (simp add: wrap32_id c_simps algebra_simps)
qed

lemma acceptPacket_at:
  assumes m: "message_packets start mid ps" and c: "catching from prt start ps k st"
    and k: "k < length ps" and f: "senderAddrBuf st = from"
  shows "\<exists>st1. acceptPacket (withPort prt (ps ! k)) st = Some st1
    \<and> catching from prt start ps (Suc k) st1 \<and> senderAddrBuf st1 = from \<and> acks st1 = acks st"
proof -
  note P = packet_at [OF m k] and C = c [unfolded catching_def]
  let ?p = "withPort prt (ps ! k)"
  let ?new = "concat (map data (take k ps)) @ data (ps ! k)"
  have new: "concat (map data (take (Suc k) ps)) = ?new" using take_Suc_conv_app_nth [OF k] by simp
  have size: "c_int (msgSize st + dataLen (hdr ?p))"
    using message_c_int [OF m, of "Suc k"] k C P(9) new by (simp add: withPort_hdr)
  have wr: "writeAt (growBuf (msgBuf st) (nat (msgSize st + dataLen (hdr ?p)))) (nat (currentByteIndex st)) (data ?p) = ?new"
    using writeAt_end [of "msgBuf st" "data (ps ! k)"] C P(9) by (simp add: withPort_hdr nat_int_add)
  have more: "(index (hdr ?p) \<noteq> endIndex (hdr ?p)) = (Suc k \<noteq> length ps)"
    using same_index(2) [OF m k k] P(4,5) by (simp add: withPort_hdr)
  have e: "expectedSeqNum st = (if k = 0 then - 1 else (start + int k) mod QUEUE_LEN)"
    using C by simp
  note nx = next_seq [OF m k]
  show ?thesis
  proof (cases "k = 0")
    case True
    then show ?thesis
      using C size nx wr more e P new f k
      by (simp add: acceptPacket_def startReception_def catching_def withPort_hdr Let_def Suc_le_eq)
  next
    case False
    then show ?thesis
      using C size nx wr more e P new f k
      by (simp add: acceptPacket_def catching_def withPort_hdr Let_def Suc_le_eq)
  qed
qed

lemma sendAck_at:
  assumes m: "message_packets start mid ps" and c: "catching from prt start ps r st" and i: "i < length ps" and r: "r \<noteq> 0"
  shows "sendAck (withPort prt (ps ! i)) st = Some (st\<lparr>acks := acks st @ [(from\<lparr>sin_port := prt\<rparr>,
    wire_bytes (ackFor (ps ! i) ((start + int r) mod QUEUE_LEN)))]\<rparr>)"
proof -
  let ?e = "(start + int r) mod QUEUE_LEN"
  have "ackFor (withPort prt (ps ! i)) ?e = ackFor (ps ! i) ?e" by (simp add: ackFor_def withPort_hdr)
  moreover have "serializePacket (ackFor (ps ! i) ?e) = Some (wire_bytes (ackFor (ps ! i) ?e))"
    using serialize_wire [OF wf_ackFor [OF packet_at(1) [OF m i]]] by (simp add: c_int_ring)
  ultimately show ?thesis using c r by (simp add: sendAck_def catching_def)
qed

lemma listenForDataStep_packet:
  assumes m: "message_packets start mid ps" and c: "catching from prt start ps k st"
    and i: "i < length ps" and k: "k < length ps"
  shows "\<exists>st'. listenForDataStep from (wire_bytes (withPort prt (ps ! i))) st = Some st'
    \<and> catching from prt start ps (recvOne (length ps) k i) st' \<and> senderAddrBuf st' = from
    \<and> acks st' = acks st @ (if recvOne (length ps) k i = 0 then [] else
        [(from\<lparr>sin_port := prt\<rparr>,
          wire_bytes (ackFor (ps ! i) ((start + int (recvOne (length ps) k i)) mod QUEUE_LEN)))])"
proof -
  let ?p = "withPort prt (ps ! i)"
  let ?st0 = "taken from (wire_bytes ?p) st"
  note step = listenForDataStep_at [OF m c i k] packet_at(3) [OF m i]
  have c0: "catching from prt start ps k ?st0" using c by (simp add: catching_def)
  have seen: "expectedSeqNum s = - 1 \<longleftrightarrow> r = 0" if "catching from prt start ps r s" for r s
    using that by (auto simp: catching_def)
  show ?thesis
  proof (cases "i = k")
    case True
    have Q: "recvOne (length ps) k i = Suc k" using k True by (simp add: recvOne_def)
    from acceptPacket_at [OF m c0 k] True obtain st1 where st1: "acceptPacket ?p ?st0 = Some st1"
      "catching from prt start ps (Suc k) st1" "senderAddrBuf st1 = from" "acks st1 = acks st" by auto
    with step True seen [OF st1(2)] sendAck_at [OF m st1(2) i] Q show ?thesis by (simp add: catching_def)
  next
    case False
    then have Q: "recvOne (length ps) k i = k" by (simp add: recvOne_def)
    show ?thesis
    proof (cases "k = 0")
      case True
      then show ?thesis using step False c0 seen [OF c0] Q by simp
    next
      case pos: False
      then show ?thesis using step False seen [OF c0] sendAck_at [OF m c0 i] Q c0 by (simp add: catching_def)
    qed
  qed
qed

subsection \<open>The loop on one message\<close>

lemma recvSpec_simps [simp]:
  "recvSpec n [] k = k" "recvSpec n (i # is) k = recvSpec n is (recvOne n k i)"
  by (simp_all add: recvSpec_def)

lemma recvSpec_bounds: "k \<le> n \<Longrightarrow> k \<le> recvSpec n is k \<and> recvSpec n is k \<le> n"
proof (induction "is" arbitrary: k)
  case (Cons i "is")
  have "k \<le> recvOne n k i" "recvOne n k i \<le> n" using Cons.prems by (auto simp: recvOne_def)
  then show ?case using Cons.IH [of "recvOne n k i"] by auto
qed simp

lemma recvSpec_done [simp]: "recvSpec n is n = n"
  by (induction "is") (simp_all add: recvOne_def)

text \<open>All packets are received in order exactly when they arrive as a subsequence.\<close>

lemma recvSpec_subseq: "k \<le> n \<Longrightarrow> (recvSpec n is k = n) = subseq [k..<n] is"
proof (induction "is" arbitrary: k)
  case Nil
  then show ?case by (cases "k = n") (auto simp: upt_conv_Cons)
next
  case (Cons i "is")
  show ?case
  proof (cases "k < n")
    case True
    then have "[k..<n] = k # [Suc k..<n]" by (rule upt_conv_Cons)
    then show ?thesis
      using Cons.IH [of "recvOne n k i"] True by (simp add: recvOne_def)
  next
    case False
    with Cons.prems show ?thesis by simp
  qed
qed

definition arrival :: "sockaddr_in \<Rightarrow> port \<Rightarrow> packet list \<Rightarrow> nat option \<Rightarrow> (sockaddr_in \<times> byte list) option" where
  "arrival from prt ps x = map_option (\<lambda>i. (from, wire_bytes (withPort prt (ps ! i)))) x"

definition somes :: "'a option list \<Rightarrow> 'a list" where
  "somes xs = List.map_filter (\<lambda>x. x) xs"

lemma somes_simps [simp]: "somes [] = []" "somes (None # xs) = somes xs"
  "somes (Some i # xs) = i # somes xs"
  by (simp_all add: somes_def List.map_filter_simps)

text \<open>An acknowledgement of the message: it tells a number of packets received in order, at
  least one and at most all received so far, and it goes to the launcher of the sender.\<close>

definition ack_of :: "sockaddr_in \<Rightarrow> port \<Rightarrow> int \<Rightarrow> packet list \<Rightarrow> nat \<Rightarrow> sockaddr_in \<times> byte list \<Rightarrow> bool" where
  "ack_of from prt start ps k a \<longleftrightarrow> (\<exists>i<length ps. \<exists>r. 0 < r \<and> r \<le> k
     \<and> a = (from\<lparr>sin_port := prt\<rparr>, wire_bytes (ackFor (ps ! i) ((start + int r) mod QUEUE_LEN))))"

lemma ack_of_mono: "ack_of from prt start ps k a \<Longrightarrow> k \<le> k' \<Longrightarrow> ack_of from prt start ps k' a"
  unfolding ack_of_def using le_trans by blast

lemma listenLoop_message:
  assumes m: "message_packets start mid ps"
  shows "catching from prt start ps k st \<Longrightarrow> \<forall>i\<in>set (somes xs). i < length ps \<Longrightarrow>
    \<forall>a\<in>set (acks st). ack_of from prt start ps k a \<Longrightarrow>
    \<exists>st' rest. listenLoop (map (arrival from prt ps) xs) st = Some (st', rest)
      \<and> catching from prt start ps (recvSpec (length ps) (somes xs) k) st'
      \<and> (\<forall>a\<in>set (acks st'). ack_of from prt start ps (recvSpec (length ps) (somes xs) k) a)"
proof (induction xs arbitrary: k st)
  case Nil
  then show ?case by simp
next
  case (Cons x xs)
  show ?case
  proof (cases "k = length ps")
    case True
    then have "\<not> morePackets st" using Cons.prems(1) by (simp add: catching_def)
    then show ?thesis using Cons.prems True
      by (cases x) (simp_all add: recvOne_def)
  next
    case False
    with Cons.prems(1) have k: "k < length ps" and more: "morePackets st"
      by (auto simp: catching_def)
    show ?thesis
    proof (cases x)
      case None
      then show ?thesis using Cons more by (simp add: arrival_def)
    next
      case (Some i)
      let ?k = "recvOne (length ps) k i"
      have i: "i < length ps" using Cons.prems(2) Some by simp
      from listenForDataStep_packet [OF m Cons.prems(1) i k] obtain st1 where
        st1: "listenForDataStep from (wire_bytes (withPort prt (ps ! i))) st = Some st1"
        "catching from prt start ps ?k st1" and
        acks: "acks st1 = acks st @ (if ?k = 0 then [] else
          [(from\<lparr>sin_port := prt\<rparr>, wire_bytes (ackFor (ps ! i) ((start + int ?k) mod QUEUE_LEN)))])"
        by blast
      have dl: "delivered st from" using Cons.prems(1) by (simp add: delivered_def catching_def)
      have kk: "k \<le> ?k" using k by (simp add: recvOne_def)
      have "ack_of from prt start ps ?k (from\<lparr>sin_port := prt\<rparr>,
          wire_bytes (ackFor (ps ! i) ((start + int ?k) mod QUEUE_LEN)))" if "?k \<noteq> 0"
        using that i unfolding ack_of_def by blast
      then have "\<forall>a\<in>set (acks st1). ack_of from prt start ps ?k a"
        using Cons.prems(3) ack_of_mono [OF _ kk] acks by auto
      from Cons.IH [OF st1(2) _ this] Cons.prems(2) Some show ?thesis
        using st1(1) more dl by (auto simp: arrival_def)
    qed
  qed
qed

lemma catching_init: "catching from prt start ps 0 listenForDataInit \<longleftrightarrow> ps \<noteq> []"
  by (auto simp: catching_def listenForDataInit_def)

text \<open>Whatever is lost, repeated or reordered, the receiver returns the message exactly when its
  packets arrive in order as a subsequence, and until then it has received a prefix.\<close>

lemma listenForData_message:
  assumes m: "message_packets start mid ps" and xs: "\<forall>i\<in>set (somes xs). i < length ps"
  shows "if subseq [0..<length ps] (somes xs)
    then \<exists>as rest. listenForData True (map (arrival from prt ps) xs)
        = Some (Inr (0, from, concat (map data ps), as, rest))
      \<and> (\<forall>a\<in>set as. ack_of from prt start ps (length ps) a)
    else \<exists>st k. listenForData True (map (arrival from prt ps) xs) = Some (Inl st)
      \<and> k = recvSpec (length ps) (somes xs) 0 \<and> k < length ps
      \<and> msgBuf st = concat (map data (take k ps))
      \<and> (\<forall>a\<in>set (acks st). ack_of from prt start ps k a)"
proof -
  let ?k = "recvSpec (length ps) (somes xs) 0"
  have ne: "ps \<noteq> []" using m by (simp add: message_packets_def)
  have "acks listenForDataInit = []" by (simp add: listenForDataInit_def)
  with listenLoop_message [OF m _ xs, of "from" prt 0 listenForDataInit] catching_init [of "from" prt start ps] ne
  obtain st rest where l: "listenLoop (map (arrival from prt ps) xs) listenForDataInit = Some (st, rest)"
    and c: "catching from prt start ps ?k st" and a: "\<forall>a\<in>set (acks st). ack_of from prt start ps ?k a"
    by auto
  have s: "(?k = length ps) = subseq [0..<length ps] (somes xs)" by (rule recvSpec_subseq) simp
  have k: "?k \<le> length ps" using recvSpec_bounds [of 0 "length ps"] by simp
  show ?thesis
  proof (cases "?k = length ps")
    case True
    then show ?thesis using l c a s ne by (simp add: listenForData_def catching_def)
  next
    case False
    then show ?thesis using l c a s k by (simp add: listenForData_def catching_def)
  qed
qed

subsection \<open>One message after the other\<close>

text \<open>The loop reads only as far as it needs: what it returns does not depend on what comes
  later, and waiting loops can be resumed.\<close>

lemma listenLoop_waits:
  "listenLoop rs st = Some (st', rest) \<Longrightarrow> morePackets st' \<Longrightarrow>
   rest = [] \<and> listenLoop (rs @ ys) st = listenLoop ys st'"
  by (induction rs st rule: listenLoop.induct) (auto split: if_splits option.splits)

lemma listenLoop_done:
  "listenLoop rs st = Some (st', rest) \<Longrightarrow> \<not> morePackets st' \<Longrightarrow> morePackets st \<Longrightarrow>
   length rest < length rs \<and> listenLoop (rs @ ys) st = Some (st', rest @ ys)"
proof (induction rs st rule: listenLoop.induct)
  case (2 r rs st)
  then show ?case
  proof (cases r)
    case (Some a)
    obtain src dgram where a: "a = (src, dgram)" by force
    show ?thesis
    proof (cases "delivered st src")
      case True
      with 2 Some a obtain st1 where st1: "listenForDataStep src dgram st = Some st1"
        "listenLoop rs st1 = Some (st', rest)" by auto
      have "listenLoop (rs @ ys) st1 = Some (st', rest @ ys) \<and> length rest \<le> length rs"
      proof (cases "morePackets st1")
        case True
        with 2(2) [OF _ Some a [symmetric] \<open>delivered st src\<close> st1 2(5)] 2(6) show ?thesis by simp
      next
        case False
        with st1(2) show ?thesis by (cases rs; cases ys) auto
      qed
      with st1 True 2(6) Some a show ?thesis by simp
    qed (use 2 Some a in \<open>auto simp: less_Suc_eq\<close>)
  qed (auto simp: less_Suc_eq)
qed auto

lemma listenForData_append:
  assumes "listenForData b rs = Some (Inr (c, src, m, as, rest))"
  shows "listenForData b (rs @ ys) = Some (Inr (c, src, m, as, rest @ ys))"
  using assms listenLoop_done [of rs listenForDataInit _ rest ys]
  by (auto simp: listenForData_def listenForDataInit_def split: if_splits)

lemma listenForData_length:
  assumes "listenForData True rs = Some (Inr (c, src, m, as, rest))"
  shows "length rest < length rs"
  using assms listenLoop_done [of rs listenForDataInit _ rest "[]"]
  by (auto simp: listenForData_def listenForDataInit_def split: if_splits)

lemma listenForData_returns_0:
  "listenForData True rs = Some (Inr (c, src, m, as, rest)) \<Longrightarrow> c = 0"
  by (auto simp: listenForData_def split: if_splits)

text \<open>The packets of a message in order, then anything: the message is returned and the rest is
  left in the socket.\<close>

definition inOrder :: "sockaddr_in \<Rightarrow> port \<Rightarrow> packet list \<Rightarrow> (sockaddr_in \<times> byte list) option list" where
  "inOrder from prt ps = map (\<lambda>i. arrival from prt ps (Some i)) [0..<length ps]"

lemma somes_map_Some [simp]: "somes (map Some is) = is"
  by (induction "is") simp_all

lemma listenForData_stream:
  assumes m: "message_packets start mid ps"
  shows "\<exists>as. listenForData True (inOrder src prt ps @ ys) = Some (Inr (0, src, concat (map data ps), as, ys))"
proof -
  let ?f = "arrival src prt ps" and ?n = "length ps"
  from m obtain n where n: "?n = Suc n" by (cases ps) (auto simp: message_packets_def)
  let ?xs = "map Some [0..<n]"
  have "\<not> subseq [0..<?n] [0..<n]" using n by (auto dest: list_emb_length)
  with listenForData_message [OF m, of ?xs src prt] n obtain st where
    w: "listenForData True (map ?f ?xs) = Some (Inl st)" by auto
  define as0 where "as0 = map ?f ?xs"
  from w have "\<exists>r. listenLoop as0 listenForDataInit = Some (st, r)" and more: "morePackets st"
    by (auto simp: listenForData_def as0_def split: if_splits)
  then have l: "listenLoop (as0 @ zs) listenForDataInit = listenLoop zs st" for zs
    using listenLoop_waits by blast
  have e: "inOrder src prt ps = as0 @ [?f (Some n)]" by (simp add: inOrder_def n as0_def)
  from listenForData_message [OF m, of "map Some [0..<?n]" src prt] obtain as rest where
    d: "listenForData True (inOrder src prt ps) = Some (Inr (0, src, concat (map data ps), as, rest))"
    by (auto simp: inOrder_def comp_def)
  then have "listenLoop [?f (Some n)] st \<noteq> None"
    by (auto simp: listenForData_def e l simp del: listenLoop.simps)
  then obtain st2 rest2 where l2: "listenLoop [?f (Some n)] st = Some (st2, rest2)" by auto
  moreover have "rest2 = []" using l2 more by (auto split: option.splits if_splits)
  ultimately have "rest = []" using d
    by (auto simp: listenForData_def e l simp del: listenLoop.simps split: if_splits)
  with listenForData_append [OF d, of ys] show ?thesis by auto
qed

subsection \<open>What the receiver does not protect against\<close>

text \<open>A first packet in order, of any origin and with any header.\<close>

lemma listenForDataStep_first:
  assumes wf: "wf_packet p" and len: "length (wire_bytes p) \<le> nat MTU"
    and p: "\<not> isAck (hdr p)" "isFirst (hdr p)"
  shows "listenForDataStep a (wire_bytes p) listenForDataInit =
    (let st0 = listenForDataInit\<lparr>byteBuf := overwrite (byteBuf listenForDataInit) (wire_bytes p),
        senderAddrBuf := a\<rparr>
     in do { st1 \<leftarrow> acceptPacket p st0; sendAck p st1 })"
proof -
  define st0 where "st0 = listenForDataInit\<lparr>byteBuf := overwrite (byteBuf listenForDataInit) (wire_bytes p),
        senderAddrBuf := a\<rparr>"
  have "deserializePacket (byteBuf st0) = Some p"
    using deserialize_overwrite [OF wf serialize_wire [OF wf]] len
    by (simp add: st0_def listenForDataInit_def)
  moreover have "expectedSeqNum st0 = - 1" by (simp add: st0_def listenForDataInit_def)
  ultimately show ?thesis using len p by (simp add: listenForDataStep_def st0_def [symmetric] Let_def)
qed

text \<open>A message of one packet that arrives twice is delivered twice: the second copy is left in
  the socket, and the next call takes it for a new message.\<close>

lemma listenForData_twice:
  assumes m: "message_packets start mid [p]"
  shows "\<exists>a. listenForData True [Some (src, wire_bytes p), Some (src, wire_bytes p)]
      = Some (Inr (0, src, data p, [a], [Some (src, wire_bytes p)]))
    \<and> listenForData True [Some (src, wire_bytes p)] = Some (Inr (0, src, data p, [a], []))"
proof -
  let ?prt = "ackPort (hdr p)"
  have w: "withPort ?prt p = p" by (simp add: withPort_def)
  have "catching src ?prt start [p] 0 listenForDataInit" by (simp add: catching_init)
  from listenForDataStep_packet [OF m this, of 0] obtain st' where
    st': "listenForDataStep src (wire_bytes p) listenForDataInit = Some st'"
    "catching src ?prt start [p] 1 st'" "senderAddrBuf st' = src"
    "\<exists>a. acks st' = acks listenForDataInit @ [a]" using w by (auto simp: recvOne_def)
  have i: "morePackets listenForDataInit" "delivered listenForDataInit src" "acks listenForDataInit = []"
    by (simp_all add: listenForDataInit_def delivered_def)
  show ?thesis
    using st' i by (auto simp: listenForData_def catching_def)
qed

end
