(* ===== verification/Gbn.thy ===== *)
theory Gbn
  imports Launcher Catcher
begin

text \<open>
  The interface of the GBN layer (gbn/gbn.c): \<open>sendMessageGbn\<close> divides a message, puts its
  packets in the battery, registers it in the send table and notifies the launcher;
  \<open>recvMessageGbn\<close> is \<open>listenForData\<close>.
\<close>

record gbnState =
  launch :: launcherState
  lastMsgId :: int

definition addrSize :: nat where
  "addrSize = 16"

text \<open>The entry's address is a \<open>struct sockaddr\<close>, which a longer address overruns. With no packet
  the code reads \<open>packets[0]\<close> of an empty array.\<close>

definition sendMessageGbn ::
  "int \<Rightarrow> sockaddr_in \<Rightarrow> nat \<Rightarrow> byte list \<Rightarrow> nat \<Rightarrow> nat option \<Rightarrow> gbnState \<Rightarrow> (int \<times> gbnState) option"
where
  "sendMessageGbn sdn dest_addr alen msg sz handler g = do {
     (packets, numOfPackets, last') \<leftarrow> packetize msg sz (lastMsgId g);
     let g1 = g\<lparr>lastMsgId := last'\<rparr>;
     let st = launch g1;
     (r, b') \<leftarrow> addToLaunchBattery (battery (bs st)) packets (int numOfPackets);
     if r \<noteq> 0 then Some (- 1, g1)
     else if packets = [] \<or> addrSize < alen then None
     else do {
       let st1 = st\<lparr>bs := (bs st)\<lparr>battery := b'\<rparr>\<rparr>;
       let sendEntry = \<lparr>sd = sdn, dest = dest_addr, addrlen = alen, errorHandler = handler\<rparr>;
       tbl \<leftarrow> registerEntry (sendTable st1) (msgId (hdr (hd packets))) sendEntry;
       let st2 = st1\<lparr>sendTable := tbl\<rparr>;
       let st3 = snd (notifyLauncher LAUNCHER_EVENT_NEW_PACKETS_IN_SEND_WINDOW st2);
       Some (0, g1\<lparr>launch := st3\<rparr>) } }"

definition recvMessageGbn ::
  "bool \<Rightarrow> (sockaddr_in \<times> byte list) option list
    \<Rightarrow> (catcherState + int \<times> sockaddr_in \<times> byte list \<times> (sockaddr_in \<times> byte list) list
         \<times> (sockaddr_in \<times> byte list) option list) option"
where
  "recvMessageGbn msgBufGiven rs = listenForData msgBufGiven rs"

subsection \<open>Sending\<close>

definition max_data :: nat where
  "max_data = nat calcMaxDataLen"

lemma max_data_eq: "max_data = 1476"
  by (simp add: max_data_def calcMaxDataLen_def MTU_def calcHeaderSize_def)

definition numOfPackets :: "byte list \<Rightarrow> nat" where
  "numOfPackets msg = length (chunks max_data msg)"

lemma numOfPackets_eq: "numOfPackets msg = (length msg + 1475) div 1476"
proof -
  have "length msg mod 1476 < 1476" by simp
  then have "length msg div 1476 + (if length msg mod 1476 \<noteq> 0 then 1 else 0) = (length msg + 1475) div 1476"
    using div_mult_mod_eq [of "length msg" 1476] by (auto simp: div_add1_eq [of "length msg" 1475])
  then show ?thesis by (simp add: numOfPackets_def length_chunks max_data_eq)
qed

text \<open>The packets of a message as the battery holds them, from ring position \<open>start\<close> on.\<close>

definition stampedPackets :: "int \<Rightarrow> int \<Rightarrow> byte list \<Rightarrow> packet list" where
  "stampedPackets start mid msg =
     stamp_all start (map (\<lambda>(k, d). mk_packet mid k d) (enumerate 0 (chunks max_data msg)))"

lemma length_stamped [simp]: "length (stampedPackets start mid msg) = numOfPackets msg"
  by (simp add: stampedPackets_def stamp_all_def numOfPackets_def)

lemma stamped_nth:
  "i < numOfPackets msg \<Longrightarrow> stampedPackets start mid msg ! i =
     stamp start (int (numOfPackets msg)) (int i) (mk_packet mid i (chunks max_data msg ! i))"
  by (simp add: stampedPackets_def stamp_all_def numOfPackets_def nth_enumerate_eq)

lemma stamped_chunks: "map data (stampedPackets start mid msg) = chunks max_data msg"
  by (rule nth_equalityI) (simp_all add: stamped_nth stamp_def mk_packet_def numOfPackets_def)

lemma stamped_data: "concat (map data (stampedPackets start mid msg)) = msg"
  by (simp add: stamped_chunks concat_chunks max_data_eq)

lemma wf_mk_packet: "c_int mid \<Longrightarrow> length d \<le> 1476 \<Longrightarrow> wf_packet (mk_packet mid i d)"
  by (simp add: wf_packet_def wf_header_def mk_packet_def newPacket_def c_int_def)

lemma chunk_bound: "i < numOfPackets msg \<Longrightarrow> length (chunks max_data msg ! i) \<le> 1476"
  using chunks_bound [of "chunks max_data msg ! i" max_data msg]
  by (simp add: numOfPackets_def max_data_eq)

text \<open>What the battery holds of a message is a message for the receiver.\<close>

lemma stamped_message:
  assumes "msg \<noteq> []" "int (numOfPackets msg) \<le> QUEUE_LEN" "0 \<le> start" "start < QUEUE_LEN" "c_int mid"
  shows "message_packets start mid (stampedPackets start mid msg)"
proof -
  have "chunks max_data msg \<noteq> []" using assms(1) concat_chunks [of max_data msg] by (auto simp: max_data_eq)
  then have ne: "0 < numOfPackets msg" by (simp add: numOfPackets_def)
  have "wf_packet (stampedPackets start mid msg ! i)" if "i < numOfPackets msg" for i
    unfolding stamped_nth [OF that]
    using that assms(3) by (intro wf_stamp wf_mk_packet assms(5) chunk_bound) auto
  moreover have "stampedPackets start mid msg \<noteq> []" using ne length_stamped by (metis length_0_conv less_irrefl)
  ultimately show ?thesis
    using assms(2-4) chunk_bound [of _ msg] ne
    by (simp add: message_packets_def stamped_nth stamp_def mk_packet_def newPacket_def c_simps
        calcMaxDataLen_def MTU_def calcHeaderSize_def Let_def)
qed

definition entryFor :: "int \<Rightarrow> sockaddr_in \<Rightarrow> nat \<Rightarrow> nat option \<Rightarrow> sortingEntry" where
  "entryFor sdn dest_addr alen handler = \<lparr>sd = sdn, dest = dest_addr, addrlen = alen, errorHandler = handler\<rparr>"

text \<open>The effect of an accepted message.\<close>

definition enqueued :: "byte list \<Rightarrow> int \<Rightarrow> sortingEntry \<Rightarrow> launcherState \<Rightarrow> launcherState \<Rightarrow> bool" where
  "enqueued msg mid e st st' \<longleftrightarrow> launcher_inv st' \<and> window (bs st') = window (bs st)
     \<and> winsize (bs st') = winsize (bs st) \<and> busy st' = busy st + int (numOfPackets msg)
     \<and> waiting st' = waiting st @
          map core (stampedPackets (nextAvailableIndex (battery (bs st))) mid msg)
     \<and> (\<forall>k. 0 \<le> k \<and> k < busy st \<longrightarrow> padOf st' k = padOf st k)
     \<and> (\<forall>k. busy st \<le> k \<and> k < busy st' \<longrightarrow> status (padOf st' k) = READY
          \<and> pad_packet (padOf st' k) = Some (stampedPackets (nextAvailableIndex (battery (bs st))) mid msg ! nat (k - busy st)))
     \<and> (\<forall>j. c_int j \<longrightarrow> tableOf st' j = ((tableOf st)(mid \<mapsto> e)) j)
     \<and> pending st' = pending (snd (notifyLauncher LAUNCHER_EVENT_NEW_PACKETS_IN_SEND_WINDOW st))
     \<and> ltimer st' = ltimer st \<and> wire st' = wire st \<and> listenPort st' = listenPort st
     \<and> eventsBlocked st' = eventsBlocked st \<and> isLauncherAvailable st' = isLauncherAvailable st
     \<and> sigrtmin st' = sigrtmin st \<and> sigrtmax st' = sigrtmax st"

lemma stamp_all_map:
  "ps = map (\<lambda>(k, d). mk_packet mid k d) (enumerate 0 (chunks max_data msg)) \<Longrightarrow>
   stamp_all start ps = stampedPackets start mid msg"
  by (simp add: stampedPackets_def)

lemma packetized_wf:
  "c_int mid \<Longrightarrow> ps = map (\<lambda>(k, d). mk_packet mid k d) (enumerate 0 (chunks max_data msg)) \<Longrightarrow>
   p \<in> set ps \<Longrightarrow> wf_packet p"
  using wf_mk_packet chunk_bound by (fastforce simp: in_set_conv_nth numOfPackets_def nth_enumerate_eq)

text \<open>The pads after \<open>addToLaunchBattery\<close>, seen from the base of the window: those occupied before
  are untouched, and the next ones hold the stamped packets, ready to be launched.\<close>

lemma enqueue_pads:
  assumes inv: "launcher_inv st" and fit: "int (numOfPackets msg) \<le> contiguousPadsAvailable (battery (bs st))"
    and pos: "0 < numOfPackets msg"
    and ps: "ps = map (\<lambda>(k, d). mk_packet mid k d) (enumerate 0 (chunks max_data msg))"
    and add: "addToLaunchBattery (battery (bs st)) ps (int (numOfPackets msg)) = Some (0, b')"
  shows "used b' = busy st + int (numOfPackets msg)"
    and "0 \<le> k \<Longrightarrow> k < busy st \<Longrightarrow> pad_at ((bs st)\<lparr>battery := b'\<rparr>) k = padOf st k"
    and "busy st \<le> k \<Longrightarrow> k < busy st + int (numOfPackets msg) \<Longrightarrow>
      status (pad_at ((bs st)\<lparr>battery := b'\<rparr>) k) = READY
      \<and> pad_packet (pad_at ((bs st)\<lparr>battery := b'\<rparr>) k)
          = Some (stampedPackets (nextAvailableIndex (battery (bs st))) mid msg ! nat (k - busy st))"
proof -
  note D = launcher_inv_D [OF inv]
  let ?n = "int (numOfPackets msg)" and ?start = "nextAvailableIndex (battery (bs st))"
  have len: "?n = int (length ps)" by (simp add: ps numOfPackets_def)
  from addToLaunchBattery_pads [OF D(1) len] fit add pos
  have cont: "contiguousPadsAvailable b' = contiguousPadsAvailable (battery (bs st)) - ?n"
    and pads: "\<And>k. 0 \<le> k \<Longrightarrow> k < QUEUE_LEN \<Longrightarrow> pads b' ((wbase st + k) mod QUEUE_LEN) =
         (if busy st \<le> k \<and> k < busy st + ?n
          then load_pad (stamp ?start ?n (k - busy st) (ps ! nat (k - busy st))) (padOf st k)
          else padOf st k)"
    by (auto simp: willTheyFit_def)
  show "used b' = busy st + ?n" using cont by (simp add: used_def)
  show "pad_at ((bs st)\<lparr>battery := b'\<rparr>) k = padOf st k" if "0 \<le> k" "k < busy st"
    using pads [of k] that D(7) by (simp add: pad_at_def)
  assume k: "busy st \<le> k" "k < busy st + ?n"
  have "k < QUEUE_LEN" using k fit by (simp add: used_def)
  then have "pad_at ((bs st)\<lparr>battery := b'\<rparr>) k
      = load_pad (stamp ?start ?n (k - busy st) (ps ! nat (k - busy st))) (padOf st k)"
    using pads [of k] k D(6) by (simp add: pad_at_def)
  moreover have "stamp ?start ?n (k - busy st) (ps ! nat (k - busy st))
      = stampedPackets ?start mid msg ! nat (k - busy st)"
    using k stamped_nth [of "nat (k - busy st)" msg ?start mid]
    by (simp add: ps numOfPackets_def nth_enumerate_eq nat_less_iff)
  ultimately show "status (pad_at ((bs st)\<lparr>battery := b'\<rparr>) k) = READY
      \<and> pad_packet (pad_at ((bs st)\<lparr>battery := b'\<rparr>) k) = Some (stampedPackets ?start mid msg ! nat (k - busy st))"
    by (simp add: load_pad_def)
qed

lemma enqueue_ok:
  assumes inv: "launcher_inv st" and mid: "c_int mid" "0 \<le> mid" "tableOf st mid = None"
    and msg: "msg \<noteq> []" and fit: "int (numOfPackets msg) \<le> contiguousPadsAvailable (battery (bs st))"
    and ps: "ps = map (\<lambda>(k, d). mk_packet mid k d) (enumerate 0 (chunks max_data msg))"
  shows "\<exists>b' t st'. addToLaunchBattery (battery (bs st)) ps (int (numOfPackets msg)) = Some (0, b')
    \<and> registerEntry (sendTable st) mid e = Some t
    \<and> st' = snd (notifyLauncher LAUNCHER_EVENT_NEW_PACKETS_IN_SEND_WINDOW
        (st\<lparr>bs := (bs st)\<lparr>battery := b'\<rparr>, sendTable := t\<rparr>))
    \<and> enqueued msg mid e st st'"
proof -
  note D = launcher_inv_D [OF inv]
  let ?n = "int (numOfPackets msg)" and ?start = "nextAvailableIndex (battery (bs st))"
  let ?sp = "stampedPackets ?start mid msg"
  have st: "0 \<le> ?start" "?start < QUEUE_LEN" using D(1) by (auto simp: battery_inv_def)
  have nQ: "?n \<le> QUEUE_LEN" using fit D(6) by (simp add: used_def)
  have len: "?n = int (length ps)" by (simp add: ps numOfPackets_def)
  have mp: "message_packets ?start mid ?sp" by (rule stamped_message [OF msg nQ st mid(1)])
  have "?sp \<noteq> []" using mp by (simp add: message_packets_def)
  then have pos: "0 < numOfPackets msg" using length_stamped by (metis length_0_conv neq0_conv)
  from addToLaunchBattery_queue [OF D(1) len] pos fit packetized_wf [OF mid(1) ps] obtain b' where
    add: "addToLaunchBattery (battery (bs st)) ps ?n = Some (0, b')"
    and bi: "battery_inv ((bs st)\<lparr>battery := b'\<rparr>)"
    and qu: "queue ((bs st)\<lparr>battery := b'\<rparr>) = queue (bs st) @ ?sp"
    using stamp_all_map [OF ps] by auto
  note P = enqueue_pads [OF inv fit pos ps add]
  from send_table.add_fresh [OF D(2) mid(1,3), of e] obtain t where
    t: "registerEntry (sendTable st) mid e = Some t" "sorting_inv t"
    "\<And>j. c_int j \<Longrightarrow> sorting_lookup t j = ((tableOf st)(mid \<mapsto> e)) j" by auto
  define st2 where "st2 = st\<lparr>bs := (bs st)\<lparr>battery := b'\<rparr>, sendTable := t\<rparr>"
  let ?st' = "snd (notifyLauncher LAUNCHER_EVENT_NEW_PACKETS_IN_SEND_WINDOW st2)"
  have "\<exists>p. pad_packet (padOf ?st' k) = Some p \<and> 0 \<le> msgId (hdr p) \<and> tableOf ?st' (msgId (hdr p)) \<noteq> None"
    if k: "0 \<le> k" "k < busy st + ?n" for k
  proof (cases "k < busy st")
    case True
    from D(12) [OF k(1) True] D(10) [OF k(1) True] obtain p where
      p: "pad_packet (padOf st k) = Some p" "0 \<le> msgId (hdr p)" "tableOf st (msgId (hdr p)) \<noteq> None"
      "wf_packet p" by (auto simp: loaded_def)
    then show ?thesis using P(2) [OF k(1) True] t(3) [of "msgId (hdr p)"]
      by (auto simp: st2_def wf_packet_def wf_header_def)
  next
    case False
    then have "nat (k - busy st) < length ?sp" using k by simp
    then have "msgId (hdr (?sp ! nat (k - busy st))) = mid" by (rule packet_at(7) [OF mp])
    then show ?thesis using P(3) [of k] False k t(3) [OF mid(1)] mid(2) by (simp add: st2_def)
  qed
  then have "launcher_inv ?st'"
    using bi t(2) D(3) P(1) by (simp add: launcher_inv_def st2_def)
  moreover have "pending ?st' = pending (snd (notifyLauncher LAUNCHER_EVENT_NEW_PACKETS_IN_SEND_WINDOW st))"
    by (rule notify_pending) (simp_all add: st2_def)
  ultimately have "enqueued msg mid e st ?st'"
    using P qu t(3) unfolding enqueued_def
    by (simp add: st2_def waiting_def)
  then show ?thesis using add t(1) st2_def by blast
qed

text \<open>\<open>sendMessageGbn\<close> of a message that is not empty: all its packets enter the battery, or
  with too few pads none and the call fails; only the message counter moves then.\<close>

lemma sendMessageGbn_spec:
  assumes inv: "launcher_inv (launch g)" and i: "msg_id_inv (lastMsgId g)"
    and fresh: "tableOf (launch g) (lastMsgId g) = None" and msg: "msg \<noteq> []" and a: "alen \<le> addrSize"
  shows "if int (numOfPackets msg) \<le> contiguousPadsAvailable (battery (bs (launch g)))
    then \<exists>st'. sendMessageGbn sdn dst alen msg (length msg) handler g =
        Some (0, g\<lparr>lastMsgId := (lastMsgId g + 1) mod INT_MAX, launch := st'\<rparr>)
      \<and> enqueued msg (lastMsgId g) (entryFor sdn dst alen handler) (launch g) st'
    else sendMessageGbn sdn dst alen msg (length msg) handler g =
      Some (- 1, g\<lparr>lastMsgId := (lastMsgId g + 1) mod INT_MAX\<rparr>)"
proof -
  let ?mid = "lastMsgId g" and ?st = "launch g" and ?n = "int (numOfPackets msg)"
  define ps where "ps = map (\<lambda>(k, d). mk_packet ?mid k d) (enumerate 0 (chunks max_data msg))"
  have pk: "packetize msg (length msg) ?mid = Some (ps, numOfPackets msg, (?mid + 1) mod INT_MAX)"
    using packetize_eq [of msg ?mid] generateMsgId_next [OF i]
    by (simp add: ps_def numOfPackets_def max_data_def)
  have mid: "c_int ?mid" "0 \<le> ?mid" using i by (simp_all add: msg_id_inv_def c_int_def)
  show ?thesis
  proof (cases "?n \<le> contiguousPadsAvailable (battery (bs ?st))")
    case True
    have "chunks max_data msg \<noteq> []" using msg concat_chunks [of max_data msg] by (auto simp: max_data_eq)
    then obtain d ds where "chunks max_data msg = d # ds" by (cases "chunks max_data msg") auto
    then have hd: "ps \<noteq> []" "msgId (hdr (hd ps)) = ?mid" by (simp_all add: ps_def mk_packet_def)
    from enqueue_ok [OF inv mid fresh msg True ps_def, of "entryFor sdn dst alen handler"] obtain b' t st' where
      e: "addToLaunchBattery (battery (bs ?st)) ps ?n = Some (0, b')"
      "registerEntry (sendTable ?st) ?mid (entryFor sdn dst alen handler) = Some t"
      "st' = snd (notifyLauncher LAUNCHER_EVENT_NEW_PACKETS_IN_SEND_WINDOW
        (?st\<lparr>bs := (bs ?st)\<lparr>battery := b'\<rparr>, sendTable := t\<rparr>))"
      "enqueued msg ?mid (entryFor sdn dst alen handler) ?st st'" by blast
    then have "sendMessageGbn sdn dst alen msg (length msg) handler g =
        Some (0, g\<lparr>lastMsgId := (?mid + 1) mod INT_MAX, launch := st'\<rparr>)"
      using pk hd a by (simp add: sendMessageGbn_def entryFor_def Let_def)
    then show ?thesis using True e(4) by (simp only: if_True) blast
  next
    case False
    then show ?thesis
      using pk by (simp add: sendMessageGbn_def addToLaunchBattery_def willTheyFit_def Let_def)
  qed
qed

end
