(* ===== verification/System.thy ===== *)
theory System
  imports Gbn
begin

text \<open>
  One message from a launcher to a receiver over a network that loses, repeats and reorders.
  A state is the launcher of the sender and the \<open>listenForData\<close> of the receiver. The network
  may hand over any datagram that was ever sent, any number of times, or never: the datagrams
  are those on the launcher's \<open>wire\<close> and the acknowledgements in the receiver's \<open>acks\<close>. A step
  is one the code makes between two waits: the handler of a pending event, a round of the
  timer thread, the receiver's or the listener's treatment of a datagram.

  \<open>sysInv\<close> relates the number of packets acknowledged, \<open>B\<close>, and received in order, \<open>R\<close>, to both
  states; it holds in every reachable state. \<open>liveInv\<close> says that while packets wait there is an
  event pending or the timer is running, provided that no local call fails.
\<close>

record system =
  sender :: launcherState
  receiver :: catcherState

inductive sysStep :: "bool \<Rightarrow> sockaddr_in \<Rightarrow> system \<Rightarrow> system \<Rightarrow> bool" for ok sa where
  signal: "sig \<in> set (pending (sender s)) \<Longrightarrow> \<not> eventsBlocked (sender s) \<Longrightarrow>
    ok \<longrightarrow> (\<forall>i. launchOk (env i)) \<Longrightarrow>
    launcherSigHandler env sig ((sender s)\<lparr>pending := remove1 sig (pending (sender s))\<rparr>) = Some l' \<Longrightarrow>
    sysStep ok sa s (s\<lparr>sender := l'\<rparr>)"
| timer: "isAlive (ltimer (sender s)) \<Longrightarrow> timerRound (ltimer (sender s)) = (r, t') \<Longrightarrow>
    l' = (if r then ringLauncher ((sender s)\<lparr>ltimer := t'\<rparr>) else (sender s)\<lparr>ltimer := t'\<rparr>) \<Longrightarrow>
    sysStep ok sa s (s\<lparr>sender := l'\<rparr>)"
| packet: "(sdn, dst, bytes) \<in> set (wire (sender s)) \<Longrightarrow> morePackets (receiver s) \<Longrightarrow>
    delivered (receiver s) sa \<Longrightarrow> listenForDataStep sa bytes (receiver s) = Some r' \<Longrightarrow>
    sysStep ok sa s (s\<lparr>receiver := r'\<rparr>)"
| ack: "(sa\<lparr>sin_port := listenPort (sender s)\<rparr>, bytes) \<in> set (acks (receiver s)) \<Longrightarrow>
    isLauncherAvailable (sender s) \<Longrightarrow> listenForAcksStep now bytes (sender s) = Some l' \<Longrightarrow>
    sysStep ok sa s (s\<lparr>sender := l'\<rparr>)"

inductive_cases sysStepE: "sysStep ok sa s s'"

text \<open>The launcher has nothing to do: no packet waits, nothing is pending, nothing is on its way.\<close>

definition idle :: "launcherState \<Rightarrow> bool" where
  "idle st \<longleftrightarrow> launcher_inv st \<and> signals_ok st \<and> isLauncherAvailable st \<and> \<not> eventsBlocked st
     \<and> busy st = 0 \<and> pending st = [] \<and> wire st = []
     \<and> (isAlive (ltimer st) \<longrightarrow> ring (ltimer st)
         \<and> atTimeout (ltimer st) \<in> {AT_TIMEOUT_RING_THEN_RESTART, AT_TIMEOUT_RESTART})"

text \<open>A message was just handed to \<open>sendMessageGbn\<close>, and the receiver listens.\<close>

definition started :: "byte list \<Rightarrow> gbnState \<Rightarrow> system \<Rightarrow> bool" where
  "started msg g s \<longleftrightarrow> idle (launch g) \<and> msg_id_inv (lastMsgId g)
     \<and> tableOf (launch g) (lastMsgId g) = None \<and> msg \<noteq> []
     \<and> int (numOfPackets msg) + winsize (bs (launch g)) \<le> QUEUE_LEN
     \<and> (\<exists>sdn dst alen handler g'. alen \<le> addrSize
          \<and> sendMessageGbn sdn dst alen msg (length msg) handler g = Some (0, g')
          \<and> s = \<lparr>sender = launch g', receiver = listenForDataInit\<rparr>)"

definition reachable :: "bool \<Rightarrow> sockaddr_in \<Rightarrow> system \<Rightarrow> system \<Rightarrow> bool" where
  "reachable ok sa s0 s \<longleftrightarrow> (sysStep ok sa)\<^sup>*\<^sup>* s0 s"

subsection \<open>The sender's side\<close>

abbreviation newSig :: "launcherState \<Rightarrow> int" where
  "newSig L \<equiv> signalOf L LAUNCHER_EVENT_NEW_PACKETS_IN_SEND_WINDOW"

abbreviation timeSig :: "launcherState \<Rightarrow> int" where
  "timeSig L \<equiv> signalOf L LAUNCHER_EVENT_PACKET_TIMED_OUT"

definition timer_ok :: "timer \<Rightarrow> bool" where
  "timer_ok t \<longleftrightarrow> (isAlive t \<longrightarrow> ring t
     \<and> atTimeout t \<in> {AT_TIMEOUT_RING_THEN_RESTART, AT_TIMEOUT_RESTART})"

text \<open>Packet \<open>i\<close> has been acknowledged or launched.\<close>

definition launched :: "nat \<Rightarrow> launcherState \<Rightarrow> nat \<Rightarrow> bool" where
  "launched B L i \<longleftrightarrow> i < B \<or> status (padOf L (int i - int B)) = SENT"

definition onAir :: "packet list \<Rightarrow> nat \<Rightarrow> launcherState \<Rightarrow> int \<times> sockaddr_in \<times> byte list \<Rightarrow> bool" where
  "onAir ps B L x \<longleftrightarrow> (\<exists>i<length ps. snd (snd x) = wire_bytes (withPort (listenPort L) (ps ! i))
     \<and> int i < int B + winsize (bs L) \<and> launched B L i)"

definition senderInv :: "int \<Rightarrow> packet list \<Rightarrow> nat \<Rightarrow> launcherState \<Rightarrow> bool" where
  "senderInv start ps B L \<longleftrightarrow> launcher_inv L \<and> signals_ok L \<and> isLauncherAvailable L
     \<and> \<not> eventsBlocked L \<and> set (pending L) \<subseteq> {newSig L, timeSig L} \<and> timer_ok (ltimer L)
     \<and> int (length ps) + winsize (bs L) \<le> QUEUE_LEN \<and> B \<le> length ps
     \<and> wbase L = (start + int B) mod QUEUE_LEN \<and> busy L = int (length ps) - int B
     \<and> waiting L = drop B (map core ps) \<and> (\<forall>x\<in>set (wire L). onAir ps B L x)"

lemma senderInv_D:
  assumes "senderInv start ps B L"
  shows "launcher_inv L" "signals_ok L" "isLauncherAvailable L" "\<not> eventsBlocked L"
    "set (pending L) \<subseteq> {newSig L, timeSig L}" "timer_ok (ltimer L)"
    "int (length ps) + winsize (bs L) \<le> QUEUE_LEN" "B \<le> length ps"
    "wbase L = (start + int B) mod QUEUE_LEN" "busy L = int (length ps) - int B"
    "waiting L = drop B (map core ps)" "\<And>x. x \<in> set (wire L) \<Longrightarrow> onAir ps B L x"
  using assms by (simp_all add: senderInv_def)

lemma signalOf_cong:
  "sigrtmin L' = sigrtmin L \<Longrightarrow> sigrtmax L' = sigrtmax L \<Longrightarrow> signalOf L' e = signalOf L e"
  by (simp add: signalOf_def)

lemma signals_ok_cong:
  "sigrtmin L' = sigrtmin L \<Longrightarrow> sigrtmax L' = sigrtmax L \<Longrightarrow> signals_ok L' = signals_ok L"
  by (simp add: signals_ok_def)

lemma core_eq_withPort: "core p = core q \<Longrightarrow> withPort prt p = withPort prt q"
  by (cases p; cases q; cases "hdr p"; cases "hdr q") (auto simp: core_def withPort_def)

lemma waiting_pad:
  assumes "launcher_inv L" "waiting L = drop B (map core ps)" "busy L = int (length ps) - int B"
    and "0 \<le> k" "k < busy L"
  shows "\<exists>p. pad_packet (padOf L k) = Some p \<and> core p = core (ps ! (B + nat k))"
proof -
  have i: "nat k < nat (busy L)" using assms(4,5) by simp
  obtain p where p: "pad_packet (padOf L k) = Some p" using launcher_inv_D(12) [OF assms(1,4,5)] by blast
  have "waiting L ! nat k = core p"
    using i p assms(4) by (simp add: waiting_def queue_def)
  moreover have "waiting L ! nat k = core (ps ! (B + nat k))"
  proof -
    have "B + nat k < length ps" using assms(3-5) by linarith
    then show ?thesis using i assms(2) by simp
  qed
  ultimately show ?thesis using p by simp
qed

text \<open>Firing pads leaves the rest of the launcher; what is launched stays launched, and what is put on
  the wire is a packet of the message.\<close>

lemma fired_fields:
  assumes "fired env L ks n L'"
  shows "launcher_inv L'" "wbase L' = wbase L" "winsize (bs L') = winsize (bs L)" "busy L' = busy L"
    "waiting L' = waiting L" "listenPort L' = listenPort L" "ltimer L' = ltimer L"
    "pending L' = pending L" "isLauncherAvailable L' = isLauncherAvailable L"
    "eventsBlocked L' = eventsBlocked L" "sigrtmin L' = sigrtmin L" "sigrtmax L' = sigrtmax L"
  using assms frame_used [of L L'] by (simp_all add: fired_def frame_def)

lemma fired_launched:
  assumes inv: "senderInv start ps B L" and f: "fired env L ks n L'"
    and i: "B \<le> i" "i < length ps" "launched B L i"
  shows "launched B L' i"
proof -
  have li: "launcher_inv L" and le: "int (length ps) + winsize (bs L) \<le> QUEUE_LEN"
    using inv by (simp_all add: senderInv_def)
  have "0 \<le> int i - int B" "int i - int B < QUEUE_LEN" using i le launcher_inv_D(8) [OF li] by linarith+
  then have "status (padOf L' (int i - int B)) = (if int i - int B \<in> set ks \<and> launchOk (env (wbase L + (int i - int B)))
      then SENT else status (padOf L (int i - int B)))"
    using f by (simp add: fired_def)
  with i(1,3) show ?thesis by (auto simp: launched_def)
qed

lemma fired_onAir:
  assumes inv: "senderInv start ps B L" and f: "fired env L (selected L [s]) n L'" and s: "live_statuses [s]"
    and k: "k \<in> set (selected L [s])" and x: "x \<in> set (onWire env L k)"
  shows "onAir ps B L' x"
proof -
  have li: "launcher_inv L" and bsy: "busy L = int (length ps) - int B" and wt: "waiting L = drop B (map core ps)"
    using inv by (simp_all add: senderInv_def)
  note D = launcher_inv_D [OF li] and F = fired_fields [OF f]
  have kw: "0 \<le> k" "k < winsize (bs L)" "status (padOf L k) \<in> set [s]"
    using k by (auto simp: selected_def picked_def split: if_splits)
  have kb: "k < busy L" using picked_busy(1) [OF li s kw(3,1)] kw(2) D(9) by simp
  from waiting_pad [OF li wt bsy kw(1) kb] obtain p where
    p: "pad_packet (padOf L k) = Some p" "core p = core (ps ! (B + nat k))" by blast
  have i: "B + nat k < length ps" using kb bsy kw(1) by linarith
  have lo: "launchOk (env (wbase L + k))" "snd (snd x) = wire_bytes (withPort (listenPort L) p)"
    using x p(1) by (auto simp: onWire_def Let_def split: if_splits)
  have "status (padOf L' k) = SENT" using f kw(1,2) D(9) k lo(1) by (simp add: fired_def)
  moreover have "int (B + nat k) - int B = k" using kw(1) by simp
  ultimately have "launched B L' (B + nat k)" unfolding launched_def by simp
  then show ?thesis
    unfolding onAir_def using i lo(2) core_eq_withPort [OF p(2)] kw F(3,6)
    by (intro exI [of _ "B + nat k"]) simp
qed

lemma senderInv_fired:
  assumes inv: "senderInv start ps B L" and f: "fired env L (selected L [s]) n L'" and s: "live_statuses [s]"
  shows "senderInv start ps B L'" and "\<And>i. B \<le> i \<Longrightarrow> i < length ps \<Longrightarrow> launched B L i \<Longrightarrow> launched B L' i"
proof -
  note F = fired_fields [OF f]
  show "\<And>i. B \<le> i \<Longrightarrow> i < length ps \<Longrightarrow> launched B L i \<Longrightarrow> launched B L' i" by (rule fired_launched [OF inv f])
  have old: "onAir ps B L' x" if "x \<in> set (wire L)" for x
  proof -
    from inv that obtain i where i: "i < length ps" "snd (snd x) = wire_bytes (withPort (listenPort L) (ps ! i))"
      "int i < int B + winsize (bs L)" "launched B L i" by (auto simp: senderInv_def onAir_def)
    have "launched B L' i"
      using fired_launched [OF inv f, of i] i(1,4) by (cases "B \<le> i") (simp_all add: launched_def)
    with i F(3,6) show ?thesis unfolding onAir_def by metis
  qed
  have "wire L' = wire L @ concat (map (onWire env L) (selected L [s]))" using f by (simp add: fired_def)
  then have "\<forall>x\<in>set (wire L'). onAir ps B L' x" using old fired_onAir [OF inv f s] by auto
  then show "senderInv start ps B L'"
    using inv F signalOf_cong [OF F(11,12)] signals_ok_cong [OF F(11,12)]
    by (simp add: senderInv_def)
qed

lemma onAir_cong:
  assumes "bs L' = bs L" "listenPort L' = listenPort L"
  shows "onAir ps B L' x = onAir ps B L x" "launched B L' i = launched B L i"
  using assms by (simp_all add: onAir_def launched_def)

text \<open>Changes of the timer and of the pending events.\<close>

lemma senderInv_other:
  assumes inv: "senderInv start ps B L" and t: "timer_ok t"
    and q: "set q \<subseteq> {newSig L, timeSig L}"
  shows "senderInv start ps B (L\<lparr>ltimer := t, pending := q\<rparr>)"
proof -
  have "signalOf (L\<lparr>ltimer := t, pending := q\<rparr>) e = signalOf L e" for e by (simp add: signalOf_def)
  moreover have "signals_ok (L\<lparr>ltimer := t, pending := q\<rparr>) = signals_ok L" by (simp add: signals_ok_def)
  moreover have "onAir ps B (L\<lparr>ltimer := t, pending := q\<rparr>) x = onAir ps B L x" for x
    by (rule onAir_cong) simp_all
  ultimately show ?thesis using inv t q by (simp add: senderInv_def)
qed

lemma same_fields [simp]:
  "L\<lparr>ltimer := t, pending := pending L\<rparr> = L\<lparr>ltimer := t\<rparr>"
  "L\<lparr>ltimer := ltimer L, pending := q\<rparr> = L\<lparr>pending := q\<rparr>"
  by (cases L, simp)+

lemma senderInv_ltimer:
  assumes "senderInv start ps B L" "timer_ok t"
  shows "senderInv start ps B (L\<lparr>ltimer := t\<rparr>)"
proof -
  have "set (pending L) \<subseteq> {newSig L, timeSig L}" using assms(1) by (simp add: senderInv_def)
  from senderInv_other [OF assms this] show ?thesis by simp
qed

lemma senderInv_pending:
  assumes "senderInv start ps B L" "set q \<subseteq> {newSig L, timeSig L}"
  shows "senderInv start ps B (L\<lparr>pending := q\<rparr>)"
proof -
  have "timer_ok (ltimer L)" using assms(1) by (simp add: senderInv_def)
  from senderInv_other [OF assms(1) this assms(2)] show ?thesis by simp
qed

text \<open>A signal is one of the two events; the handler keeps the sender's invariant.\<close>

definition timerAfterNew :: "int \<Rightarrow> timer \<Rightarrow> timer" where
  "timerAfterNew n t = (if 0 < n \<and> \<not> isAlive t
     then \<lparr>ring = True, isAlive = True, atTimeout = AT_TIMEOUT_RING_THEN_RESTART\<rparr> else t)"

definition timerAfterTimeout :: "int \<Rightarrow> timer \<Rightarrow> timer" where
  "timerAfterTimeout n t = (if n = 0 \<and> isAlive t
     then t\<lparr>atTimeout := AT_TIMEOUT_SHUTDOWN, isAlive := False\<rparr> else t)"

text \<open>An event fires the pads of its status and sets the timer.\<close>

lemma signal_fires:
  assumes inv: "senderInv start ps B L" and sig: "sig \<in> {newSig L, timeSig L}"
    and h: "launcherSigHandler env sig L = Some L'"
  shows "\<exists>s n L2 t. live_statuses [s] \<and> fired env L (selected L [s]) n L2 \<and> L' = L2\<lparr>ltimer := t\<rparr> \<and> timer_ok t
      \<and> (sig = newSig L \<and> s = READY \<and> t = timerAfterNew n (ltimer L)
         \<or> sig = timeSig L \<and> s = SENT \<and> t = timerAfterTimeout n (ltimer L))"
proof (cases "sig = newSig L")
  case True
  note I = senderInv_D [OF inv]
  from handler_new_packets [OF I(1,2), of env] obtain n L2 where
    "fired env L (selected L [READY]) n L2" "L' = L2\<lparr>ltimer := timerAfterNew n (ltimer L)\<rparr>"
    using h True by (auto simp: timerAfterNew_def)
  moreover have "timer_ok (timerAfterNew n (ltimer L))" using I(6) by (auto simp: timer_ok_def timerAfterNew_def)
  ultimately show ?thesis using True by (intro exI [of _ READY]) auto
next
  case False
  note I = senderInv_D [OF inv]
  from handler_timed_out [OF I(1,2), of env] obtain n L2 where
    "fired env L (selected L [SENT]) n L2" "L' = L2\<lparr>ltimer := timerAfterTimeout n (ltimer L)\<rparr>"
    using h sig False by (auto simp: timerAfterTimeout_def)
  moreover have "timer_ok (timerAfterTimeout n (ltimer L))" using I(6) by (auto simp: timer_ok_def timerAfterTimeout_def)
  ultimately show ?thesis using sig False by (intro exI [of _ SENT]) auto
qed

lemma senderInv_signal:
  assumes inv: "senderInv start ps B L" and sig: "sig \<in> set (pending L)"
    and h: "launcherSigHandler env sig (L\<lparr>pending := remove1 sig (pending L)\<rparr>) = Some L'"
  shows "senderInv start ps B L'"
    and "listenPort L' = listenPort L" and "winsize (bs L') = winsize (bs L)"
    and "\<And>i. B \<le> i \<Longrightarrow> i < length ps \<Longrightarrow> launched B L i \<Longrightarrow> launched B L' i"
    and "pending L' = remove1 sig (pending L)"
    and "sig = newSig L \<and> (\<exists>n L2. fired env (L\<lparr>pending := remove1 sig (pending L)\<rparr>)
           (selected L [READY]) n L2 \<and> L' = L2\<lparr>ltimer := timerAfterNew n (ltimer L)\<rparr>)
       \<or> sig = timeSig L \<and> (\<exists>n L2. fired env (L\<lparr>pending := remove1 sig (pending L)\<rparr>)
           (selected L [SENT]) n L2 \<and> L' = L2\<lparr>ltimer := timerAfterTimeout n (ltimer L)\<rparr>)"
proof -
  let ?L1 = "L\<lparr>pending := remove1 sig (pending L)\<rparr>"
  have s1: "senderInv start ps B ?L1"
  proof (rule senderInv_pending [OF inv])
    show "set (remove1 sig (pending L)) \<subseteq> {newSig L, timeSig L}"
      using inv set_remove1_subset [of sig "pending L"] by (auto simp: senderInv_def)
  qed
  have eqs: "newSig ?L1 = newSig L" "timeSig ?L1 = timeSig L" by (simp_all add: signalOf_def)
  have sel: "selected ?L1 x = selected L x" for x
    by (simp add: selected_def picked_def [abs_def] msgAt_def)
  have la: "launched B ?L1 i = launched B L i" for i by (simp add: launched_def)
  have "sig \<in> {newSig ?L1, timeSig ?L1}" using sig inv eqs by (auto simp: senderInv_def)
  from signal_fires [OF s1 this h] eqs obtain s n L2 t where
    s: "live_statuses [s]" "fired env ?L1 (selected ?L1 [s]) n L2" "L' = L2\<lparr>ltimer := t\<rparr>" "timer_ok t" and
    which: "sig = newSig L \<and> s = READY \<and> t = timerAfterNew n (ltimer L)
         \<or> sig = timeSig L \<and> s = SENT \<and> t = timerAfterTimeout n (ltimer L)" by auto
  note fi = senderInv_fired [OF s1 s(2,1)]
  have fr: "frame ?L1 L2" using s(2) by (simp add: fired_def)
  show "senderInv start ps B L'" using senderInv_ltimer [OF fi(1) s(4)] s(3) by simp
  show "listenPort L' = listenPort L" "winsize (bs L') = winsize (bs L)" "pending L' = remove1 sig (pending L)"
    using fr s(3) by (simp_all add: frame_def)
  show "launched B L' i" if "B \<le> i" "i < length ps" "launched B L i" for i
    using fi(2) [of i] that s(3) la by (simp add: launched_def)
  show "sig = newSig L \<and> (\<exists>n L2. fired env ?L1 (selected L [READY]) n L2 \<and> L' = L2\<lparr>ltimer := timerAfterNew n (ltimer L)\<rparr>)
       \<or> sig = timeSig L \<and> (\<exists>n L2. fired env ?L1 (selected L [SENT]) n L2 \<and> L' = L2\<lparr>ltimer := timerAfterTimeout n (ltimer L)\<rparr>)"
    using which s(2,3) sel by auto
qed

text \<open>A round of the timer keeps it.\<close>

lemma senderInv_timer:
  assumes inv: "senderInv start ps B L" and al: "isAlive (ltimer L)"
    and r: "timerRound (ltimer L) = (r, t')"
    and L': "L' = (if r then ringLauncher (L\<lparr>ltimer := t'\<rparr>) else L\<lparr>ltimer := t'\<rparr>)"
  shows "senderInv start ps B L'" "bs L' = bs L" "listenPort L' = listenPort L" "isAlive (ltimer L')"
    "pending L' = pending L @ (if r then [timeSig L] else [])"
    "r = (atTimeout (ltimer L) = AT_TIMEOUT_RING_THEN_RESTART)"
    "atTimeout (ltimer L') = AT_TIMEOUT_RING_THEN_RESTART"
proof -
  have t: "timer_ok (ltimer L)" "signals_ok L" "isLauncherAvailable L" using inv by (simp_all add: senderInv_def)
  have t': "timer_ok t'" "isAlive t'" "r = (atTimeout (ltimer L) = AT_TIMEOUT_RING_THEN_RESTART)"
    "atTimeout t' = AT_TIMEOUT_RING_THEN_RESTART"
    using t(1) al r by (auto simp: timer_ok_def timerRound_def split: atTimeout_action.splits)
  have n: "timeSig (L\<lparr>ltimer := t'\<rparr>) = timeSig L" "timeSig L \<noteq> - 1"
    using signalOf_eq [OF t(2)] t(2) by (simp_all add: signalOf_def signals_ok_def)
  have rl: "ringLauncher (L\<lparr>ltimer := t'\<rparr>) = L\<lparr>ltimer := t', pending := pending L @ [timeSig L]\<rparr>"
    using n t(3) by (simp add: ringLauncher_def notifyLauncher_def getLauncherId_def)
  have q: "set (pending L @ [timeSig L]) \<subseteq> {newSig L, timeSig L}" using inv by (auto simp: senderInv_def)
  show "senderInv start ps B L'"
    using senderInv_ltimer [OF inv t'(1)] senderInv_other [OF inv t'(1) q] L' rl by simp
  show "bs L' = bs L" "listenPort L' = listenPort L" "isAlive (ltimer L')"
    "pending L' = pending L @ (if r then [timeSig L] else [])"
    "r = (atTimeout (ltimer L) = AT_TIMEOUT_RING_THEN_RESTART)"
    "atTimeout (ltimer L') = AT_TIMEOUT_RING_THEN_RESTART"
    using L' rl t' by simp_all
qed

subsection \<open>Acknowledgements of the message\<close>

text \<open>The distance of an acknowledgement of \<open>r\<close> packets from the base.\<close>

lemma ring_mod_cases:
  assumes "0 \<le> b" "b < QUEUE_LEN" "- QUEUE_LEN < x" "x < QUEUE_LEN"
  shows "(b + x) mod QUEUE_LEN = (if b + x < 0 then b + x + QUEUE_LEN
    else if b + x < QUEUE_LEN then b + x else b + x - QUEUE_LEN)"
proof -
  have "(b + x) mod QUEUE_LEN = b + x + QUEUE_LEN" if "b + x < 0"
    using that assms mod_add_self2 [of "b + x" QUEUE_LEN]
      mod_pos_pos_trivial [of "b + x + QUEUE_LEN" QUEUE_LEN] by simp
  moreover have "(b + x) mod QUEUE_LEN = b + x - QUEUE_LEN" if "QUEUE_LEN \<le> b + x"
  proof -
    have "(b + x - QUEUE_LEN + QUEUE_LEN) mod QUEUE_LEN = (b + x - QUEUE_LEN) mod QUEUE_LEN"
      by (rule mod_add_self2)
    then show ?thesis using that assms mod_pos_pos_trivial [of "b + x - QUEUE_LEN" QUEUE_LEN] by simp
  qed
  ultimately show ?thesis using assms by (simp add: mod_pos_pos_trivial)
qed

lemma ack_distance:
  assumes b: "wbase st = (start + int B) mod QUEUE_LEN" and B: "B \<le> n" "r \<le> n" "0 < r"
    and w: "int n + winsize (bs st) \<le> QUEUE_LEN" "0 < winsize (bs st)" "int r \<le> int B + winsize (bs st)"
    and i: "index (hdr ack) = (start + int r) mod QUEUE_LEN"
  shows "B \<le> r \<Longrightarrow> ackDistance st ack = int r - int B"
    and "ackAccepted st ack = (B < r \<and> wbase st + (int r - int B) \<le> QUEUE_LEN)"
proof -
  let ?b = "wbase st" and ?x = "int r - int B"
  have b0: "0 \<le> ?b" "?b < QUEUE_LEN" using b by simp_all
  have x: "- QUEUE_LEN < ?x" "?x < QUEUE_LEN" using B w by linarith+
  have "(?b + ?x) mod QUEUE_LEN = (start + int r) mod QUEUE_LEN"
    unfolding b mod_add_left_eq by simp
  then have ix: "index (hdr ack) = (if ?b + ?x < 0 then ?b + ?x + QUEUE_LEN
    else if ?b + ?x < QUEUE_LEN then ?b + ?x else ?b + ?x - QUEUE_LEN)"
    using i ring_mod_cases [OF b0 x] by simp
  show d: "ackDistance st ack = ?x" if "B \<le> r"
    using ix that b0 x by (simp add: ackDistance_def)
  show "ackAccepted st ack = (B < r \<and> ?b + ?x \<le> QUEUE_LEN)"
  proof (cases "B \<le> r")
    case True
    then show ?thesis using d w(3) by (auto simp: ackAccepted_def)
  next
    case False
    have dist: "ackDistance st ack = ?x + QUEUE_LEN"
      using ix False b0 x by (auto simp: ackDistance_def)
    have "\<not> ?x + QUEUE_LEN \<le> winsize (bs st)" using B w False by linarith
    then show ?thesis using dist False by (simp add: ackAccepted_def)
  qed
qed

lemma ackFor_simps [simp]:
  "index (hdr (ackFor p e)) = e" "endIndex (hdr (ackFor p e)) = endIndex (hdr p)"
  "msgId (hdr (ackFor p e)) = msgId (hdr p)" "isAck (hdr (ackFor p e))" "data (ackFor p e) = []"
  by (simp_all add: ackFor_def newPacket_def)

lemma endsMessage_last:
  assumes m: "message_packets start mid ps" and p: "i < length ps" and r: "r \<le> length ps"
    and e: "(start + int r) mod QUEUE_LEN = c_rem (wrap32 (endIndex (hdr (ps ! i)) + 1)) QUEUE_LEN"
    and n: "int (length ps) < QUEUE_LEN" and pos: "0 < r"
  shows "r = length ps"
proof -
  let ?e = "(start + int (length ps) - 1) mod QUEUE_LEN"
  have "c_int (?e + 1)" using ring_index [of "start + int (length ps) - 1"]
    unfolding c_int_def QUEUE_LEN_def by linarith
  then have "c_rem (wrap32 (?e + 1)) QUEUE_LEN = (?e + 1) mod QUEUE_LEN"
    by (simp add: wrap32_id c_simps)
  also have "\<dots> = (start + int (length ps)) mod QUEUE_LEN"
    using mod_add_left_eq [of "start + int (length ps) - 1" QUEUE_LEN 1] by simp
  finally have "(start + int r) mod QUEUE_LEN = (start + int (length ps)) mod QUEUE_LEN"
    using e packet_at(5) [OF m p] by simp
  then show ?thesis using ring_same_iff [of "int r" "int (length ps)" start] r n by simp
qed

text \<open>An acknowledgement that the receiver sent either changes nothing but the listener's buffer
  or moves the sender to the number of packets it tells.\<close>

definition ackedTo :: "int \<Rightarrow> packet list \<Rightarrow> nat \<Rightarrow> launcherState \<Rightarrow> nat \<Rightarrow> launcherState \<Rightarrow> bool" where
  "ackedTo start ps B L B' L' \<longleftrightarrow> senderInv start ps B' L' \<and> (\<forall>i<length ps. launched B L i \<longrightarrow> launched B' L' i)
     \<and> (B' = B \<longrightarrow> bs L' = bs L \<and> pending L' = pending L)
     \<and> (B' \<noteq> B \<longrightarrow> newSig L \<in> set (pending L') \<and> (\<forall>i<length ps. B' \<le> i \<longrightarrow>
           status (padOf L' (int i - int B')) = status (padOf L (int i - int B))))
     \<and> isAlive (ltimer L') = isAlive (ltimer L) \<and> listenPort L' = listenPort L
     \<and> winsize (bs L') = winsize (bs L) \<and> set (pending L) \<subseteq> set (pending L')
     \<and> newSig L' = newSig L \<and> timeSig L' = timeSig L"

text \<open>An acknowledgement that is not accepted leaves only its bytes in the buffer.\<close>

lemma ackedTo_received:
  assumes "senderInv start ps B L" "length bytes = 24"
  shows "ackedTo start ps B L B ((received bytes L)\<lparr>eventsBlocked := False\<rparr>)"
proof -
  let ?L' = "(received bytes L)\<lparr>eventsBlocked := False\<rparr>"
  have "signalOf ?L' e = signalOf L e" "signals_ok ?L' = signals_ok L" for e
    by (simp_all add: received_def signalOf_def signals_ok_def)
  moreover have "onAir ps B ?L' x = onAir ps B L x" "launched B ?L' j = launched B L j" for x j
    by (rule onAir_cong; simp)+
  moreover have "launcher_inv ?L'"
    using launcher_inv_received [OF senderInv_D(1) [OF assms(1)] assms(2)] by simp
  ultimately have "senderInv start ps B ?L'"
    using assms(1) by (simp add: senderInv_def) (simp add: received_def)
  then show ?thesis unfolding ackedTo_def
    by (simp add: received_def signalOf_def launched_def)
qed

text \<open>The acknowledgement that slides the window to the end of the message comes with the last packet.\<close>

lemma slide_to_end:
  assumes inv: "senderInv start ps B L" and m: "message_packets start mid ps" and i: "i < length ps"
    and r: "0 < r" "r \<le> length ps" and slides: "B < r"
    and e: "wbase L + (int r - int B) = c_rem (wrap32 (endIndex (hdr (ps ! i)) + 1)) QUEUE_LEN"
  shows "r = length ps"
proof (rule endsMessage_last [OF m i r(2) _ _ r(1)])
  note S = senderInv_D [OF inv]
  note D = launcher_inv_D [OF S(1)]
  show "int (length ps) < QUEUE_LEN" using S(7) D(8) by linarith
  have "wbase L + (int r - int B) < QUEUE_LEN" unfolding e using c_rem_bounds by simp
  then have "(wbase L + (int r - int B)) mod QUEUE_LEN = wbase L + (int r - int B)"
    using D(4) slides by (intro mod_pos_pos_trivial) auto
  moreover have "(wbase L + (int r - int B)) mod QUEUE_LEN = (start + int r) mod QUEUE_LEN"
    unfolding S(9) mod_add_left_eq by (simp add: algebra_simps)
  ultimately show "(start + int r) mod QUEUE_LEN = c_rem (wrap32 (endIndex (hdr (ps ! i)) + 1)) QUEUE_LEN"
    using e by simp
qed

text \<open>The window slides: what was launched stays launched, the rest keeps its status.\<close>

lemma slid_launched:
  assumes "busy L = int (length ps) - int B" "B < r"
    and "\<And>k. 0 \<le> k \<Longrightarrow> k < busy L - (int r - int B) \<Longrightarrow> padOf L' k = padOf L (int r - int B + k)"
  shows "r \<le> j \<Longrightarrow> j < length ps \<Longrightarrow> status (padOf L' (int j - int r)) = status (padOf L (int j - int B))"
    and "launched B L j \<Longrightarrow> j < length ps \<Longrightarrow> launched r L' j"
proof -
  show stat: "status (padOf L' (int j - int r)) = status (padOf L (int j - int B))" if "r \<le> j" "j < length ps"
    using assms(3) [of "int j - int r"] that assms(1) by (simp add: algebra_simps)
  show "launched r L' j" if "launched B L j" "j < length ps"
    using stat that assms(2) by (cases "r \<le> j") (auto simp: launched_def)
qed

lemma ackedTo_slid:
  assumes inv: "senderInv start ps B L" and r: "B < r" "r \<le> length ps" and len: "length bytes = 24"
    and L2: "launcher_inv L2" "slid now ack (received bytes L) L2" "ackDistance (received bytes L) ack = int r - int B"
  shows "ackedTo start ps B L r (L2\<lparr>eventsBlocked := False\<rparr>)"
proof -
  note I = senderInv_D [OF inv]
  let ?d = "int r - int B" and ?L' = "L2\<lparr>eventsBlocked := False\<rparr>"
  note S = L2(2) [unfolded slid_def L2(3) Let_def, simplified]
  have F: "sigrtmin ?L' = sigrtmin L" "sigrtmax ?L' = sigrtmax L" "listenPort ?L' = listenPort L"
    "winsize (bs ?L') = winsize (bs L)" "isLauncherAvailable ?L' = isLauncherAvailable L"
    "wire ?L' = wire L" "busy ?L' = int (length ps) - int r"
    using S I(10) by (simp_all add: received_def)
  have sig: "signalOf ?L' e = signalOf L e" "signals_ok ?L'" for e
    using signalOf_cong [OF F(1,2)] signals_ok_cong [OF F(1,2)] I(2) by simp_all
  have "newSig L \<noteq> - 1" using signalOf_eq [OF I(2)] I(2) by (simp add: signals_ok_def)
  moreover have "newSig (received bytes L) = newSig L" by (simp add: signalOf_def received_def)
  ultimately have pend: "pending ?L' = pending L @ [newSig L]"
    using S I(3) by (simp add: notifyLauncher_def getLauncherId_def received_def)
  have pads: "padOf ?L' k = padOf L (?d + k)" if "0 \<le> k" "k < busy L - ?d" for k using S that by simp
  note la = slid_launched [OF I(10) r(1) pads]
  have "waiting ?L' = drop r (map core ps)" using S I(11) r(1) by (simp add: nat_diff_distrib)
  moreover have "wbase ?L' = (wbase L + ?d) mod QUEUE_LEN" using S by simp
  then have "wbase ?L' = (start + int r) mod QUEUE_LEN" unfolding I(9) mod_add_left_eq by simp
  moreover have t: "timer_ok (ltimer ?L')" "isAlive (ltimer ?L') = isAlive (ltimer L)"
    using S I(6) by (auto simp: timer_ok_def timeout_def received_def)
  moreover have "onAir ps r ?L' x" if "x \<in> set (wire L)" for x
  proof -
    from I(12) [OF that] obtain j where "j < length ps" "snd (snd x) = wire_bytes (withPort (listenPort L) (ps ! j))"
      "int j < int B + winsize (bs L)" "launched B L j" unfolding onAir_def by blast
    moreover from this have "int j < int r + winsize (bs ?L')" using r(1) F(4) by linarith
    ultimately show ?thesis unfolding onAir_def F(3) using la(2) by blast
  qed
  ultimately have "senderInv start ps r ?L'"
    using L2(1) sig F pend I(3,5,7) r(2) unfolding senderInv_def by simp
  then show ?thesis using r(1) F pend sig la t(2) by (auto simp: ackedTo_def)
qed

text \<open>An acknowledgement of the message that is accepted is honest.\<close>

lemma message_ack_honest:
  assumes inv: "senderInv start ps B L" and m: "message_packets start mid ps"
    and i: "i < length ps" and r: "0 < r" "r \<le> length ps" "int r \<le> int B + winsize (bs L)"
    and L1: "L1 = received (wire_bytes (ackFor (ps ! i) ((start + int r) mod QUEUE_LEN))) L"
  shows "ackAccepted L1 (ackFor (ps ! i) ((start + int r) mod QUEUE_LEN))
        = (B < r \<and> wbase L + (int r - int B) \<le> QUEUE_LEN)"
    and "B < r \<Longrightarrow> ackDistance L1 (ackFor (ps ! i) ((start + int r) mod QUEUE_LEN)) = int r - int B"
    and "B < r \<Longrightarrow> wbase L + (int r - int B) \<le> QUEUE_LEN \<Longrightarrow>
      ackHonest L1 (ackFor (ps ! i) ((start + int r) mod QUEUE_LEN))"
proof -
  note I = senderInv_D [OF inv]
  let ?ack = "ackFor (ps ! i) ((start + int r) mod QUEUE_LEN)"
  note dist = ack_distance [OF I(9,8) r(2,1) I(7) launcher_inv_D(8) [OF I(1)] r(3), of ?ack, simplified]
  have bs: "bs L1 = bs L" "ackDistance L1 ?ack = ackDistance L ?ack" "ackAccepted L1 ?ack = ackAccepted L ?ack"
    by (simp_all add: L1 ackDistance_def ackAccepted_def)
  show "ackAccepted L1 ?ack = (B < r \<and> wbase L + (int r - int B) \<le> QUEUE_LEN)" using dist(2) bs by simp
  show d: "ackDistance L1 ?ack = int r - int B" if "B < r" using dist(1) that bs by simp
  have wf: "wf_packet ?ack" using wf_ackFor [OF packet_at(1) [OF m i]] by (simp add: c_int_ring)
  assume c: "B < r" "wbase L + (int r - int B) \<le> QUEUE_LEN"
  have "r = length ps" if "int r - int B + wbase L = c_rem (wrap32 (endIndex (hdr (ps ! i)) + 1)) QUEUE_LEN"
    using slide_to_end [OF inv m i r(1,2) c(1)] that by (simp add: add.commute)
  then show "ackHonest L1 ?ack" using wf d [OF c(1)] I(10) r(2) bs by (auto simp: ackHonest_def)
qed

lemma senderInv_ack:
  assumes inv: "senderInv start ps B L" and m: "message_packets start mid ps"
    and i: "i < length ps" and r: "0 < r" "r \<le> R"
    and bytes: "bytes = wire_bytes (ackFor (ps ! i) ((start + int r) mod QUEUE_LEN))"
    and R: "int R \<le> int B + winsize (bs L)" "R \<le> length ps"
  shows "\<exists>L'. listenForAcksStep now bytes L = Some L'
    \<and> ackedTo start ps B L (if B < r \<and> wbase L + (int r - int B) \<le> QUEUE_LEN then r else B) L'"
proof -
  note I = senderInv_D [OF inv]
  let ?ack = "ackFor (ps ! i) ((start + int r) mod QUEUE_LEN)" and ?L1 = "received bytes L"
  have wf: "wf_packet ?ack" using wf_ackFor [OF packet_at(1) [OF m i]] by (simp add: c_int_ring)
  have len: "length bytes = 24" by (simp add: bytes wire_bytes_def)
  note li1 = launcher_inv_received [OF I(1) len]
  have step: "listenForAcksStep now bytes L =
      map_option (\<lambda>s. s\<lparr>eventsBlocked := False\<rparr>) (processAck now ?ack ?L1)"
    using listenForAcksStep_packet [OF I(1) wf, of now] bytes by simp
  have rn: "r \<le> length ps" "int r \<le> int B + winsize (bs L)" using r R by linarith+
  note H = message_ack_honest [OF inv m i r(1) rn, of ?L1, unfolded bytes [symmetric], OF refl]
  show ?thesis
  proof (cases "B < r \<and> wbase L + (int r - int B) \<le> QUEUE_LEN")
    case False
    then have "processAck now ?ack ?L1 = Some ?L1"
      using processAck_ignored [OF li1, of ?ack] H(1) by simp
    then show ?thesis using step ackedTo_received [OF inv len] unfolding if_not_P [OF False] by simp
  next
    case True
    have acc: "ackAccepted ?L1 ?ack" using H(1) True by simp
    from True processAck_slides [OF li1 acc H(3), of now] obtain L2 where
      L2: "processAck now ?ack ?L1 = Some L2" "launcher_inv L2" "slid now ?ack ?L1 L2" by blast
    with step True ackedTo_slid [OF inv _ rn(1) len L2(2,3) H(2)] show ?thesis by simp
  qed
qed

subsection \<open>The system invariant\<close>

definition sysInv :: "sockaddr_in \<Rightarrow> int \<Rightarrow> int \<Rightarrow> packet list \<Rightarrow> nat \<Rightarrow> nat \<Rightarrow> system \<Rightarrow> bool" where
  "sysInv sa start mid ps B R s \<longleftrightarrow> message_packets start mid ps \<and> senderInv start ps B (sender s)
     \<and> B \<le> R \<and> int R \<le> int B + winsize (bs (sender s))
     \<and> catching sa (listenPort (sender s)) start ps R (receiver s)
     \<and> (\<forall>a\<in>set (acks (receiver s)). ack_of sa (listenPort (sender s)) start ps R a)
     \<and> (\<forall>i<R. launched B (sender s) i)
     \<and> (\<forall>r. 0 < r \<and> r \<le> R \<longrightarrow> (\<exists>i<length ps. (sa\<lparr>sin_port := listenPort (sender s)\<rparr>,
          wire_bytes (ackFor (ps ! i) ((start + int r) mod QUEUE_LEN))) \<in> set (acks (receiver s))))"

definition liveInv :: "packet list \<Rightarrow> nat \<Rightarrow> launcherState \<Rightarrow> bool" where
  "liveInv ps B L \<longleftrightarrow> (B < length ps \<longrightarrow>
     (status (padOf L 0) = READY \<longrightarrow> newSig L \<in> set (pending L))
     \<and> (status (padOf L 0) = SENT \<longrightarrow> isAlive (ltimer L)))"

lemma started_sysInv:
  assumes "started msg g s"
  shows "sysInv sa (wbase (launch g)) (lastMsgId g)
      (stampedPackets (wbase (launch g)) (lastMsgId g) msg) 0 0 s"
    and "liveInv (stampedPackets (wbase (launch g)) (lastMsgId g) msg) 0 (sender s)"
proof -
  let ?L = "launch g" and ?mid = "lastMsgId g"
  let ?ps = "stampedPackets (wbase ?L) ?mid msg"
  from assms obtain sdn dst alen handler g' where id: "idle ?L" and mi: "msg_id_inv ?mid"
    and fr: "tableOf ?L ?mid = None" and ne: "msg \<noteq> []"
    and n: "int (numOfPackets msg) + winsize (bs ?L) \<le> QUEUE_LEN" and al: "alen \<le> addrSize"
    and sm: "sendMessageGbn sdn dst alen msg (length msg) handler g = Some (0, g')"
    and s: "s = \<lparr>sender = launch g', receiver = listenForDataInit\<rparr>"
    unfolding started_def by blast
  have li: "launcher_inv ?L" and b0: "busy ?L = 0" using id by (simp_all add: idle_def)
  note D = launcher_inv_D [OF li]
  have st: "nextAvailableIndex (battery (bs ?L)) = wbase ?L"
    using D(1,4,5) b0 by (simp add: battery_inv_def)
  have "int (numOfPackets msg) \<le> contiguousPadsAvailable (battery (bs ?L))"
    using b0 n D(8) by (simp add: used_def)
  with sendMessageGbn_spec [OF li mi fr ne al, of sdn dst handler] sm
  have e: "enqueued msg ?mid (entryFor sdn dst alen handler) ?L (launch g')" by auto
  have mp: "message_packets (wbase ?L) ?mid ?ps"
    using n D(4,5,8) mi by (intro stamped_message ne) (auto simp: msg_id_inv_def c_int_def)
  have so: "signals_ok ?L" "isLauncherAvailable ?L" "pending ?L = []" using id by (simp_all add: idle_def)
  have sig: "signalOf (launch g') x = signalOf ?L x" "signals_ok (launch g') = signals_ok ?L" for x
    using e by (simp_all add: enqueued_def signalOf_def signals_ok_def)
  have pn: "pending (launch g') = [newSig ?L]"
  proof -
    have "newSig ?L \<noteq> - 1" using signalOf_eq [OF so(1)] so(1) by (simp add: signals_ok_def)
    then show ?thesis using e so by (simp add: enqueued_def notifyLauncher_def getLauncherId_def)
  qed
  have w0: "waiting ?L = []" using b0 by (simp add: waiting_def queue_def)
  have psub: "set (pending (launch g')) \<subseteq> {newSig (launch g'), timeSig (launch g')}"
    using pn sig by simp
  have "senderInv (wbase ?L) ?ps 0 (launch g')"
    using e id n D(4,5) sig psub st w0 b0 so(1)
    by (simp add: senderInv_def enqueued_def idle_def timer_ok_def)
  moreover have "?ps \<noteq> []" using mp by (simp add: message_packets_def)
  then have "catching sa (listenPort (launch g')) (wbase ?L) ?ps 0 listenForDataInit" by (simp add: catching_init)
  moreover have "0 \<le> winsize (bs (launch g'))" using e D(8) by (simp add: enqueued_def)
  ultimately show "sysInv sa (wbase ?L) ?mid ?ps 0 0 s"
    using mp by (auto simp: sysInv_def s listenForDataInit_def)
  have "0 < numOfPackets msg" using \<open>?ps \<noteq> []\<close> length_stamped by (metis length_greater_0_conv)
  then have "status (padOf (launch g') 0) = READY" using e b0 by (simp add: enqueued_def)
  then show "liveInv ?ps 0 (sender s)" using pn sig by (simp add: liveInv_def s)
qed

lemma ackFor_withPort [simp]: "ackFor (withPort prt p) e = ackFor p e"
  by (simp add: ackFor_def withPort_def)

text \<open>The receiver's step on a packet of the message.\<close>

lemma sysInv_packet:
  assumes inv: "sysInv sa start mid ps B R s" and x: "(sdn, dst, bytes) \<in> set (wire (sender s))"
    and mo: "morePackets (receiver s)"
  shows "\<exists>r' i. listenForDataStep sa bytes (receiver s) = Some r' \<and> i < length ps
    \<and> bytes = wire_bytes (withPort (listenPort (sender s)) (ps ! i))
    \<and> sysInv sa start mid ps B (recvOne (length ps) R i) (s\<lparr>receiver := r'\<rparr>)"
proof -
  let ?L = "sender s" and ?prt = "listenPort (sender s)" and ?n = "length ps"
  have m: "message_packets start mid ps" and c: "catching sa ?prt start ps R (receiver s)"
    and bnd: "B \<le> R" "int R \<le> int B + winsize (bs ?L)" and la: "\<forall>i<R. launched B ?L i"
    and as: "\<forall>a\<in>set (acks (receiver s)). ack_of sa ?prt start ps R a"
    using inv by (simp_all add: sysInv_def)
  have R: "R < ?n" using c mo by (auto simp: catching_def)
  have "\<forall>x\<in>set (wire ?L). onAir ps B ?L x" using inv by (simp add: sysInv_def senderInv_def)
  with x have "onAir ps B ?L (sdn, dst, bytes)" by blast
  then obtain i where i: "i < ?n" "bytes = wire_bytes (withPort ?prt (ps ! i))"
    "int i < int B + winsize (bs ?L)" "launched B ?L i"
    by (auto simp: onAir_def)
  let ?R = "recvOne ?n R i"
  from listenForDataStep_packet [OF m c i(1) R] obtain r' where
    r': "listenForDataStep sa bytes (receiver s) = Some r'" "catching sa ?prt start ps ?R r'"
    "acks r' = acks (receiver s) @ (if ?R = 0 then [] else
        [(sa\<lparr>sin_port := ?prt\<rparr>, wire_bytes (ackFor (ps ! i) ((start + int ?R) mod QUEUE_LEN)))])"
    using i(2) by auto
  have mono: "R \<le> ?R" "?R = R \<or> ?R = Suc R \<and> i = R" by (auto simp: recvOne_def)
  have new: "ack_of sa ?prt start ps ?R (sa\<lparr>sin_port := ?prt\<rparr>,
      wire_bytes (ackFor (ps ! i) ((start + int ?R) mod QUEUE_LEN)))" if "?R \<noteq> 0"
    using that i(1) unfolding ack_of_def by blast
  have "\<forall>a\<in>set (acks r'). ack_of sa ?prt start ps ?R a"
    using as ack_of_mono [OF _ mono(1)] new r'(3) by auto
  moreover have "\<forall>j<?R. launched B ?L j" using la i(4) mono(2) by (auto simp: less_Suc_eq)
  moreover have "int ?R \<le> int B + winsize (bs ?L)" using bnd(2) i(3) mono(2) by auto
  moreover have "\<exists>j<?n. (sa\<lparr>sin_port := ?prt\<rparr>,
      wire_bytes (ackFor (ps ! j) ((start + int r) mod QUEUE_LEN))) \<in> set (acks r')"
    if "0 < r" "r \<le> ?R" for r
  proof (cases "r \<le> R")
    case True
    then show ?thesis using inv that(1) r'(3) by (auto simp: sysInv_def)
  next
    case False
    then have "r = ?R" using that(2) mono(2) by auto
    then show ?thesis using r'(3) i(1) that(1) by auto
  qed
  ultimately have "sysInv sa start mid ps B ?R (s\<lparr>receiver := r'\<rparr>)"
    using inv r'(2) bnd(1) mono(1) by (simp add: sysInv_def)
  then show ?thesis using r'(1) i(1,2) by blast
qed

text \<open>The sender's step on an acknowledgement of the message.\<close>

lemma sysInv_ack:
  assumes inv: "sysInv sa start mid ps B R s"
    and i: "i < length ps" and r: "0 < r" "r \<le> R"
    and bytes: "bytes = wire_bytes (ackFor (ps ! i) ((start + int r) mod QUEUE_LEN))"
  shows "\<exists>L'. listenForAcksStep now bytes (sender s) = Some L'
    \<and> sysInv sa start mid ps (if B < r \<and> wbase (sender s) + (int r - int B) \<le> QUEUE_LEN then r else B) R
        (s\<lparr>sender := L'\<rparr>)
    \<and> (liveInv ps B (sender s) \<longrightarrow>
        liveInv ps (if B < r \<and> wbase (sender s) + (int r - int B) \<le> QUEUE_LEN then r else B) L')"
proof -
  let ?L = "sender s" and ?prt = "listenPort (sender s)" and ?n = "length ps"
  let ?cond = "B < r \<and> wbase ?L + (int r - int B) \<le> QUEUE_LEN"
  let ?B = "if ?cond then r else B"
  have m: "message_packets start mid ps" and s: "senderInv start ps B ?L"
    and c: "catching sa ?prt start ps R (receiver s)" and la: "\<forall>i<R. launched B ?L i"
    and bnd: "B \<le> R" "int R \<le> int B + winsize (bs ?L)"
    using inv by (simp_all add: sysInv_def)
  have Rn: "R \<le> ?n" using c by (simp add: catching_def)
  from senderInv_ack [OF s m i r bytes bnd(2) Rn, of now] obtain L' where
    L': "listenForAcksStep now bytes ?L = Some L'" "senderInv start ps ?B L'"
    "\<And>j. j < ?n \<Longrightarrow> launched B ?L j \<Longrightarrow> launched ?B L' j"
    "?B = B \<Longrightarrow> bs L' = bs ?L \<and> pending L' = pending ?L"
    "?B \<noteq> B \<Longrightarrow> newSig ?L \<in> set (pending L') \<and> (\<forall>j<?n. ?B \<le> j \<longrightarrow>
         status (padOf L' (int j - int ?B)) = status (padOf ?L (int j - int B)))"
    "isAlive (ltimer L') = isAlive (ltimer ?L)" "listenPort L' = ?prt" "winsize (bs L') = winsize (bs ?L)"
    "newSig L' = newSig ?L"
    unfolding ackedTo_def by blast
  have B: "B \<le> ?B" "?B \<le> R" using r bnd(1) by auto
  have "\<forall>j<R. launched ?B L' j" using L'(3) la Rn by auto
  then have "sysInv sa start mid ps ?B R (s\<lparr>sender := L'\<rparr>)"
    using inv L'(2,7,8) B by (simp add: sysInv_def)
  moreover have "liveInv ps ?B L'" if lv: "liveInv ps B ?L"
  proof (cases ?cond)
    case False
    then have "?B = B" by simp
    with lv L'(4,6,9) show ?thesis by (simp add: liveInv_def)
  next
    case True
    then have BB: "?B \<noteq> B" "B < R" using r by auto
    have "status (padOf ?L 0) = SENT" using la BB(2) by (auto simp: launched_def)
    moreover have "B < ?n" using BB(2) Rn by linarith
    ultimately have "isAlive (ltimer ?L)" using lv by (simp add: liveInv_def)
    then show ?thesis using L'(5) [OF BB(1)] L'(6,9) by (simp add: liveInv_def)
  qed
  ultimately show ?thesis using L'(1) by blast
qed

text \<open>The sender's step on an event and on a round of the timer.\<close>

lemma sysInv_signal:
  assumes inv: "sysInv sa start mid ps B R s" and sig: "sig \<in> set (pending (sender s))"
    and h: "launcherSigHandler env sig ((sender s)\<lparr>pending := remove1 sig (pending (sender s))\<rparr>) = Some L'"
  shows "sysInv sa start mid ps B R (s\<lparr>sender := L'\<rparr>)"
proof -
  have s: "senderInv start ps B (sender s)" and c: "catching sa (listenPort (sender s)) start ps R (receiver s)"
    and la: "\<forall>i<R. launched B (sender s) i"
    using inv by (simp_all add: sysInv_def)
  note S = senderInv_signal [OF s sig h]
  have "R \<le> length ps" using c by (simp add: catching_def)
  then have "launched B L' i" if "i < R" for i
  proof (cases "B \<le> i")
    case True
    then show ?thesis using S(4) [OF True] la that \<open>R \<le> length ps\<close> by simp
  qed (simp add: launched_def)
  then show ?thesis using inv S(1-3) by (simp add: sysInv_def)
qed

lemma sysInv_timer:
  assumes inv: "sysInv sa start mid ps B R s" and al: "isAlive (ltimer (sender s))"
    and r: "timerRound (ltimer (sender s)) = (r, t')"
    and L': "L' = (if r then ringLauncher ((sender s)\<lparr>ltimer := t'\<rparr>) else (sender s)\<lparr>ltimer := t'\<rparr>)"
  shows "sysInv sa start mid ps B R (s\<lparr>sender := L'\<rparr>)"
proof -
  have s: "senderInv start ps B (sender s)" using inv by (simp add: sysInv_def)
  note T = senderInv_timer [OF s al r L']
  have "launched B L' i = launched B (sender s) i" for i using T(2) by (simp add: launched_def)
  then show ?thesis using inv T(1-3) by (simp add: sysInv_def)
qed

lemma sysInv_step:
  assumes inv: "sysInv sa start mid ps B R s" and st: "sysStep ok sa s s'"
  shows "\<exists>B' R'. B \<le> B' \<and> R \<le> R' \<and> sysInv sa start mid ps B' R' s'"
  using st
proof (cases rule: sysStep.cases)
  case (signal sig env l')
  then show ?thesis using sysInv_signal [OF inv] by blast
next
  case (timer r t' l')
  then show ?thesis using sysInv_timer [OF inv] by blast
next
  case (packet sdn dst bytes r')
  from sysInv_packet [OF inv packet(2,3)] packet(1,5) obtain i where
    "sysInv sa start mid ps B (recvOne (length ps) R i) s'" by auto
  moreover have "R \<le> recvOne (length ps) R i" by (simp add: recvOne_def)
  ultimately show ?thesis by blast
next
  case (ack bytes now l')
  from inv ack(2) obtain i r where "i < length ps" "0 < r" "r \<le> R"
    "bytes = wire_bytes (ackFor (ps ! i) ((start + int r) mod QUEUE_LEN))"
    by (auto simp: sysInv_def ack_of_def)
  from sysInv_ack [OF inv this, of now] ack(1,4) obtain B' where
    "sysInv sa start mid ps B' R s'" "B' = B \<or> B < B'" by (auto split: if_splits)
  then show ?thesis by (meson less_imp_le order_refl)
qed

lemma reachable_sysInv:
  assumes "reachable ok sa s0 s" "sysInv sa start mid ps B R s0"
  shows "\<exists>B' R'. B \<le> B' \<and> R \<le> R' \<and> sysInv sa start mid ps B' R' s"
  using assms(1)[unfolded reachable_def]
proof (induction rule: rtranclp_induct)
  case base
  then show ?case using assms(2) by blast
next
  case (step s1 s2)
  then obtain B1 R1 where "B \<le> B1" "R \<le> R1" "sysInv sa start mid ps B1 R1 s1" by blast
  with sysInv_step [OF _ step(2)] show ?case by (meson le_trans)
qed

subsection \<open>No stall\<close>

lemma base_loaded:
  assumes "senderInv start ps B L" "B < length ps"
  shows "status (padOf L 0) = READY \<or> status (padOf L 0) = SENT" "0 < busy L"
proof -
  have li: "launcher_inv L" and "busy L = int (length ps) - int B" using assms(1) by (simp_all add: senderInv_def)
  then show "0 < busy L" using assms(2) by simp
  then show "status (padOf L 0) = READY \<or> status (padOf L 0) = SENT"
    using launcher_inv_D(10) [OF li, of 0] by (simp add: loaded_def)
qed

lemma selected_base:
  assumes "launcher_inv L"
  shows "status (padOf L 0) = s \<Longrightarrow> 0 \<in> set (selected L [s])"
    and "status (padOf L 0) \<noteq> s \<Longrightarrow> selected L [s] = []"
  using launcher_inv_D(8) [OF assms] by (simp_all add: selected_def picked_def)

lemma fired_all:
  assumes f: "fired env L ks n L'" and ok: "\<forall>i. launchOk (env i)"
  shows "n = int (length ks)" and "0 \<le> j \<Longrightarrow> j < QUEUE_LEN \<Longrightarrow>
    status (padOf L' j) = (if j \<in> set ks then SENT else status (padOf L j))"
  using f ok by (simp_all add: fired_def)

lemma liveInv_new:
  assumes s: "senderInv start ps B L" and B: "B < length ps" and lv: "liveInv ps B L"
    and f: "fired env (L\<lparr>pending := q\<rparr>) (selected L [READY]) n L2" and ok: "\<forall>i. launchOk (env i)"
  shows "liveInv ps B (L2\<lparr>ltimer := timerAfterNew n (ltimer L)\<rparr>)"
proof -
  have li: "launcher_inv L" using s by (simp add: senderInv_def)
  note F = fired_all [OF f ok]
  show ?thesis
  proof (cases "status (padOf L 0) = READY")
    case True
    have z: "0 \<in> set (selected L [READY])" by (rule selected_base(1) [OF li True])
    then have "status (padOf L2 0) = SENT" using F(2) [of 0] by simp
    moreover have "0 < n" using z F(1) by (cases "selected L [READY]") simp_all
    ultimately show ?thesis by (simp add: liveInv_def timerAfterNew_def)
  next
    case False
    then have "status (padOf L2 0) = SENT" "isAlive (ltimer L)"
      using base_loaded(1) [OF s B] F(2) [of 0] selected_base(2) [OF li False] lv B
      by (auto simp: liveInv_def)
    then show ?thesis by (simp add: liveInv_def timerAfterNew_def)
  qed
qed

lemma liveInv_timeout:
  assumes s: "senderInv start ps B L" and B: "B < length ps" and lv: "liveInv ps B L"
    and f: "fired env (L\<lparr>pending := q\<rparr>) (selected L [SENT]) n L2" and ok: "\<forall>i. launchOk (env i)"
    and q: "status (padOf L 0) = READY \<Longrightarrow> newSig L \<in> set (pending L2)" and sg: "newSig L2 = newSig L"
  shows "liveInv ps B (L2\<lparr>ltimer := timerAfterTimeout n (ltimer L)\<rparr>)"
proof -
  have li: "launcher_inv L" using s by (simp add: senderInv_def)
  note F = fired_all [OF f ok]
  show ?thesis
  proof (cases "status (padOf L 0) = SENT")
    case True
    have z: "0 \<in> set (selected L [SENT])" by (rule selected_base(1) [OF li True])
    then have "status (padOf L2 0) = SENT" using F(2) [of 0] by simp
    moreover have "0 < n" using z F(1) by (cases "selected L [SENT]") simp_all
    ultimately show ?thesis using lv True B by (simp add: timerAfterTimeout_def liveInv_def)
  next
    case False
    then have rd: "status (padOf L 0) = READY" using base_loaded(1) [OF s B] by simp
    then have "status (padOf L2 0) = READY" using F(2) [of 0] selected_base(2) [OF li False] by simp
    then show ?thesis using q [OF rd] sg by (simp add: liveInv_def signalOf_def)
  qed
qed

lemma liveInv_signal:
  assumes s: "senderInv start ps B L" and lv: "liveInv ps B L" and sig: "sig \<in> set (pending L)"
    and h: "launcherSigHandler env sig (L\<lparr>pending := remove1 sig (pending L)\<rparr>) = Some L'"
    and ok: "\<forall>i. launchOk (env i)"
  shows "liveInv ps B L'"
proof (cases "B < length ps")
  case True
  let ?L1 = "L\<lparr>pending := remove1 sig (pending L)\<rparr>"
  note S = senderInv_signal [OF s sig h]
  have ne: "newSig L \<noteq> timeSig L" using s by (simp add: signalOf_inject senderInv_def)
  from S(6) show ?thesis
  proof (elim disjE conjE exE)
    fix n L2 assume "fired env ?L1 (selected L [READY]) n L2" "L' = L2\<lparr>ltimer := timerAfterNew n (ltimer L)\<rparr>"
    then show ?thesis using liveInv_new [OF s True lv _ ok] by simp
  next
    fix n L2 assume sg: "sig = timeSig L" and f: "fired env ?L1 (selected L [SENT]) n L2"
      and L': "L' = L2\<lparr>ltimer := timerAfterTimeout n (ltimer L)\<rparr>"
    have "newSig L \<in> set (pending L2)" if "status (padOf L 0) = READY"
      using lv True that S(5) sg ne L' by (simp add: liveInv_def)
    then show ?thesis
      using liveInv_timeout [OF s True lv f ok] f L' by (simp add: fired_def frame_def signalOf_def)
  qed
qed (simp add: liveInv_def)

lemma liveInv_timer:
  assumes s: "senderInv start ps B L" and lv: "liveInv ps B L" and al: "isAlive (ltimer L)"
    and r: "timerRound (ltimer L) = (r, t')"
    and L': "L' = (if r then ringLauncher (L\<lparr>ltimer := t'\<rparr>) else L\<lparr>ltimer := t'\<rparr>)"
  shows "liveInv ps B L'"
proof -
  note T = senderInv_timer [OF s al r L']
  have "newSig L' = newSig L"
    using L' by (simp add: signalOf_def ringLauncher_def)
  then show ?thesis using lv T(2,4,5) by (auto simp: liveInv_def)
qed

lemma liveInv_step:
  assumes inv: "sysInv sa start mid ps B R s" and lv: "liveInv ps B (sender s)"
    and st: "sysStep True sa s s'"
  shows "\<exists>B' R'. B \<le> B' \<and> R \<le> R' \<and> sysInv sa start mid ps B' R' s' \<and> liveInv ps B' (sender s')"
  using st
proof (cases rule: sysStep.cases)
  case (signal sig env l')
  have "senderInv start ps B (sender s)" using inv by (simp add: sysInv_def)
  from liveInv_signal [OF this lv signal(2,5)] sysInv_signal [OF inv signal(2,5)] signal(1,4)
  show ?thesis by auto
next
  case (timer r t' l')
  have "senderInv start ps B (sender s)" using inv by (simp add: sysInv_def)
  from liveInv_timer [OF this lv timer(2-4)] sysInv_timer [OF inv timer(2-4)] timer(1)
  show ?thesis by auto
next
  case (packet sdn dst bytes r')
  from sysInv_packet [OF inv packet(2,3)] packet(1,5) obtain i where
    "sysInv sa start mid ps B (recvOne (length ps) R i) s'" by auto
  moreover have "R \<le> recvOne (length ps) R i" by (simp add: recvOne_def)
  moreover have "sender s' = sender s" using packet(1) by simp
  ultimately show ?thesis
    using lv by (intro exI [of _ B] exI [of _ "recvOne (length ps) R i"]) simp
next
  case (ack bytes now l')
  from inv ack(2) obtain i r where "i < length ps" "0 < r" "r \<le> R"
    "bytes = wire_bytes (ackFor (ps ! i) ((start + int r) mod QUEUE_LEN))"
    by (auto simp: sysInv_def ack_of_def)
  from sysInv_ack [OF inv this, of now] ack(1,4) lv obtain B' where
    "sysInv sa start mid ps B' R s'" "B' = B \<or> B < B'" "liveInv ps B' (sender s')"
    by (auto split: if_splits)
  then show ?thesis by (meson less_imp_le order_refl)
qed

lemma reachable_live:
  assumes "reachable True sa s0 s" "sysInv sa start mid ps B R s0" "liveInv ps B (sender s0)"
  shows "\<exists>B' R'. sysInv sa start mid ps B' R' s \<and> liveInv ps B' (sender s)"
  using assms(1)[unfolded reachable_def]
proof (induction rule: rtranclp_induct)
  case base
  then show ?case using assms(2,3) by blast
next
  case (step s1 s2)
  then show ?case using liveInv_step by blast
qed

subsection \<open>Progress\<close>

text \<open>A launch that succeeds and is not jammed.\<close>

definition goodEnv :: "int \<Rightarrow> launchEnv" where
  "goodEnv i = \<lparr>getsocknameOk = True, jamRand = 99, sendtoOk = True, clock = \<lparr>tv_sec = 0, tv_nsec = 0\<rparr>\<rparr>"

lemma goodEnv [simp]: "launchOk (goodEnv i)" "\<not> isJammed (jamRand (goodEnv i))"
  by (simp_all add: goodEnv_def launchOk_def isJammed_def JAM_RATE_def c_rem_def)

lemma selected_window:
  assumes s: "senderInv start ps B L" and m: "message_packets start mid ps"
    and k: "B + k < length ps" "int k < winsize (bs L)" and x: "status (padOf L (int k)) = status (padOf L 0)"
  shows "int k \<in> set (selected L [status (padOf L 0)])"
    and "\<exists>p. pad_packet (padOf L (int k)) = Some p \<and> core p = core (ps ! (B + k))"
proof -
  note S = senderInv_D [OF s]
  have at: "\<exists>p. pad_packet (padOf L (int j)) = Some p \<and> core p = core (ps ! (B + j))" if "B + j < length ps" for j
    using waiting_pad [OF S(1,11,10), of "int j"] that S(10) by simp
  then show "\<exists>p. pad_packet (padOf L (int k)) = Some p \<and> core p = core (ps ! (B + k))" using k(1) .
  have mid: "msgAt L (int j) = mid" if j: "B + j < length ps" for j
  proof -
    from at [OF j] obtain p where "pad_packet (padOf L (int j)) = Some p" "core p = core (ps ! (B + j))" by blast
    moreover from core_eq_withPort [OF this(2), of 0] have "msgId (hdr p) = msgId (hdr (ps ! (B + j)))"
      by (metis withPort_hdr(6))
    ultimately show ?thesis using packet_at(7) [OF m j] by (simp add: msgAt_def)
  qed
  from mid [of k] mid [of 0] have "msgAt L (int k) = msgAt L 0" using k(1) by simp
  then show "int k \<in> set (selected L [status (padOf L 0)])" using k(2) x by (simp add: selected_def picked_def)
qed

text \<open>The event puts every packet of the window on the wire whose pad has the base's status.\<close>

lemma fire_window:
  assumes s: "senderInv start ps B L" and m: "message_packets start mid ps" and sig: "sig \<in> set (pending L)"
    and st: "status (padOf L 0) = READY \<and> sig = newSig L \<or> status (padOf L 0) = SENT \<and> sig = timeSig L"
  shows "\<exists>L'. launcherSigHandler goodEnv sig (L\<lparr>pending := remove1 sig (pending L)\<rparr>) = Some L'
    \<and> (\<forall>k. B + k < length ps \<and> int k < winsize (bs L) \<and> status (padOf L (int k)) = status (padOf L 0) \<longrightarrow>
         (\<exists>sdn dst. (sdn, dst, wire_bytes (withPort (listenPort L') (ps ! (B + k)))) \<in> set (wire L')))"
proof -
  let ?L1 = "L\<lparr>pending := remove1 sig (pending L)\<rparr>"
  have "launcher_inv ?L1" using senderInv_D(1) [OF s] by simp
  from launcherSigHandler_inv [OF this, of goodEnv sig] obtain L' where
    h: "launcherSigHandler goodEnv sig ?L1 = Some L'" by blast
  note S = senderInv_signal [OF s sig h]
  have ne: "newSig L \<noteq> timeSig L" by (simp add: signalOf_inject [OF senderInv_D(2) [OF s]])
  from S(6) st ne obtain n L2 t where
    f: "fired goodEnv ?L1 (selected L [status (padOf L 0)]) n L2" and L': "L' = L2\<lparr>ltimer := t\<rparr>" by auto
  have "\<exists>sdn dst. (sdn, dst, wire_bytes (withPort (listenPort L') (ps ! (B + k)))) \<in> set (wire L')"
    if k: "B + k < length ps" "int k < winsize (bs L)" "status (padOf L (int k)) = status (padOf L 0)" for k
  proof -
    note W = selected_window [OF s m k]
    from W(2) obtain p where p: "pad_packet (padOf L (int k)) = Some p" "core p = core (ps ! (B + k))" by blast
    let ?e = "the (tableOf ?L1 (msgAt ?L1 (int k)))"
    have "(sd ?e, dest ?e, wire_bytes (withPort (listenPort L) p)) \<in> set (onWire goodEnv ?L1 (int k))"
      using p(1) by (simp add: onWire_def Let_def)
    with W(1) have "(sd ?e, dest ?e, wire_bytes (withPort (listenPort L) p))
        \<in> set (concat (map (onWire goodEnv ?L1) (selected L [status (padOf L 0)])))" by auto
    then have "(sd ?e, dest ?e, wire_bytes (withPort (listenPort L) p)) \<in> set (wire L')"
      using f L' by (simp add: fired_def)
    then show ?thesis using core_eq_withPort [OF p(2)] S(2) by auto
  qed
  then show ?thesis using h by blast
qed

lemma fire_base:
  assumes "senderInv start ps B L" "message_packets start mid ps" "B < length ps" "sig \<in> set (pending L)"
    and "status (padOf L 0) = READY \<and> sig = newSig L \<or> status (padOf L 0) = SENT \<and> sig = timeSig L"
  shows "\<exists>L' sdn dst. launcherSigHandler goodEnv sig (L\<lparr>pending := remove1 sig (pending L)\<rparr>) = Some L'
    \<and> (sdn, dst, wire_bytes (withPort (listenPort L') (ps ! B))) \<in> set (wire L')"
proof -
  have "0 < winsize (bs L)" using launcher_inv_D(8) [OF senderInv_D(1) [OF assms(1)]] by simp
  moreover from fire_window [OF assms(1,2,4,5)] obtain L' where
    "launcherSigHandler goodEnv sig (L\<lparr>pending := remove1 sig (pending L)\<rparr>) = Some L'"
    and "\<And>k. B + k < length ps \<Longrightarrow> int k < winsize (bs L) \<Longrightarrow> status (padOf L (int k)) = status (padOf L 0)
      \<Longrightarrow> \<exists>sdn dst. (sdn, dst, wire_bytes (withPort (listenPort L') (ps ! (B + k)))) \<in> set (wire L')" by blast
  moreover note this(2) [of 0]
  ultimately show ?thesis using assms(3) by auto
qed

abbreviation steps :: "sockaddr_in \<Rightarrow> system \<Rightarrow> system \<Rightarrow> bool" where
  "steps sa \<equiv> (sysStep True sa)\<^sup>*\<^sup>*"

text \<open>While the timer runs it rings after at most two rounds.\<close>

lemma ring_event:
  assumes inv: "sysInv sa start mid ps B R s" and al: "isAlive (ltimer (sender s))"
  shows "\<exists>s'. steps sa s s' \<and> sysInv sa start mid ps B R s' \<and> bs (sender s') = bs (sender s)
    \<and> isAlive (ltimer (sender s')) \<and> timeSig (sender s') \<in> set (pending (sender s'))"
proof -
  have one: "\<exists>u'. sysStep True sa u u' \<and> sysInv sa start mid ps B R u' \<and> bs (sender u') = bs (sender u)
      \<and> isAlive (ltimer (sender u')) \<and> atTimeout (ltimer (sender u')) = AT_TIMEOUT_RING_THEN_RESTART
      \<and> (atTimeout (ltimer (sender u)) = AT_TIMEOUT_RING_THEN_RESTART \<longrightarrow>
           timeSig (sender u') \<in> set (pending (sender u')))"
    if i: "sysInv sa start mid ps B R u" and a: "isAlive (ltimer (sender u))" for u
  proof -
    obtain r t' where r: "timerRound (ltimer (sender u)) = (r, t')" by fastforce
    define L' where "L' = (if r then ringLauncher ((sender u)\<lparr>ltimer := t'\<rparr>) else (sender u)\<lparr>ltimer := t'\<rparr>)"
    have s: "senderInv start ps B (sender u)" using i by (simp add: sysInv_def)
    note T = senderInv_timer [OF s a r L'_def]
    have "timeSig L' = timeSig (sender u)" by (simp add: L'_def signalOf_def ringLauncher_def)
    then show ?thesis
      using sysStep.timer [OF a r L'_def, of True sa] sysInv_timer [OF i a r L'_def] T(2,4-7)
      by (intro exI [of _ "u\<lparr>sender := L'\<rparr>"]) auto
  qed
  from one [OF inv al] obtain s1 where s1: "sysStep True sa s s1" "sysInv sa start mid ps B R s1"
    "bs (sender s1) = bs (sender s)" "isAlive (ltimer (sender s1))"
    "atTimeout (ltimer (sender s1)) = AT_TIMEOUT_RING_THEN_RESTART" by blast
  from one [OF s1(2,4)] s1(5) obtain s2 where s2: "sysStep True sa s1 s2" "sysInv sa start mid ps B R s2"
    "bs (sender s2) = bs (sender s1)" "isAlive (ltimer (sender s2))"
    "timeSig (sender s2) \<in> set (pending (sender s2))" by blast
  have "steps sa s s2" using s1(1) s2(1) by (meson converse_rtranclp_into_rtranclp r_into_rtranclp)
  then show ?thesis using s1(3) s2(2-5) by (intro exI [of _ s2]) simp
qed

text \<open>The base packet can reach the wire from any state with a packet to acknowledge.\<close>

lemma base_on_wire:
  assumes inv: "sysInv sa start mid ps B R s" and lv: "liveInv ps B (sender s)" and B: "B < length ps"
  shows "\<exists>s' sdn dst. steps sa s s' \<and> sysInv sa start mid ps B R s' \<and> liveInv ps B (sender s')
    \<and> (sdn, dst, wire_bytes (withPort (listenPort (sender s')) (ps ! B))) \<in> set (wire (sender s'))"
proof -
  have fire: "\<exists>u' sdn dst. steps sa u u' \<and> sysInv sa start mid ps B R u' \<and> liveInv ps B (sender u')
      \<and> (sdn, dst, wire_bytes (withPort (listenPort (sender u')) (ps ! B))) \<in> set (wire (sender u'))"
    if i: "sysInv sa start mid ps B R u" and l: "liveInv ps B (sender u)" and sg: "sig \<in> set (pending (sender u))"
      and st: "status (padOf (sender u) 0) = READY \<and> sig = newSig (sender u)
        \<or> status (padOf (sender u) 0) = SENT \<and> sig = timeSig (sender u)" for u sig
  proof -
    have s: "senderInv start ps B (sender u)" "\<not> eventsBlocked (sender u)" and m: "message_packets start mid ps"
      using i by (simp_all add: sysInv_def senderInv_def)
    from fire_base [OF s(1) m B sg st] obtain L' sdn dst where
      h: "launcherSigHandler goodEnv sig ((sender u)\<lparr>pending := remove1 sig (pending (sender u))\<rparr>) = Some L'"
      and w: "(sdn, dst, wire_bytes (withPort (listenPort L') (ps ! B))) \<in> set (wire L')" by blast
    have "sysStep True sa u (u\<lparr>sender := L'\<rparr>)" using sysStep.signal [OF sg s(2) _ h] by simp
    moreover have "liveInv ps B L'" using liveInv_signal [OF s(1) l sg h] by simp
    ultimately show ?thesis using sysInv_signal [OF i sg h] w
      by (intro exI [of _ "u\<lparr>sender := L'\<rparr>"] exI [of _ sdn] exI [of _ dst]) auto
  qed
  have s: "senderInv start ps B (sender s)" using inv by (simp add: sysInv_def)
  from base_loaded(1) [OF s B] show ?thesis
  proof
    assume "status (padOf (sender s) 0) = READY"
    then show ?thesis using fire [OF inv lv, of "newSig (sender s)"] lv B by (simp add: liveInv_def)
  next
    assume st: "status (padOf (sender s) 0) = SENT"
    then have al: "isAlive (ltimer (sender s))" using lv B by (simp add: liveInv_def)
    from ring_event [OF inv al] obtain u where u: "steps sa s u" "sysInv sa start mid ps B R u"
      "bs (sender u) = bs (sender s)" "isAlive (ltimer (sender u))"
      "timeSig (sender u) \<in> set (pending (sender u))" by blast
    have "status (padOf (sender u) 0) = SENT" using u(3) st by simp
    moreover from this have "liveInv ps B (sender u)" using u(4) by (simp add: liveInv_def)
    ultimately show ?thesis using fire [OF u(2) _ u(5)] u(1) by (meson rtranclp_trans)
  qed
qed

text \<open>A receiver that lacks the packet at the sender's base takes it when it arrives.\<close>

lemma same_bytes:
  assumes m: "message_packets start mid ps" and i: "i < length ps" "j < length ps"
    and e: "wire_bytes (withPort prt (ps ! i)) = wire_bytes (withPort prt (ps ! j))"
  shows "i = j"
proof -
  have "deserializePacket (wire_bytes (withPort prt (ps ! k)) @ []) = Some (withPort prt (ps ! k))"
    if "k < length ps" for k
    using packet_at(1) [OF m that] by (intro deserialize_serialize_prefix) (simp_all add: serialize_wire)
  from this [OF i(1)] this [OF i(2)] have "withPort prt (ps ! i) = withPort prt (ps ! j)"
    unfolding e by (metis option.inject)
  from arg_cong [OF this, of "\<lambda>p. index (hdr p)"]
  have "index (hdr (ps ! i)) = index (hdr (ps ! j))" by (simp add: withPort_def)
  then show ?thesis using packet_at(4) [OF m i(1)] packet_at(4) [OF m i(2)] same_index(1) [OF m i] by simp
qed

lemma next_received:
  assumes inv: "sysInv sa start mid ps B R s" and R: "R < length ps"
    and x: "(sdn, dst, wire_bytes (withPort (listenPort (sender s)) (ps ! R))) \<in> set (wire (sender s))"
  shows "\<exists>r'. sysStep ok sa s (s\<lparr>receiver := r'\<rparr>) \<and> sysInv sa start mid ps B (Suc R) (s\<lparr>receiver := r'\<rparr>)"
proof -
  have m: "message_packets start mid ps" and c: "catching sa (listenPort (sender s)) start ps R (receiver s)"
    using inv by (simp_all add: sysInv_def)
  have mo: "morePackets (receiver s)" "delivered (receiver s) sa"
    using c R by (auto simp: catching_def delivered_def)
  from sysInv_packet [OF inv x mo(1)] obtain r' i where
    r': "listenForDataStep sa (wire_bytes (withPort (listenPort (sender s)) (ps ! R))) (receiver s) = Some r'"
    and i: "i < length ps"
    "wire_bytes (withPort (listenPort (sender s)) (ps ! R)) = wire_bytes (withPort (listenPort (sender s)) (ps ! i))"
    "sysInv sa start mid ps B (recvOne (length ps) R i) (s\<lparr>receiver := r'\<rparr>)" by blast
  have "sysInv sa start mid ps B (Suc R) (s\<lparr>receiver := r'\<rparr>)"
    using i(3) same_bytes [OF m R i(1,2)] R by (simp add: recvOne_def)
  then show ?thesis using sysStep.packet [OF x mo r'] by blast
qed

lemma base_received:
  assumes inv: "sysInv sa start mid ps B B s" and lv: "liveInv ps B (sender s)" and B: "B < length ps"
  shows "\<exists>u. steps sa s u \<and> sysInv sa start mid ps B (Suc B) u \<and> liveInv ps B (sender u)"
proof -
  from base_on_wire [OF inv lv B] obtain u sdn dst where
    u: "steps sa s u" "sysInv sa start mid ps B B u" "liveInv ps B (sender u)"
    "(sdn, dst, wire_bytes (withPort (listenPort (sender u)) (ps ! B))) \<in> set (wire (sender u))" by blast
  from next_received [OF u(2) B u(4)] obtain r' where
    r': "sysStep True sa u (u\<lparr>receiver := r'\<rparr>)" "sysInv sa start mid ps B (Suc B) (u\<lparr>receiver := r'\<rparr>)" by blast
  with u(1) have "steps sa s (u\<lparr>receiver := r'\<rparr>)" by (meson rtranclp.rtrancl_into_rtrancl)
  then show ?thesis using r'(2) u(3) by (intro exI [of _ "u\<lparr>receiver := r'\<rparr>"]) simp
qed

text \<open>A receiver ahead of the sender has acknowledged every packet it took, and the sender moves its base
  as soon as it gets an acknowledgement that does not reach beyond the end of the ring.\<close>

lemma base_acked:
  assumes inv: "sysInv sa start mid ps B R u" and lv: "liveInv ps B (sender u)" and R: "B < R"
  shows "\<exists>u' B'. sysStep True sa u u' \<and> B < B' \<and> sysInv sa start mid ps B' R u' \<and> liveInv ps B' (sender u')"
proof -
  have "launcher_inv (sender u)" using inv by (simp add: sysInv_def senderInv_def)
  note w = launcher_inv_D(4,5) [OF this]
  define r where "r = min R (nat (QUEUE_LEN - wbase (sender u)) + B)"
  have r: "B < r" "r \<le> R" "wbase (sender u) + (int r - int B) \<le> QUEUE_LEN"
    using R w by (auto simp: r_def min_def)
  from inv r(1,2) obtain j where j: "j < length ps" and a: "(sa\<lparr>sin_port := listenPort (sender u)\<rparr>,
      wire_bytes (ackFor (ps ! j) ((start + int r) mod QUEUE_LEN))) \<in> set (acks (receiver u))"
    unfolding sysInv_def by (metis gr0I not_less_zero)
  from sysInv_ack [OF inv j _ r(2) refl, of undefined] r(1,3) obtain L' where L':
    "listenForAcksStep undefined (wire_bytes (ackFor (ps ! j) ((start + int r) mod QUEUE_LEN))) (sender u) = Some L'"
    "sysInv sa start mid ps r R (u\<lparr>sender := L'\<rparr>)" "liveInv ps r L'"
    using lv by auto
  have "isLauncherAvailable (sender u)" using inv by (simp add: sysInv_def senderInv_def)
  from sysStep.ack [OF a this L'(1), of True] L'(2,3) r(1) show ?thesis
    by (intro exI [of _ "u\<lparr>sender := L'\<rparr>"] exI [of _ r]) simp
qed

text \<open>The base can always move.\<close>

lemma progress_one:
  assumes inv: "sysInv sa start mid ps B R s" and lv: "liveInv ps B (sender s)" and B: "B < length ps"
  shows "\<exists>s' B' R'. steps sa s s' \<and> B < B' \<and> sysInv sa start mid ps B' R' s' \<and> liveInv ps B' (sender s')"
proof (cases "B < R")
  case True
  from base_acked [OF inv lv True] show ?thesis by (meson r_into_rtranclp)
next
  case False
  then have "R = B" using inv by (simp add: sysInv_def)
  with base_received [OF _ lv B] inv obtain u where
    u: "steps sa s u" "sysInv sa start mid ps B (Suc B) u" "liveInv ps B (sender u)" by blast
  from base_acked [OF u(2,3) lessI] u(1) show ?thesis
    by (meson rtranclp.rtrancl_into_rtrancl)
qed

lemma progress_all:
  assumes "sysInv sa start mid ps B R s" "liveInv ps B (sender s)"
  shows "\<exists>s' R'. steps sa s s' \<and> sysInv sa start mid ps (length ps) R' s'"
  using assms
proof (induction "length ps - B" arbitrary: B R s rule: less_induct)
  case less
  show ?case
  proof (cases "B < length ps")
    case True
    from progress_one [OF less.prems True] obtain u B' R' where
      u: "steps sa s u" "B < B'" "sysInv sa start mid ps B' R' u" "liveInv ps B' (sender u)" by blast
    have "length ps - B' < length ps - B" using u(2) True by simp
    from less.hyps [OF this u(3,4)] u(1) show ?thesis by (meson rtranclp_trans)
  next
    case False
    then have "B = length ps" using less.prems(1) by (simp add: sysInv_def senderInv_def)
    then show ?thesis using less.prems(1) by blast
  qed
qed

subsection \<open>The state of a finished transfer\<close>

lemma sysInv_received:
  assumes "sysInv sa start mid ps B R s"
  shows "msgBuf (receiver s) = concat (map data (take R ps))" "R \<le> length ps"
    "morePackets (receiver s) = (R \<noteq> length ps)" "waiting (sender s) = drop B (map core ps)"
    "B \<le> R" "int R \<le> int B + winsize (bs (sender s))" "waiting (sender s) = [] \<longleftrightarrow> B = length ps"
  using assms by (auto simp: sysInv_def senderInv_def catching_def)

lemma concat_take_prefix: "prefix (concat (map data (take R ps))) (concat (map data ps))"
proof -
  have "concat (map data ps) = concat (map data (take R ps)) @ concat (map data (drop R ps))"
    by (metis append_take_drop_id concat_append map_append)
  then show ?thesis by (rule prefixI)
qed

lemma started_reachable:
  assumes "started msg g s0" "reachable ok sa s0 s"
  shows "\<exists>B R. sysInv sa (wbase (launch g)) (lastMsgId g)
    (stampedPackets (wbase (launch g)) (lastMsgId g) msg) B R s"
  using reachable_sysInv [OF assms(2) started_sysInv(1) [OF assms(1)]] by blast

text \<open>A launcher that has just been initialised can start any message that fits.\<close>

lemma started_init:
  assumes "0 \<le> rtmin" "rtmin + 3 \<le> rtmax" "msg_id_inv i" "msg \<noteq> []" "int (numOfPackets msg) \<le> 1022"
  shows "\<exists>s. started msg \<lparr>launch = initLauncher rtmin rtmax lport, lastMsgId = i\<rparr> s"
proof -
  let ?g = "\<lparr>launch = initLauncher rtmin rtmax lport, lastMsgId = i\<rparr>"
  have b: "contiguousPadsAvailable (battery (bs (launch ?g))) = QUEUE_LEN" "winsize (bs (launch ?g)) = 2"
    by (simp_all add: initLauncher_def initLaunchBattery_def newLaunchBattery_def newSendWindow_def WINSIZE_DEFAULT_def)
  have id: "idle (launch ?g)"
    using launcher_inv_init assms(1,2) b(1)
    by (simp add: idle_def signals_ok_def used_def) (simp add: initLauncher_def newTimer_def)
  have fr: "tableOf (launch ?g) (lastMsgId ?g) = None"
    using send_table.lookup_empty by (simp add: initLauncher_def)
  have fit: "int (numOfPackets msg) \<le> contiguousPadsAvailable (battery (bs (launch ?g)))"
    using b assms(5) by (simp add: QUEUE_LEN_def)
  have "launcher_inv (launch ?g)" "msg_id_inv (lastMsgId ?g)" using id assms(3) by (simp_all add: idle_def)
  from sendMessageGbn_spec [OF this fr assms(4), of addrSize 0 zeroAddr None] fit obtain st' where
    sm: "sendMessageGbn 0 zeroAddr addrSize msg (length msg) None ?g =
        Some (0, ?g\<lparr>lastMsgId := (lastMsgId ?g + 1) mod INT_MAX, launch := st'\<rparr>)" by auto
  let ?g' = "?g\<lparr>lastMsgId := (lastMsgId ?g + 1) mod INT_MAX, launch := st'\<rparr>"
  let ?s = "\<lparr>sender = launch ?g', receiver = listenForDataInit\<rparr>"
  have "\<exists>sdn dst alen handler g'. alen \<le> addrSize
      \<and> sendMessageGbn sdn dst alen msg (length msg) handler ?g = Some (0, g')
      \<and> ?s = \<lparr>sender = launch g', receiver = listenForDataInit\<rparr>"
    using sm by blast
  then have "started msg ?g ?s"
    using id assms(3-5) fr b(2) unfolding started_def by (simp add: QUEUE_LEN_def)
  then show ?thesis by blast
qed

lemma reachable_finishes:
  assumes st: "started msg g s0" and r: "reachable True sa s0 s"
  shows "\<exists>s'. reachable True sa s s' \<and> waiting (sender s') = [] \<and> \<not> morePackets (receiver s')
    \<and> msgBuf (receiver s') = msg"
proof -
  let ?ps = "stampedPackets (wbase (launch g)) (lastMsgId g) msg"
  from reachable_live [OF r started_sysInv [OF st]] obtain B R where
    i: "sysInv sa (wbase (launch g)) (lastMsgId g) ?ps B R s" "liveInv ?ps B (sender s)" by blast
  from progress_all [OF i] obtain s' R' where
    s': "steps sa s s'" "sysInv sa (wbase (launch g)) (lastMsgId g) ?ps (length ?ps) R' s'" by auto
  note F = sysInv_received [OF s'(2)]
  have "R' = length ?ps" using F(2,5) by simp
  then show ?thesis using s'(1) F(1,3,7) stamped_data by (auto simp: reachable_def)
qed

text \<open>A small transfer to evaluate the properties on: three bytes, from a fresh launcher.\<close>

definition exampleSender :: gbnState where
  "exampleSender = \<lparr>launch = initLauncher 34 64 5000, lastMsgId = 0\<rparr>"

lemma example_started: "\<exists>s0. started [1, 2, 3] exampleSender s0"
  unfolding exampleSender_def
  by (rule started_init) (simp_all add: msg_id_inv_def numOfPackets_eq)

lemma example_reachable:
  "\<exists>s0 s. started [1, 2, 3] exampleSender s0 \<and> reachable True sa s0 s \<and> waiting (sender s) = []
     \<and> msgBuf (receiver s) = [1, 2, 3]"
proof -
  from example_started obtain s0 where s0: "started [1, 2, 3] exampleSender s0" by blast
  from reachable_finishes [OF s0, of sa s0] s0 show ?thesis by (auto simp: reachable_def)
qed

lemma example_battery:
  "launch exampleSender = initLauncher 34 64 5000" "lastMsgId exampleSender = 0"
  "contiguousPadsAvailable (battery (bs (initLauncher a b c))) = QUEUE_LEN"
  "nextAvailableIndex (battery (bs (initLauncher a b c))) = 0"
  "winsize (bs (initLauncher a b c)) = 2" "wbase (initLauncher a b c) = 0"
  by (simp_all add: exampleSender_def initLauncher_def initLaunchBattery_def newLaunchBattery_def
      newSendWindow_def WINSIZE_DEFAULT_def)

lemma example_inv:
  "launcher_inv (launch exampleSender)" "msg_id_inv (lastMsgId exampleSender)"
  "tableOf (launch exampleSender) (lastMsgId exampleSender) = None"
  using launcher_inv_init send_table.lookup_empty
  by (simp_all add: example_battery msg_id_inv_def) (simp add: initLauncher_def)

text \<open>The launcher of the example once it has the message.\<close>

lemma example_sent:
  "\<exists>g' st. sendMessageGbn 3 zeroAddr 16 [1, 2, 3] 3 None exampleSender = Some (0, g') \<and> st = launch g'
     \<and> launcher_inv st \<and> signals_ok st \<and> wbase st = 0 \<and> busy st = 1 \<and> winsize (bs st) = 2
     \<and> status (padOf st 0) = READY \<and> waiting st = map core (stampedPackets 0 0 [1, 2, 3])
     \<and> length (waiting st) = 1"
proof -
  let ?L = "initLauncher 34 64 5000"
  have n: "numOfPackets [1, 2, 3] = 1" by (simp add: numOfPackets_eq)
  note b = example_battery
  from sendMessageGbn_spec [OF example_inv, of "[1, 2, 3]" 16 3 zeroAddr None] n b obtain st where
    s: "sendMessageGbn 3 zeroAddr 16 [1, 2, 3] 3 None exampleSender =
        Some (0, exampleSender\<lparr>lastMsgId := 1, launch := st\<rparr>)"
    "enqueued [1, 2, 3] 0 (entryFor 3 zeroAddr 16 None) ?L st"
    by (auto simp: addrSize_def QUEUE_LEN_def numeral_3_eq_3)
  have w: "waiting ?L = []" "busy ?L = 0" using b by (simp_all add: waiting_def queue_def used_def)
  have "launcher_inv st" "signals_ok st" "wbase st = 0" "busy st = 1" "winsize (bs st) = 2"
    "status (padOf st 0) = READY" "waiting st = map core (stampedPackets 0 0 [1, 2, 3])"
    using s(2) n b w by (simp_all add: enqueued_def signals_ok_def) (simp_all add: initLauncher_def)
  moreover from this n have "length (waiting st) = 1" by simp
  ultimately show ?thesis using s(1) by (intro exI [of _ "exampleSender\<lparr>lastMsgId := 1, launch := st\<rparr>"] exI [of _ st]) simp
qed

text \<open>A launcher with an empty ring whose base is the last index.\<close>

definition exampleWrap :: launcherState where
  "exampleWrap = (initLauncher 34 64 5000)\<lparr>bs := initLaunchBattery
     \<lparr>window := \<lparr>base = 1023, nextSeqNum = 1\<rparr>, battery := newLaunchBattery\<lparr>nextAvailableIndex := 1023\<rparr>\<rparr>\<rparr>"

lemma exampleWrap_inv: "launcher_inv exampleWrap" "wbase exampleWrap = 1023" "winsize (bs exampleWrap) = 2"
  using send_table.invar_empty
  by (auto simp: exampleWrap_def launcher_inv_def initLauncher_def calcAckSize_def calcHeaderSize_def
      initLaunchBattery_def newLaunchBattery_def used_def battery_inv_def window_inv_def pad_at_def
      vacant_def newLaunchPad_def QUEUE_LEN_def newSendWindow_def WINSIZE_DEFAULT_def)

definition exampleAck :: "int \<Rightarrow> packet" where
  "exampleAck i = ackFor (mk_packet 0 0 []) i"

lemma exampleAck_wf: "c_int i \<Longrightarrow> wf_packet (exampleAck i)" "index (hdr (exampleAck i)) = i"
  "endIndex (hdr (exampleAck i)) = 0" "msgId (hdr (exampleAck i)) = 0"
  using wf_ackFor [OF wf_mk_packet [of 0 "[]" 0], of i]
  by (simp_all add: exampleAck_def c_int_def) (simp_all add: mk_packet_def newPacket_def)

end
