(* ===== verification/Message.thy ===== *)
theory Message
  imports Prelude
begin

text \<open>
  The messages of the application protocol (dm_protocol/message.h, dm_protocol/message.c): the
  header, the buffer the payload points to, and the wire format. \<open>None\<close> as a payload is the
  null pointer. A negative length is a huge size for \<open>calloc\<close> and \<open>memcpy\<close>, hence no result.
\<close>

record message_header =
  command :: int
  op_status :: int
  payload_lentgh :: int
  has_more :: bool

record message =
  message_header :: message_header
  payload :: "byte list option"

definition newMessage :: message where
  "newMessage = \<lparr>message_header = \<lparr>command = 0, op_status = 0, payload_lentgh = 0, has_more = False\<rparr>,
     payload = None\<rparr>"

definition calcMsgHeaderSize :: int where
  "calcMsgHeaderSize = 3 * 4 + 1"

definition calcMessageSize :: "message \<Rightarrow> int" where
  "calcMessageSize msg = wrap32 (calcMsgHeaderSize + payload_lentgh (message_header msg))"

definition message_header_bytes :: "message_header \<Rightarrow> byte list" where
  "message_header_bytes h = int_bytes (command h) @ int_bytes (op_status h)
     @ int_bytes (payload_lentgh h) @ [bool_byte (has_more h)]"

definition serializeMessage :: "message \<Rightarrow> byte list option" where
  "serializeMessage msg =
     (let h = message_header msg; n = payload_lentgh h in
      if n < 0 \<or> calcMessageSize msg < 0 then None
      else if n \<noteq> 0 then do {
        pl \<leftarrow> payload msg;
        d \<leftarrow> peek pl 0 (nat n);
        Some (message_header_bytes h @ d) }
      else Some (message_header_bytes h))"

definition deserializeMessage :: "byte list \<Rightarrow> message option" where
  "deserializeMessage bytes = do {
     c \<leftarrow> peek bytes 0 4;
     s \<leftarrow> peek bytes 4 4;
     n \<leftarrow> peek bytes 8 4;
     m \<leftarrow> peek bytes 12 1;
     d \<leftarrow> (if bytes_int n \<noteq> 0 then
            (if bytes_int n < 0 then None
             else do { d \<leftarrow> peek bytes 13 (nat (bytes_int n)); Some (Some d) })
          else Some None);
     Some \<lparr>message_header = \<lparr>command = bytes_int c, op_status = bytes_int s,
             payload_lentgh = bytes_int n, has_more = (hd m \<noteq> 0)\<rparr>,
           payload = d\<rparr> }"

subsection \<open>What a message carries\<close>

text \<open>The first \<open>payload_lentgh\<close> bytes of the payload; an empty payload arrives as a null
  pointer, whatever the sender's pointer was.\<close>

definition content :: "message \<Rightarrow> byte list" where
  "content msg = (case payload msg of None \<Rightarrow> []
     | Some p \<Rightarrow> take (nat (payload_lentgh (message_header msg))) p)"

definition wf_message :: "message \<Rightarrow> bool" where
  "wf_message msg \<longleftrightarrow> (let h = message_header msg in c_int (command h) \<and> c_int (op_status h)
     \<and> 0 \<le> payload_lentgh h \<and> payload_lentgh h \<le> INT_MAX - 13
     \<and> (case payload msg of None \<Rightarrow> payload_lentgh h = 0
        | Some p \<Rightarrow> payload_lentgh h \<le> int (length p)))"

text \<open>The message as the receiver gets it: the payload is a buffer of exactly the length told.\<close>

definition arrived :: "message \<Rightarrow> message" where
  "arrived msg = msg\<lparr>payload := (if payload_lentgh (message_header msg) = 0 then None
     else Some (content msg))\<rparr>"

definition mkMessage :: "int \<Rightarrow> int \<Rightarrow> bool \<Rightarrow> byte list \<Rightarrow> message" where
  "mkMessage c s m d = \<lparr>message_header = \<lparr>command = c, op_status = s,
     payload_lentgh = int (length d), has_more = m\<rparr>, payload = (if d = [] then None else Some d)\<rparr>"

definition message_bytes :: "message \<Rightarrow> byte list" where
  "message_bytes msg = message_header_bytes (message_header msg) @ content msg"

lemma length_message_header_bytes [simp]: "length (message_header_bytes h) = 13"
  by (simp add: message_header_bytes_def bool_byte_def)

lemma content_length: "wf_message msg \<Longrightarrow> int (length (content msg)) = payload_lentgh (message_header msg)"
  by (auto simp: wf_message_def content_def Let_def split: option.splits)

lemma serializeMessage_wf: "wf_message msg \<Longrightarrow> serializeMessage msg = Some (message_bytes msg)"
  by (auto simp: wf_message_def serializeMessage_def message_bytes_def content_def Let_def peek_def
      calcMessageSize_def calcMsgHeaderSize_def c_simps c_int_def split: option.splits)

lemma length_message_bytes: "wf_message msg \<Longrightarrow> int (length (message_bytes msg)) = calcMessageSize msg"
  using content_length [of msg]
  by (simp add: message_bytes_def calcMessageSize_def calcMsgHeaderSize_def wf_message_def Let_def
      c_simps c_int_def)

lemma length_message_bytes_content: "length (message_bytes msg) = 13 + length (content msg)"
  by (simp add: message_bytes_def)

lemma message_peeks:
  assumes "xs = message_header_bytes h @ d"
  shows "peek xs 0 4 = Some (int_bytes (command h))"
    and "peek xs 4 4 = Some (int_bytes (op_status h))"
    and "peek xs 8 4 = Some (int_bytes (payload_lentgh h))"
    and "peek xs 12 1 = Some [bool_byte (has_more h)]"
    and "n \<le> length d \<Longrightarrow> peek xs 13 n = Some (take n d)"
  unfolding assms by (simp_all add: message_header_bytes_def peek_def)

lemma deserializeMessage_bytes:
  assumes "wf_message msg"
  shows "deserializeMessage (message_bytes msg @ rest) = Some (arrived msg)"
proof -
  let ?h = "message_header msg"
  have b: "message_bytes msg @ rest = message_header_bytes ?h @ (content msg @ rest)"
    by (simp add: message_bytes_def)
  have c: "c_int (command ?h)" "c_int (op_status ?h)" "c_int (payload_lentgh ?h)" "0 \<le> payload_lentgh ?h"
    using assms by (auto simp: wf_message_def Let_def c_int_def)
  have n: "nat (payload_lentgh ?h) = length (content msg)" using content_length [OF assms] by simp
  note P = message_peeks [OF b]
  have "peek (message_bytes msg @ rest) 13 (length (content msg)) = Some (content msg)"
    using P(5) [of "length (content msg)"] by simp
  then show ?thesis
    using c(4) by (simp add: deserializeMessage_def P(1-4) bytes_int_bytes c(1-3) bool_byte_neq_0 n
        arrived_def del: One_nat_def)
qed

lemma arrived_content [simp]: "wf_message msg \<Longrightarrow> content (arrived msg) = content msg"
  using content_length [of msg] by (auto simp: arrived_def content_def split: option.splits)

text \<open>The messages that arrive as they were sent are those whose payload pointer tells its length.\<close>

definition exact_message :: "message \<Rightarrow> bool" where
  "exact_message msg \<longleftrightarrow> wf_message msg \<and> arrived msg = msg"

lemma wf_mkMessage [simp]:
  "c_int c \<Longrightarrow> c_int s \<Longrightarrow> int (length d) \<le> INT_MAX - 13 \<Longrightarrow> wf_message (mkMessage c s m d)"
  by (simp add: wf_message_def mkMessage_def)

lemma arrived_mkMessage [simp]: "arrived (mkMessage c s m d) = mkMessage c s m d"
  by (simp add: arrived_def mkMessage_def content_def)

lemma mkMessage_fields [simp]:
  "command (message_header (mkMessage c s m d)) = c" "op_status (message_header (mkMessage c s m d)) = s"
  "has_more (message_header (mkMessage c s m d)) = m" "content (mkMessage c s m d) = d"
  "payload_lentgh (message_header (mkMessage c s m d)) = int (length d)"
  by (simp_all add: mkMessage_def content_def)

text \<open>What is read is exact.\<close>

lemma deserializeMessage_exact:
  assumes "deserializeMessage bs = Some m" "payload_lentgh (message_header m) \<le> INT_MAX - 13"
  shows "exact_message m"
proof -
  have c: "c_int (command (message_header m))" "c_int (op_status (message_header m))"
    using assms(1) by (auto simp: deserializeMessage_def c_simps split: if_splits)
  have "0 \<le> payload_lentgh (message_header m) \<and> (if payload_lentgh (message_header m) = 0 then payload m = None
      else \<exists>d. payload m = Some d \<and> int (length d) = payload_lentgh (message_header m))"
    using assms(1) by (auto simp: deserializeMessage_def split: if_splits dest!: peek_length)
  then show ?thesis using c assms(2)
    by (auto simp: exact_message_def wf_message_def arrived_def content_def Let_def split: if_splits)
qed

interpretation message_codec: codec serializeMessage deserializeMessage exact_message
proof unfold_locales
  show "\<exists>bs. serializeMessage m = Some bs" if "exact_message m" for m
    using that serializeMessage_wf by (auto simp: exact_message_def)
  show "deserializeMessage (bs @ rest) = Some m"
    if "exact_message m" "serializeMessage m = Some bs" for m bs rest
    using that serializeMessage_wf [of m] deserializeMessage_bytes [of m rest]
    by (auto simp: exact_message_def)
qed

end
