(* ===== verification/DmProtocol.thy ===== *)
theory DmProtocol
  imports Gbn Message
begin

text \<open>
  The application protocol (dm_protocol/dm_protocol.h, dm_protocol/dm_protocol.c): its codes,
  sending and receiving a message over the GBN layer, sending and receiving a file. A process is
  a function on its \<open>world\<close>: the state of its GBN layer, what it gave that layer to send, the
  datagrams that reach its socket, the files. The launcher's threads run between two sends:
  \<open>launcherTurn n\<close> is what they do before the \<open>n\<close>-th one. A call that waits for a datagram that
  never comes, or retries for ever, is \<open>Waits\<close>; undefined behaviour is \<open>Fails\<close>.
\<close>

subsection \<open>Codes\<close>

datatype dmProtocol_command = UNSPECIFIED | PUT | GET | LIST | HS | COMMANDS_NUM

primrec commandCode :: "dmProtocol_command \<Rightarrow> int" where
  "commandCode UNSPECIFIED = 0"
| "commandCode PUT = 1"
| "commandCode GET = 2"
| "commandCode LIST = 3"
| "commandCode HS = 4"
| "commandCode COMMANDS_NUM = 5"

datatype opStatus = OP_STATUS_E | OP_STATUS_E_FILE_NOT_FOUND | OP_STATUS_INCORRECT
  | OP_STATUS_SENDFILE_FAILED | OP_STATUS_RECIVEFILE_FAILED | OP_STATUS_SOCKETS_FULL | OP_STATUS_OK

primrec statusCode :: "opStatus \<Rightarrow> int" where
  "statusCode OP_STATUS_E = - INT_MAX"
| "statusCode OP_STATUS_E_FILE_NOT_FOUND = - INT_MAX + 1"
| "statusCode OP_STATUS_INCORRECT = - INT_MAX + 2"
| "statusCode OP_STATUS_SENDFILE_FAILED = - INT_MAX + 3"
| "statusCode OP_STATUS_RECIVEFILE_FAILED = - INT_MAX + 4"
| "statusCode OP_STATUS_SOCKETS_FULL = - INT_MAX + 5"
| "statusCode OP_STATUS_OK = 0"

definition DEFAULT_SERVER_PORT :: port where
  "DEFAULT_SERVER_PORT = 8888"

text \<open>\<open>INADDR_LOOPBACK\<close>.\<close>

definition DEFAULT_SERVER_ADDR :: "32 word" where
  "DEFAULT_SERVER_ADDR = 0x7f000001"

definition MAX_FILE_CHUNK_SIZE :: nat where
  "MAX_FILE_CHUNK_SIZE = 10240"

lemma c_int_codes [simp]: "c_int (commandCode c)" "c_int (statusCode s)"
  by (cases c; simp add: c_int_def) (cases s; simp add: c_int_def)

lemma commandCode_inj [simp]: "(commandCode c = commandCode d) = (c = d)"
  by (cases c; cases d) simp_all

lemma statusCode_OK [simp]: "(statusCode s = 0) = (s = OP_STATUS_OK)"
  by (cases s) simp_all

subsection \<open>Processes\<close>

type_synonym datagrams = "(sockaddr_in \<times> byte list) option list"

record world =
  gbn :: gbnState
  launcherTurn :: "nat \<Rightarrow> gbnState \<Rightarrow> gbnState"
  handed :: "(sockaddr_in \<times> byte list) list"
  gbnResults :: "int list"
  inbox :: datagrams
  ackd :: "(sockaddr_in \<times> byte list) list"
  files :: "byte list \<Rightarrow> byte list option"
  access :: "byte list \<Rightarrow> bool"
  shown :: "byte list list"

datatype ('a, 'w) outcome = Returns 'a 'w | Waits 'w | Fails

primrec andThen :: "('a, 'w) outcome \<Rightarrow> ('a \<Rightarrow> 'w \<Rightarrow> ('b, 'w) outcome) \<Rightarrow> ('b, 'w) outcome" where
  "andThen (Returns x w) f = f x w"
| "andThen (Waits w) f = Waits w"
| "andThen Fails f = Fails"

lemma andThen_cong [fundef_cong]:
  "r = r' \<Longrightarrow> (\<And>x w. r' = Returns x w \<Longrightarrow> f x w = f' x w) \<Longrightarrow> andThen r f = andThen r' f'"
  by (cases r') simp_all

lemma andThen_Returns_iff [simp]:
  "(andThen r f = Returns y w') = (\<exists>x w. r = Returns x w \<and> f x w = Returns y w')"
  by (cases r) simp_all

text \<open>A C string is what comes before the first NUL; without one the reader leaves the buffer.\<close>

definition cString :: "byte list \<Rightarrow> byte list option" where
  "cString b = (if 0 \<in> set b then Some (takeWhile (\<lambda>x. x \<noteq> 0) b) else None)"

subsection \<open>Messages\<close>

text \<open>The result of the GBN layer is not looked at.\<close>

definition sendMessageDMProtocol ::
  "int \<Rightarrow> sockaddr_in \<Rightarrow> nat \<Rightarrow> message \<Rightarrow> 'z world_scheme \<Rightarrow> (int, 'z world_scheme) outcome"
where
  "sendMessageDMProtocol socket dest_addr dest_addr_size msg w =
     (case serializeMessage msg of
        None \<Rightarrow> Fails
      | Some buf \<Rightarrow>
         (case sendMessageGbn socket dest_addr dest_addr_size buf (nat (calcMessageSize msg)) None
                 (launcherTurn w (length (handed w)) (gbn w)) of
            None \<Rightarrow> Fails
          | Some (r, g) \<Rightarrow> Returns 0 (w\<lparr>gbn := g, handed := handed w @ [(dest_addr, buf)],
              gbnResults := gbnResults w @ [r]\<rparr>)))"

text \<open>On a descriptor that is not open \<open>recvfrom\<close> fails for ever.\<close>

definition receiveMessageDMProtocol ::
  "int \<Rightarrow> 'z world_scheme \<Rightarrow> (int \<times> sockaddr_in \<times> message, 'z world_scheme) outcome"
where
  "receiveMessageDMProtocol socket w =
     (if socket < 0 then Waits w
      else case recvMessageGbn True (inbox w) of
        None \<Rightarrow> Fails
      | Some (Inl st) \<Rightarrow> Waits (w\<lparr>inbox := [], ackd := ackd w @ acks st\<rparr>)
      | Some (Inr (r, sender_addr, message_buff, as, rest)) \<Rightarrow>
         (case deserializeMessage message_buff of
            None \<Rightarrow> Fails
          | Some received_msg \<Rightarrow>
              Returns (0, sender_addr, received_msg) (w\<lparr>inbox := rest, ackd := ackd w @ as\<rparr>)))"

lemma receive_shorter:
  "receiveMessageDMProtocol socket w = Returns x w' \<Longrightarrow> length (inbox w') < length (inbox w)"
  using listenForData_length [of "inbox w"]
  by (auto simp: receiveMessageDMProtocol_def recvMessageGbn_def split: if_splits option.splits sum.splits)

lemma send_returns_0:
  "sendMessageDMProtocol socket dst n msg w = Returns r w' \<Longrightarrow> r = 0 \<and> inbox w' = inbox w"
  by (auto simp: sendMessageDMProtocol_def split: option.splits)

text \<open>The loop around a receive, which goes on while the condition on the result and the message
  holds.\<close>

function receiveWhile ::
  "int \<Rightarrow> (int \<Rightarrow> message \<Rightarrow> bool) \<Rightarrow> 'z world_scheme
    \<Rightarrow> (int \<times> sockaddr_in \<times> message, 'z world_scheme) outcome"
where
  "receiveWhile socket again w =
     andThen (receiveMessageDMProtocol socket w) (\<lambda>x w'.
       if again (fst x) (snd (snd x)) then receiveWhile socket again w' else Returns x w')"
  by pat_completeness auto
termination
  by (relation "measure (\<lambda>(s, again, w). length (inbox w))") (auto dest: receive_shorter)

text \<open>The loop around a send, which goes on while the result is negative.\<close>

function sendRetrying ::
  "int \<Rightarrow> sockaddr_in \<Rightarrow> nat \<Rightarrow> message \<Rightarrow> 'z world_scheme \<Rightarrow> (int, 'z world_scheme) outcome"
where
  "sendRetrying socket dst n msg w =
     andThen (sendMessageDMProtocol socket dst n msg w) (\<lambda>r w'.
       if r < 0 then sendRetrying socket dst n msg w' else Returns r w')"
  by pat_completeness auto
termination
  by (relation "{}") (auto dest: send_returns_0)

declare receiveWhile.simps [simp del] sendRetrying.simps [simp del]

lemma receiveWhile_shorter:
  "receiveWhile socket again w = Returns x w' \<Longrightarrow> length (inbox w') < length (inbox w)"
proof (induction socket again w rule: receiveWhile.induct)
  case (1 socket again w)
  from 1(2) obtain y w1 where r: "receiveMessageDMProtocol socket w = Returns y w1"
    "(if again (fst y) (snd (snd y)) then receiveWhile socket again w1 else Returns y w1) = Returns x w'"
    unfolding receiveWhile.simps [of socket again w] andThen_Returns_iff by blast
  from receive_shorter [OF r(1)] 1(1) [OF r(1)] r(2) show ?case
    by (auto split: if_splits)
qed

lemma sendRetrying_eq: "sendRetrying socket dst n msg w = sendMessageDMProtocol socket dst n msg w"
proof (cases "sendMessageDMProtocol socket dst n msg w")
  case (Returns r w')
  with send_returns_0 [OF this] show ?thesis by (subst sendRetrying.simps) simp
qed (simp_all add: sendRetrying.simps)

subsection \<open>Files\<close>

text \<open>A descriptor is the name of the open file, or \<open>None\<close> for -1. \<open>read\<close> gives what the file
  holds at the position, up to the size of the chunk buffer; \<open>write\<close> at the end appends. On -1
  both fail.\<close>

definition readChunk :: "'z world_scheme \<Rightarrow> byte list option \<Rightarrow> nat \<Rightarrow> byte list option" where
  "readChunk w fileD pos = do {
     name \<leftarrow> fileD;
     c \<leftarrow> files w name;
     Some (take MAX_FILE_CHUNK_SIZE (drop pos c)) }"

definition writeEnd :: "byte list option \<Rightarrow> byte list \<Rightarrow> 'z world_scheme \<Rightarrow> 'z world_scheme" where
  "writeEnd fileD d w = (case fileD of
     None \<Rightarrow> w
   | Some name \<Rightarrow> w\<lparr>files := (files w)(name := map_option (\<lambda>c. c @ d) (files w name))\<rparr>)"

lemma inbox_writeEnd [simp]: "inbox (writeEnd fileD d w) = inbox w"
  by (simp add: writeEnd_def split: option.split)

definition chunkMessage :: "byte list \<Rightarrow> message" where
  "chunkMessage chunk = (let more = (length chunk = MAX_FILE_CHUNK_SIZE) in
     newMessage\<lparr>payload := Some chunk, message_header := (message_header newMessage)
       \<lparr>has_more := more, payload_lentgh := int (length chunk), command := commandCode UNSPECIFIED\<rparr>\<rparr>)"

text \<open>The condition of the loop that waits for the acknowledgement of a chunk, as it is written.\<close>

definition awaitsChunkAck :: "int \<Rightarrow> message \<Rightarrow> bool" where
  "awaitsChunkAck r msg \<longleftrightarrow> r < 0 \<and> command (message_header msg) \<noteq> commandCode UNSPECIFIED
     \<and> op_status (message_header msg) \<noteq> statusCode OP_STATUS_OK"

function sendFileLoop ::
  "int \<Rightarrow> sockaddr_in \<Rightarrow> nat \<Rightarrow> byte list option \<Rightarrow> nat \<Rightarrow> 'z world_scheme \<Rightarrow> (int, 'z world_scheme) outcome"
where
  "sendFileLoop socket dst n fileD pos w =
     (case readChunk w fileD pos of
        None \<Rightarrow> Waits w
      | Some chunk \<Rightarrow>
          andThen (sendRetrying socket dst n (chunkMessage chunk) w) (\<lambda>_ w1.
          andThen (receiveWhile socket awaitsChunkAck w1) (\<lambda>_ w2.
            if has_more (message_header (chunkMessage chunk))
            then sendFileLoop socket dst n fileD (pos + length chunk) w2
            else Returns 0 w2)))"
  by pat_completeness auto
termination
  by (relation "measure (\<lambda>(s, d, n, f, p, w). length (inbox w))")
    (auto simp: sendRetrying_eq dest!: send_returns_0 receiveWhile_shorter)

definition sendFileDMProtocol ::
  "int \<Rightarrow> sockaddr_in \<Rightarrow> nat \<Rightarrow> byte list option \<Rightarrow> 'z world_scheme \<Rightarrow> (int, 'z world_scheme) outcome"
where
  "sendFileDMProtocol socket dst n fileD w = sendFileLoop socket dst n fileD 0 w"

text \<open>Every caller passes null pointers for the sender's address, which is then not touched.\<close>

definition chunkHasArrivedMsg :: message where
  "chunkHasArrivedMsg = newMessage\<lparr>message_header := (message_header newMessage)
     \<lparr>op_status := statusCode OP_STATUS_OK\<rparr>\<rparr>"

function receiveFileDMProtocol ::
  "int \<Rightarrow> byte list option \<Rightarrow> 'z world_scheme \<Rightarrow> (int, 'z world_scheme) outcome"
where
  "receiveFileDMProtocol socket fileD w =
     andThen (receiveWhile socket (\<lambda>r m. r < 0) w) (\<lambda>rcvd w1.
     andThen (sendRetrying socket (fst (snd rcvd)) addrSize chunkHasArrivedMsg
                (writeEnd fileD (content (snd (snd rcvd))) w1)) (\<lambda>_ w2.
       if has_more (message_header (snd (snd rcvd))) then receiveFileDMProtocol socket fileD w2 else Returns 0 w2))"
  by pat_completeness auto
termination
  by (relation "measure (\<lambda>(s, f, w). length (inbox w))")
    (auto simp: sendRetrying_eq inbox_writeEnd dest!: send_returns_0 receiveWhile_shorter)

declare sendFileLoop.simps [simp del] receiveFileDMProtocol.simps [simp del]

subsection \<open>What a socket carries\<close>

text \<open>\<open>carries rs ms rest\<close>: the GBN layer gives the messages \<open>ms\<close>, one per call, out of the
  datagrams \<open>rs\<close>, and leaves \<open>rest\<close>.\<close>

primrec carries :: "datagrams \<Rightarrow> (sockaddr_in \<times> message) list \<Rightarrow> datagrams \<Rightarrow> bool" where
  "carries rs [] rest \<longleftrightarrow> rest = rs"
| "carries rs (x # ms) rest \<longleftrightarrow> wf_message (snd x) \<and>
     (\<exists>as r. recvMessageGbn True rs = Some (Inr (0, fst x, message_bytes (snd x), as, r)) \<and> carries r ms rest)"

lemma carries_append: "carries rs (xs @ ys) rest = (\<exists>r. carries rs xs r \<and> carries r ys rest)"
  by (induction xs arbitrary: rs) auto

lemma carries_more: "carries rs xs rest \<Longrightarrow> carries (rs @ zs) xs (rest @ zs)"
proof (induction xs arbitrary: rs)
  case (Cons x xs)
  then show ?case using listenForData_append [of True rs 0 "fst x"]
    by (fastforce simp: recvMessageGbn_def)
qed simp

text \<open>The datagrams of a message in order, sent by a launcher whose ring stands at \<open>start\<close>.\<close>

definition datagramsOf :: "sockaddr_in \<Rightarrow> port \<Rightarrow> int \<Rightarrow> int \<Rightarrow> message \<Rightarrow> datagrams" where
  "datagramsOf src prt start mid msg = inOrder src prt (stampedPackets start mid (message_bytes msg))"

lemma message_bytes_not_Nil [simp]: "message_bytes m \<noteq> []"
proof -
  have "13 \<le> length (message_bytes m)" by (simp add: message_bytes_def)
  then show ?thesis by auto
qed

lemma carries_datagrams:
  assumes "wf_message m" "int (numOfPackets (message_bytes m)) \<le> QUEUE_LEN"
    "0 \<le> start" "start < QUEUE_LEN" "c_int mid"
  shows "carries (datagramsOf src prt start mid m @ zs) [(src, m)] zs"
proof -
  have "message_packets start mid (stampedPackets start mid (message_bytes m))"
    by (rule stamped_message [OF _ assms(2-5)]) simp
  from listenForData_stream [OF this, of src prt zs] show ?thesis
    by (auto simp: recvMessageGbn_def datagramsOf_def stamped_data assms(1))
qed

text \<open>The same over a network that loses, repeats and reorders: it is enough that the packets
  arrive in order as a subsequence. What is left in the socket may then hold repeated packets.\<close>

lemma carries_arrivals:
  assumes "wf_message m" "int (numOfPackets (message_bytes m)) \<le> QUEUE_LEN"
    "0 \<le> start" "start < QUEUE_LEN" "c_int mid"
    and "\<forall>i\<in>set (somes xs). i < numOfPackets (message_bytes m)"
    and "subseq [0..<numOfPackets (message_bytes m)] (somes xs)"
  shows "\<exists>rest. carries (map (arrival src prt (stampedPackets start mid (message_bytes m))) xs @ zs)
    [(src, m)] (rest @ zs)"
proof -
  have "message_packets start mid (stampedPackets start mid (message_bytes m))"
    by (rule stamped_message [OF _ assms(2-5)]) simp
  from listenForData_message [OF this, of xs src prt] assms(6,7) obtain as rest where
    "recvMessageGbn True (map (arrival src prt (stampedPackets start mid (message_bytes m))) xs)
      = Some (Inr (0, src, message_bytes m, as, rest))"
    by (auto simp: recvMessageGbn_def stamped_data)
  then have "carries (map (arrival src prt (stampedPackets start mid (message_bytes m))) xs) [(src, m)] rest"
    using assms(1) by simp
  from carries_more [OF this] show ?thesis by blast
qed

lemma receive_carries:
  assumes "carries (inbox w) ((src, m) # ms) rest" "0 \<le> socket"
  shows "\<exists>r as. receiveMessageDMProtocol socket w =
      Returns (0, src, arrived m) (w\<lparr>inbox := r, ackd := ackd w @ as\<rparr>) \<and> carries r ms rest"
proof -
  from assms(1) obtain as r where "wf_message m" "carries r ms rest"
    "recvMessageGbn True (inbox w) = Some (Inr (0, src, message_bytes m, as, r))" by auto
  with deserializeMessage_bytes [of m "[]"] assms(2) show ?thesis
    by (intro exI [of _ r] exI [of _ as]) (simp add: receiveMessageDMProtocol_def)
qed

text \<open>A waiting loop skips the messages it does not want.\<close>

lemma receiveWhile_carries:
  assumes "carries (inbox w) (xs @ (src, m) # ms) rest" "0 \<le> socket"
    and "\<forall>x\<in>set xs. again 0 (arrived (snd x))" "\<not> again 0 (arrived m)"
  shows "\<exists>r as. receiveWhile socket again w =
      Returns (0, src, arrived m) (w\<lparr>inbox := r, ackd := ackd w @ as\<rparr>) \<and> carries r ms rest"
  using assms(1,3)
proof (induction xs arbitrary: w)
  case Nil
  with receive_carries [of w src m ms rest socket] assms(2,4) obtain r as where
    "receiveMessageDMProtocol socket w = Returns (0, src, arrived m) (w\<lparr>inbox := r, ackd := ackd w @ as\<rparr>)"
    "carries r ms rest" by auto
  then show ?case using assms(4) by (auto simp: receiveWhile.simps [of socket again w])
next
  case (Cons x xs)
  obtain s y where x: "x = (s, y)" by force
  from receive_carries [of w s y "xs @ (src, m) # ms" rest socket] Cons.prems(1) assms(2) x obtain r as where
    r: "receiveMessageDMProtocol socket w = Returns (0, s, arrived y) (w\<lparr>inbox := r, ackd := ackd w @ as\<rparr>)"
    "carries r (xs @ (src, m) # ms) rest" by auto
  let ?w = "w\<lparr>inbox := r, ackd := ackd w @ as\<rparr>"
  from Cons.IH [of ?w] r(2) Cons.prems(2) obtain r' as' where
    "receiveWhile socket again ?w = Returns (0, src, arrived m) (?w\<lparr>inbox := r', ackd := ackd ?w @ as'\<rparr>)"
    "carries r' ms rest" by auto
  moreover have "again 0 (arrived y)" using Cons.prems(2) x by simp
  ultimately show ?case
    by (intro exI [of _ r'] exI [of _ "as @ as'"]) (simp add: receiveWhile.simps [of socket again w] r(1))
qed

subsection \<open>Processes that send\<close>

text \<open>\<open>fresh\<close>: the send table knows only messages with smaller identifiers, so the next one is not in
  use. The sends keep this until the counter of identifiers wraps. What is assumed of the launcher's
  threads: between two sends they keep the invariant and do not touch the counter, register no
  message, and have dropped the old entries when the counter has wrapped. The launcher's own steps
  are of this kind (theory \<open>Session\<close>).\<close>

definition gbnInv :: "gbnState \<Rightarrow> bool" where
  "gbnInv g \<longleftrightarrow> launcher_inv (launch g) \<and> msg_id_inv (lastMsgId g)"

definition fresh :: "gbnState \<Rightarrow> bool" where
  "fresh g \<longleftrightarrow> (\<forall>i. c_int i \<and> tableOf (launch g) i \<noteq> None \<longrightarrow> 0 \<le> i \<and> i < lastMsgId g)"

definition benign :: "(nat \<Rightarrow> gbnState \<Rightarrow> gbnState) \<Rightarrow> bool" where
  "benign turn \<longleftrightarrow> (\<forall>n g. gbnInv g \<and> (fresh g \<or> lastMsgId g = 0) \<longrightarrow>
     gbnInv (turn n g) \<and> fresh (turn n g) \<and> lastMsgId (turn n g) = lastMsgId g)"

definition processOk :: "'z world_scheme \<Rightarrow> bool" where
  "processOk w \<longleftrightarrow> gbnInv (gbn w) \<and> (fresh (gbn w) \<or> lastMsgId (gbn w) = 0) \<and> benign (launcherTurn w)"

lemma fresh_free: "fresh g \<Longrightarrow> msg_id_inv (lastMsgId g) \<Longrightarrow> tableOf (launch g) (lastMsgId g) = None"
  by (rule ccontr) (auto simp: fresh_def msg_id_inv_def c_int_def dest: spec [of _ "lastMsgId g"])

lemma processOk_turn:
  assumes "processOk w" and "g = launcherTurn w n (gbn w)"
  shows "launcher_inv (launch g)" "msg_id_inv (lastMsgId g)" "fresh g"
    "tableOf (launch g) (lastMsgId g) = None"
  using assms fresh_free [of g] by (auto simp: processOk_def benign_def gbnInv_def)

text \<open>A send that registers its message, or fails, leaves the next identifier fresh or wrapped.\<close>

lemma fresh_next:
  assumes "fresh g" "msg_id_inv (lastMsgId g)" "lastMsgId g' = (lastMsgId g + 1) mod INT_MAX"
    and "\<And>j. c_int j \<Longrightarrow> tableOf (launch g') j \<noteq> None \<Longrightarrow> j = lastMsgId g \<or> tableOf (launch g) j \<noteq> None"
  shows "fresh g' \<or> lastMsgId g' = 0"
proof (cases "lastMsgId g + 1 = INT_MAX")
  case False
  then have "lastMsgId g' = lastMsgId g + 1" using assms(2,3) by (simp add: msg_id_inv_def)
  with assms(1,2,4) show ?thesis unfolding fresh_def msg_id_inv_def by fastforce
qed (use assms(3) in simp)

text \<open>The pads that are free when the next message is sent.\<close>

definition freePads :: "'z world_scheme \<Rightarrow> int" where
  "freePads w = contiguousPadsAvailable (battery (bs (launch
     (launcherTurn w (length (handed w)) (gbn w)))))"

text \<open>From \<open>w\<close> the process gave \<open>hs\<close> to the GBN layer and reached \<open>w'\<close>, with these datagrams
  left and these files.\<close>

definition after ::
  "'z world_scheme \<Rightarrow> (sockaddr_in \<times> byte list) list \<Rightarrow> datagrams \<Rightarrow> (byte list \<Rightarrow> byte list option)
    \<Rightarrow> 'z world_scheme \<Rightarrow> bool"
where
  "after w hs rest fs w' \<longleftrightarrow> handed w' = handed w @ hs \<and> inbox w' = rest \<and> files w' = fs
     \<and> processOk w' \<and> launcherTurn w' = launcherTurn w \<and> access w' = access w \<and> shown w' = shown w
     \<and> world.more w' = world.more w"

lemma after_trans:
  "after w hs r fs w1 \<Longrightarrow> after w1 hs' r' fs' w2 \<Longrightarrow> after w (hs @ hs') r' fs' w2"
  by (simp add: after_def)

lemma after_D [dest]:
  assumes "after w hs rest fs w'"
  shows "inbox w' = rest" "files w' = fs" "processOk w'" "handed w' = handed w @ hs"
    "access w' = access w" "shown w' = shown w" "world.more w' = world.more w"
  using assms by (simp_all add: after_def)

lemma packets_of_message:
  "wf_message msg \<Longrightarrow> nat (calcMessageSize msg) = length (message_bytes msg)"
  using length_message_bytes [of msg] by simp

lemma sendMessage_spec:
  assumes ok: "processOk w" and m: "wf_message msg" and n: "n \<le> addrSize"
  shows "\<exists>g. sendMessageDMProtocol socket dst n msg w = Returns 0 (w\<lparr>gbn := g,
      handed := handed w @ [(dst, message_bytes msg)],
      gbnResults := gbnResults w @ [if int (numOfPackets (message_bytes msg)) \<le> freePads w then 0 else - 1]\<rparr>)
    \<and> gbnInv g \<and> (fresh g \<or> lastMsgId g = 0) \<and> (freePads w < int (numOfPackets (message_bytes msg)) \<longrightarrow>
        launch g = launch (launcherTurn w (length (handed w)) (gbn w)))"
proof -
  let ?g = "launcherTurn w (length (handed w)) (gbn w)" and ?b = "message_bytes msg"
  note T = processOk_turn [OF ok refl, of "length (handed w)"]
  note g = T(1,2,4)
  have i: "msg_id_inv ((lastMsgId ?g + 1) mod INT_MAX)" by (simp add: msg_id_inv_def)
  note S = sendMessageGbn_spec [OF g message_bytes_not_Nil [of msg] n, where sdn = socket and dst = dst and handler = None]
  show ?thesis
  proof (cases "int (numOfPackets ?b) \<le> freePads w")
    case True
    with S obtain st where st: "sendMessageGbn socket dst n ?b (length ?b) None ?g =
        Some (0, ?g\<lparr>lastMsgId := (lastMsgId ?g + 1) mod INT_MAX, launch := st\<rparr>)"
      "launcher_inv st" and t: "\<And>j. c_int j \<Longrightarrow> tableOf st j = ((tableOf (launch ?g))(lastMsgId ?g
        \<mapsto> entryFor socket dst n None)) j" by (auto simp: freePads_def enqueued_def)
    from fresh_next [OF T(3,2), of "?g\<lparr>lastMsgId := (lastMsgId ?g + 1) mod INT_MAX, launch := st\<rparr>"] t
    have "fresh (?g\<lparr>lastMsgId := (lastMsgId ?g + 1) mod INT_MAX, launch := st\<rparr>)
        \<or> (lastMsgId ?g + 1) mod INT_MAX = 0" by (simp split: if_splits)
    then show ?thesis using True i st
      by (intro exI [of _ "?g\<lparr>lastMsgId := (lastMsgId ?g + 1) mod INT_MAX, launch := st\<rparr>"])
        (simp add: sendMessageDMProtocol_def serializeMessage_wf [OF m] packets_of_message [OF m] gbnInv_def)
  next
    case False
    with S have "sendMessageGbn socket dst n ?b (length ?b) None ?g =
        Some (- 1, ?g\<lparr>lastMsgId := (lastMsgId ?g + 1) mod INT_MAX\<rparr>)" by (simp add: freePads_def)
    moreover have "fresh (?g\<lparr>lastMsgId := (lastMsgId ?g + 1) mod INT_MAX\<rparr>) \<or> (lastMsgId ?g + 1) mod INT_MAX = 0"
      using fresh_next [OF T(3,2), of "?g\<lparr>lastMsgId := (lastMsgId ?g + 1) mod INT_MAX\<rparr>"] by simp
    ultimately show ?thesis using False i g(1)
      by (intro exI [of _ "?g\<lparr>lastMsgId := (lastMsgId ?g + 1) mod INT_MAX\<rparr>"])
        (simp add: sendMessageDMProtocol_def serializeMessage_wf [OF m] packets_of_message [OF m] gbnInv_def)
  qed
qed

lemma send_after:
  assumes "processOk w" "wf_message msg" "n \<le> addrSize"
  shows "\<exists>w'. sendMessageDMProtocol socket dst n msg w = Returns 0 w'
    \<and> after w [(dst, message_bytes msg)] (inbox w) (files w) w'"
  using sendMessage_spec [OF assms, of socket dst] assms(1)
  by (auto simp: after_def processOk_def)

lemma receive_after:
  assumes "processOk w" "carries (inbox w) (xs @ (src, m) # ms) rest" "0 \<le> socket"
    "\<forall>x\<in>set xs. again 0 (arrived (snd x))" "\<not> again 0 (arrived m)"
  shows "\<exists>w'. receiveWhile socket again w = Returns (0, src, arrived m) w'
    \<and> after w [] (inbox w') (files w) w' \<and> carries (inbox w') ms rest"
  using receiveWhile_carries [of w xs src m ms rest socket again] assms by (auto simp: after_def processOk_def)

subsection \<open>Sending a file\<close>

text \<open>The division of a file: chunks of the size of the buffer, and a last one that is shorter,
  possibly empty.\<close>

function fileChunks :: "byte list \<Rightarrow> byte list list" where
  "fileChunks c = (if length c < MAX_FILE_CHUNK_SIZE then [c]
     else take MAX_FILE_CHUNK_SIZE c # fileChunks (drop MAX_FILE_CHUNK_SIZE c))"
  by pat_completeness auto
termination
  by (relation "measure length") (auto simp: MAX_FILE_CHUNK_SIZE_def)

declare fileChunks.simps [simp del]

lemma concat_fileChunks: "concat (fileChunks c) = c"
proof (induction c rule: fileChunks.induct)
  case (1 c)
  then show ?case by (cases "length c < MAX_FILE_CHUNK_SIZE") (simp_all add: fileChunks.simps [of c])
qed

lemma length_fileChunks: "length (fileChunks c) = length c div MAX_FILE_CHUNK_SIZE + 1"
proof (induction c rule: fileChunks.induct)
  case (1 c)
  show ?case
  proof (cases "length c < MAX_FILE_CHUNK_SIZE")
    case True
    then show ?thesis by (simp add: fileChunks.simps [of c])
  next
    case False
    have "0 < MAX_FILE_CHUNK_SIZE" by (simp add: MAX_FILE_CHUNK_SIZE_def)
    with 1 [OF False] False show ?thesis by (simp add: fileChunks.simps [of c] le_div_geq)
  qed
qed

lemma fileChunks_bound: "d \<in> set (fileChunks c) \<Longrightarrow> length d \<le> MAX_FILE_CHUNK_SIZE"
proof (induction c rule: fileChunks.induct)
  case (1 c)
  then show ?case by (auto simp: fileChunks.simps [of c] split: if_splits)
qed

lemma chunkMessage_simps [simp]:
  "length d \<le> MAX_FILE_CHUNK_SIZE \<Longrightarrow> wf_message (chunkMessage d)"
  "content (chunkMessage d) = d" "has_more (message_header (chunkMessage d)) = (length d = MAX_FILE_CHUNK_SIZE)"
  "op_status (message_header (chunkMessage d)) = 0" "command (message_header (chunkMessage d)) = 0"
  by (simp_all add: chunkMessage_def newMessage_def wf_message_def content_def c_int_def MAX_FILE_CHUNK_SIZE_def)

lemma arrived_header [simp]: "message_header (arrived m) = message_header m"
  by (simp add: arrived_def)

lemma wf_chunkHasArrivedMsg [simp]: "wf_message chunkHasArrivedMsg"
  by (simp add: chunkHasArrivedMsg_def newMessage_def wf_message_def c_int_def)

lemma content_chunkHasArrivedMsg [simp]: "content chunkHasArrivedMsg = []"
  by (simp add: chunkHasArrivedMsg_def newMessage_def content_def)

abbreviation chunkBytes :: "byte list \<Rightarrow> byte list" where
  "chunkBytes d \<equiv> message_bytes (chunkMessage d)"

text \<open>One message is awaited after each chunk; whatever it says, it counts as the acknowledgement.\<close>

lemma sendFileLoop_spec:
  assumes "processOk w" "0 \<le> socket" "n \<le> addrSize" "files w name = Some c"
    and "carries (inbox w) ms rest" "length ms = length (fileChunks (drop pos c))"
  shows "\<exists>w'. sendFileLoop socket dst n (Some name) pos w = Returns 0 w'
    \<and> after w (map (\<lambda>d. (dst, chunkBytes d)) (fileChunks (drop pos c))) rest (files w) w'"
  using assms
proof (induction ms arbitrary: w pos)
  case Nil
  then show ?case by (simp add: length_fileChunks)
next
  case (Cons x ms)
  let ?d = "take MAX_FILE_CHUNK_SIZE (drop pos c)"
  have len: "length ?d \<le> MAX_FILE_CHUNK_SIZE" by simp
  have rd: "readChunk w (Some name) pos = Some ?d" using Cons.prems(4) by (simp add: readChunk_def)
  from send_after [OF Cons.prems(1) chunkMessage_simps(1) [OF len] Cons.prems(3), of socket dst] obtain w1 where
    w1: "sendMessageDMProtocol socket dst n (chunkMessage ?d) w = Returns 0 w1"
    "after w [(dst, chunkBytes ?d)] (inbox w) (files w) w1" by blast
  have "carries (inbox w1) ([] @ (fst x, snd x) # ms) rest" using Cons.prems(5) after_D(1) [OF w1(2)] by simp
  from receive_after [OF after_D(3) [OF w1(2)] this Cons.prems(2), of awaitsChunkAck]
  obtain w2 where w2: "receiveWhile socket awaitsChunkAck w1 = Returns (0, fst x, arrived (snd x)) w2"
    "after w1 [] (inbox w2) (files w1) w2" "carries (inbox w2) ms rest"
    by (auto simp: awaitsChunkAck_def)
  have w12: "after w [(dst, chunkBytes ?d)] (inbox w2) (files w) w2"
    using after_trans [OF w1(2) w2(2)] w1(2) by auto
  have step: "sendFileLoop socket dst n (Some name) pos w =
      (if length ?d = MAX_FILE_CHUNK_SIZE then sendFileLoop socket dst n (Some name) (pos + length ?d) w2
       else Returns 0 w2)"
    by (simp add: sendFileLoop.simps [of socket dst n "Some name" pos w] rd sendRetrying_eq w1(1) w2(1))
  show ?case
  proof (cases "length (drop pos c) < MAX_FILE_CHUNK_SIZE")
    case True
    then have "fileChunks (drop pos c) = [?d]" by (simp add: fileChunks.simps [of "drop pos c"])
    with Cons.prems(6) have "ms = []" by simp
    with w12 w2(3) True step \<open>fileChunks (drop pos c) = [?d]\<close> show ?thesis by (auto simp: after_def)
  next
    case False
    then have ch: "fileChunks (drop pos c) = ?d # fileChunks (drop (pos + length ?d) c)"
      and full: "length ?d = MAX_FILE_CHUNK_SIZE"
      by (simp_all add: fileChunks.simps [of "drop pos c"] add.commute)
    have "files w2 name = Some c" using w12 Cons.prems(4) by auto
    with Cons.IH [of w2 "pos + length ?d"] w12 w2(3) Cons.prems(2,3,6) ch obtain w3 where
      w3: "sendFileLoop socket dst n (Some name) (pos + length ?d) w2 = Returns 0 w3"
      "after w2 (map (\<lambda>d. (dst, chunkBytes d)) (fileChunks (drop (pos + length ?d) c))) rest (files w2) w3"
      by auto
    from after_trans [OF w12 w3(2)] w12 have
      "after w (map (\<lambda>d. (dst, chunkBytes d)) (fileChunks (drop pos c))) rest (files w) w3"
      unfolding ch by auto
    with w3(1) step full show ?thesis by auto
  qed
qed

lemma sendFile_spec:
  assumes "processOk w" "0 \<le> socket" "n \<le> addrSize" "files w name = Some c"
    and "carries (inbox w) ms rest" "length ms = length (fileChunks c)"
  shows "\<exists>w'. sendFileDMProtocol socket dst n (Some name) w = Returns 0 w'
    \<and> after w (map (\<lambda>d. (dst, chunkBytes d)) (fileChunks c)) rest (files w) w'"
  using sendFileLoop_spec [OF assms(1-5), of 0 dst] assms(6) by (simp add: sendFileDMProtocol_def)

subsection \<open>Receiving a file\<close>

text \<open>The messages of a transfer: all but the last say that more follow.\<close>

fun transfer :: "message list \<Rightarrow> bool" where
  "transfer [] = False"
| "transfer [m] = (\<not> has_more (message_header m))"
| "transfer (m # ms) = (has_more (message_header m) \<and> transfer ms)"

definition appended :: "byte list option \<Rightarrow> byte list \<Rightarrow> (byte list \<Rightarrow> byte list option) \<Rightarrow> byte list \<Rightarrow> byte list option" where
  "appended fileD d fs = (case fileD of None \<Rightarrow> fs | Some name \<Rightarrow> fs(name := map_option (\<lambda>c. c @ d) (fs name)))"

lemma appended_appended: "appended fileD d' (appended fileD d fs) = appended fileD (d @ d') fs"
  by (cases fileD) (auto simp: appended_def option.map_comp comp_def)

lemma writeEnd_after:
  "processOk w \<Longrightarrow> after w [] (inbox w) (appended fileD d (files w)) (writeEnd fileD d w)"
  by (cases fileD) (simp_all add: after_def writeEnd_def appended_def processOk_def)

abbreviation ackBytes :: "byte list" where
  "ackBytes \<equiv> message_bytes chunkHasArrivedMsg"

text \<open>The payloads are appended in the order the messages come, whoever sent them.\<close>

lemma receiveFile_spec:
  assumes "processOk w" "0 \<le> socket" "carries (inbox w) ms rest" "transfer (map snd ms)"
  shows "\<exists>w'. receiveFileDMProtocol socket fileD w = Returns 0 w'
    \<and> after w (map (\<lambda>x. (fst x, ackBytes)) ms) rest
        (appended fileD (concat (map (content \<circ> snd) ms)) (files w)) w'"
  using assms
proof (induction ms arbitrary: w)
  case (Cons x ms)
  obtain src m where x: "x = (src, m)" by force
  from receive_after [of w "[]" src m ms rest socket "\<lambda>r m. r < 0"] Cons.prems x obtain w1 where
    w1: "receiveWhile socket (\<lambda>r m. r < 0) w = Returns (0, src, arrived m) w1"
    "after w [] (inbox w1) (files w) w1" "carries (inbox w1) ms rest" by auto
  have wf: "wf_message m" using Cons.prems(3) x by simp
  let ?w1 = "writeEnd fileD (content m) w1"
  have a1: "after w1 [] (inbox w1) (appended fileD (content m) (files w1)) ?w1"
    using w1(2) by (intro writeEnd_after) auto
  from send_after [OF after_D(3) [OF a1] wf_chunkHasArrivedMsg, of addrSize socket src] obtain w2 where
    w2: "sendMessageDMProtocol socket src addrSize chunkHasArrivedMsg ?w1 = Returns 0 w2"
    "after ?w1 [(src, ackBytes)] (inbox ?w1) (files ?w1) w2" by auto
  have w12: "after w [(src, ackBytes)] (inbox w1) (appended fileD (content m) (files w)) w2"
    using after_trans [OF after_trans [OF w1(2) a1] w2(2)] after_D(2) [OF a1] after_D(2) [OF w1(2)] by auto
  have step: "receiveFileDMProtocol socket fileD w =
      (if has_more (message_header m) then receiveFileDMProtocol socket fileD w2 else Returns 0 w2)"
    by (simp add: receiveFileDMProtocol.simps [of socket fileD w] w1(1) sendRetrying_eq wf w2(1))
  show ?case
  proof (cases ms)
    case Nil
    with Cons.prems(4) x w1(3) w12 step show ?thesis by (auto simp: after_def)
  next
    case (Cons y ys)
    with \<open>transfer (map snd (x # ms))\<close> x have more: "has_more (message_header m)" "transfer (map snd ms)" by auto
    have "carries (inbox w2) ms rest" using w1(3) after_D(1) [OF w12] by simp
    from Cons.IH [OF after_D(3) [OF w12] Cons.prems(2) this more(2)] obtain w3 where
      w3: "receiveFileDMProtocol socket fileD w2 = Returns 0 w3"
      "after w2 (map (\<lambda>x. (fst x, ackBytes)) ms) rest
        (appended fileD (concat (map (content \<circ> snd) ms)) (files w2)) w3" by blast
    from after_trans [OF w12 w3(2)] x have
      "after w (map (\<lambda>x. (fst x, ackBytes)) (x # ms)) rest
        (appended fileD (concat (map (content \<circ> snd) (x # ms))) (files w)) w3"
      by (simp add: appended_appended after_D(2) [OF w12])
    with w3(1) step more(1) show ?thesis by (auto simp: comp_def)
  qed
qed simp

lemma transfer_chunks: "transfer (map chunkMessage (fileChunks c))"
proof (induction c rule: fileChunks.induct)
  case (1 c)
  show ?case
  proof (cases "length c < MAX_FILE_CHUNK_SIZE")
    case True
    then show ?thesis by (simp add: fileChunks.simps [of c])
  next
    case False
    have "fileChunks (drop MAX_FILE_CHUNK_SIZE c) \<noteq> []"
      by (subst fileChunks.simps) simp
    with 1 [OF False] False show ?thesis
      by (cases "fileChunks (drop MAX_FILE_CHUNK_SIZE c)") (simp_all add: fileChunks.simps [of c])
  qed
qed

lemma content_chunks: "concat (map (content \<circ> snd) (map (\<lambda>d. (src, chunkMessage d)) (fileChunks c))) = c"
  by (simp add: comp_def concat_fileChunks)

subsection \<open>An example process\<close>

text \<open>All messages of a peer, in order and each sent from the start of a ring.\<close>

definition datagramsAll :: "sockaddr_in \<Rightarrow> message list \<Rightarrow> datagrams" where
  "datagramsAll src ms = concat (map (datagramsOf src 5000 0 0) ms)"

lemma carries_all:
  "\<forall>m\<in>set ms. wf_message m \<and> int (length (message_bytes m)) \<le> 1000000 \<Longrightarrow>
   carries (datagramsAll src ms) (map (Pair src) ms) []"
proof (induction ms)
  case (Cons m ms)
  then have "int (numOfPackets (message_bytes m)) \<le> QUEUE_LEN"
    by (auto simp: numOfPackets_eq QUEUE_LEN_def)
  with Cons carries_datagrams [of m 0 0 src 5000 "datagramsAll src ms"] show ?case
    by (auto simp: datagramsAll_def QUEUE_LEN_def c_int_def)
qed (simp add: datagramsAll_def)

text \<open>A process whose launcher's threads do not run before the counter wraps: the messages wait.\<close>

definition exampleProcess :: "(byte list \<Rightarrow> byte list option) \<Rightarrow> sockaddr_in \<Rightarrow> message list \<Rightarrow> world" where
  "exampleProcess fs src ms = \<lparr>gbn = \<lparr>launch = initLauncher 34 64 5000, lastMsgId = 0\<rparr>,
     launcherTurn = (\<lambda>_ g. if lastMsgId g = 0 then g\<lparr>launch := initLauncher 34 64 5000\<rparr> else g),
     handed = [], gbnResults = [],
     inbox = datagramsAll src ms, ackd = [], files = fs, access = (\<lambda>_. True), shown = []\<rparr>"

lemma fresh_init: "fresh (g\<lparr>launch := initLauncher a b c\<rparr>)"
  using send_table.lookup_empty by (simp add: fresh_def initLauncher_def)

lemma exampleProcess_ok [simp]: "processOk (exampleProcess fs src ms)"
  using launcher_inv_init fresh_init
  by (auto simp: exampleProcess_def processOk_def benign_def gbnInv_def msg_id_inv_def)

lemma exampleProcess_simps [simp]:
  "inbox (exampleProcess fs src ms) = datagramsAll src ms" "files (exampleProcess fs src ms) = fs"
  "access (exampleProcess fs src ms) n" "handed (exampleProcess fs src ms) = []"
  by (simp_all add: exampleProcess_def)

end
