(* ===== verification/Network.thy ===== *)
theory Network
  imports System DmProtocol
begin

text \<open>
  The messages of the application over the lossy network of \<open>System\<close>. \<open>heard\<close> is the reachability
  of a transfer with the datagrams that its receiver was given, in order; what the receiver
  returns on them is what \<open>recvMessageGbn\<close> returns on a socket that holds them. So a transfer that
  is done \<open>carries\<close> its message, which is what the theorems on the client and the server assume.
\<close>

inductive heard :: "bool \<Rightarrow> sockaddr_in \<Rightarrow> system \<Rightarrow> byte list list \<Rightarrow> system \<Rightarrow> bool" for ok sa s0 where
  nothing: "heard ok sa s0 [] s0"
| datagram: "heard ok sa s0 ds s \<Longrightarrow> (sdn, dst, bytes) \<in> set (wire (sender s)) \<Longrightarrow>
    morePackets (receiver s) \<Longrightarrow> delivered (receiver s) sa \<Longrightarrow>
    listenForDataStep sa bytes (receiver s) = Some r' \<Longrightarrow>
    heard ok sa s0 (ds @ [bytes]) (s\<lparr>receiver := r'\<rparr>)"
| elsewhere: "heard ok sa s0 ds s \<Longrightarrow> sysStep ok sa s s' \<Longrightarrow> receiver s' = receiver s \<Longrightarrow>
    heard ok sa s0 ds s'"

lemma heard_reachable: "heard ok sa s0 ds s \<Longrightarrow> reachable ok sa s0 s"
proof (induction rule: heard.induct)
  case (datagram ds s sdn dst bytes r')
  then have "sysStep ok sa s (s\<lparr>receiver := r'\<rparr>)" by (intro sysStep.packet)
  with datagram.IH show ?case by (auto simp: reachable_def)
qed (auto simp: reachable_def)

lemma reachable_heard: "reachable ok sa s0 s \<Longrightarrow> \<exists>ds. heard ok sa s0 ds s"
  unfolding reachable_def
proof (induction rule: rtranclp_induct)
  case base
  show ?case by (blast intro: heard.nothing)
next
  case (step s s')
  then obtain ds where ds: "heard ok sa s0 ds s" by blast
  from step.hyps(2) show ?case
  proof cases
    case (packet sdn dst bytes r')
    with ds show ?thesis by (blast intro: heard.datagram)
  next
    case (signal sig env l')
    then have "receiver s' = receiver s" by simp
    with heard.elsewhere [OF ds step.hyps(2)] show ?thesis by blast
  next
    case (timer r t' l')
    then have "receiver s' = receiver s" by simp
    with heard.elsewhere [OF ds step.hyps(2)] show ?thesis by blast
  next
    case (ack bytes now l')
    then have "receiver s' = receiver s" by simp
    with heard.elsewhere [OF ds step.hyps(2)] show ?thesis by blast
  qed
qed

lemma listenLoop_snoc:
  "listenLoop rs st = Some (st1, []) \<Longrightarrow> morePackets st1 \<Longrightarrow> delivered st1 src \<Longrightarrow>
   listenForDataStep src d st1 = Some st2 \<Longrightarrow> listenLoop (rs @ [Some (src, d)]) st = Some (st2, [])"
  by (induction rs st rule: listenLoop.induct) (auto split: if_splits option.splits)

text \<open>The datagrams of a socket whose peer is \<open>src\<close>.\<close>

abbreviation from_peer :: "sockaddr_in \<Rightarrow> byte list list \<Rightarrow> datagrams" where
  "from_peer src ds \<equiv> map (\<lambda>d. Some (src, d)) ds"

lemma heard_listens:
  assumes "heard ok sa s0 ds s" "receiver s0 = listenForDataInit"
  shows "listenLoop (from_peer sa ds) listenForDataInit = Some (receiver s, [])"
  using assms(1)
proof (induction rule: heard.induct)
  case nothing
  show ?case using assms(2) by simp
next
  case (datagram ds s sdn dst bytes r')
  with listenLoop_snoc [OF datagram.IH datagram.hyps(3,4,5)] show ?case by simp
qed simp

lemma started_receiver: "started msg g s0 \<Longrightarrow> receiver s0 = listenForDataInit"
  by (auto simp: started_def)

text \<open>What the receiver hears are datagrams of the message.\<close>

definition datagram_of :: "gbnState \<Rightarrow> byte list \<Rightarrow> byte list \<Rightarrow> bool" where
  "datagram_of g msg d \<longleftrightarrow> (\<exists>i<numOfPackets msg. \<exists>prt. d = wire_bytes (withPort prt
     (stampedPackets (wbase (launch g)) (lastMsgId g) msg ! i)))"

lemma heard_sent:
  assumes "heard ok sa s0 ds s" "started msg g s0"
  shows "\<forall>d\<in>set ds. datagram_of g msg d"
  using assms(1)
proof (induction rule: heard.induct)
  case (datagram ds s sdn dst bytes r')
  from started_reachable [OF assms(2) heard_reachable [OF datagram.hyps(1)]] obtain B R where
    "senderInv (wbase (launch g)) (stampedPackets (wbase (launch g)) (lastMsgId g) msg) B (sender s)"
    by (auto simp: sysInv_def)
  with datagram.hyps(2) have "datagram_of g msg bytes"
    by (fastforce simp: senderInv_def onAir_def datagram_of_def)
  with datagram.IH show ?case by simp
qed simp_all

text \<open>A transfer of the message \<open>m\<close> in which the receiver heard \<open>ds\<close> and is done.\<close>

definition completes :: "bool \<Rightarrow> sockaddr_in \<Rightarrow> message \<Rightarrow> byte list list \<Rightarrow> bool" where
  "completes ok sa m ds \<longleftrightarrow> wf_message m \<and> (\<exists>g s0 s. started (message_bytes m) g s0
     \<and> heard ok sa s0 ds s \<and> \<not> morePackets (receiver s))"

lemma done_received:
  assumes "started msg g s0" "heard ok sa s0 ds s" "\<not> morePackets (receiver s)"
  shows "recvMessageGbn True (from_peer sa ds @ zs) = Some (Inr (0, sa, msg, acks (receiver s), zs))"
proof -
  from started_reachable [OF assms(1) heard_reachable [OF assms(2)]] obtain B R where
    i: "sysInv sa (wbase (launch g)) (lastMsgId g) (stampedPackets (wbase (launch g)) (lastMsgId g) msg) B R s"
    by blast
  note F = sysInv_received [OF i]
  have "0 < length (stampedPackets (wbase (launch g)) (lastMsgId g) msg)"
    using i by (simp add: sysInv_def message_packets_def del: length_stamped)
  then have "R \<noteq> 0" using assms(3) F(3) by simp
  then have "senderAddrBuf (receiver s) = sa" using i by (auto simp: sysInv_def catching_def)
  moreover have "msgBuf (receiver s) = msg" using F(1,3) assms(3) by (simp add: stamped_data)
  moreover note heard_listens [OF assms(2) started_receiver [OF assms(1)]]
  ultimately have "recvMessageGbn True (from_peer sa ds) = Some (Inr (0, sa, msg, acks (receiver s), []))"
    using assms(3) by (simp add: recvMessageGbn_def listenForData_def)
  then show ?thesis using listenForData_append [of True "from_peer sa ds" 0 sa] by (simp add: recvMessageGbn_def)
qed

lemma completes_carries:
  "completes ok sa m ds \<Longrightarrow> carries (from_peer sa ds @ zs) [(sa, m)] zs"
  unfolding completes_def using done_received by fastforce

text \<open>Messages one after another: each transfer is done before the next one is heard.\<close>

lemma transfers_carry:
  "list_all2 (completes ok sa) ms dss \<Longrightarrow> carries (from_peer sa (concat dss)) (map (Pair sa) ms) []"
proof (induction rule: list_all2_induct)
  case (Cons m ms ds dss)
  have "carries (from_peer sa ds @ from_peer sa (concat dss)) ([(sa, m)] @ map (Pair sa) ms) []"
    using completes_carries [OF Cons.hyps(1)] Cons.IH unfolding carries_append by blast
  then show ?case by simp
qed simp

lemma completes_exists:
  assumes "wf_message m" "started (message_bytes m) g s0"
  shows "\<exists>ds. completes True sa m ds"
proof -
  have "reachable True sa s0 s0" by (simp add: reachable_def)
  from reachable_finishes [OF assms(2) this] obtain s where "reachable True sa s0 s"
    "\<not> morePackets (receiver s)" by blast
  with reachable_heard assms(1,2) show ?thesis unfolding completes_def by blast
qed

subsection \<open>From one process to another\<close>

text \<open>A process whose launcher has nothing to do hands over a message: a transfer starts.\<close>

definition senderIdle :: "'z world_scheme \<Rightarrow> message \<Rightarrow> bool" where
  "senderIdle w m \<longleftrightarrow> (let g = launcherTurn w (length (handed w)) (gbn w) in
     idle (launch g) \<and> int (numOfPackets (message_bytes m)) + winsize (bs (launch g)) \<le> QUEUE_LEN)"

lemma sends_start:
  assumes "processOk w" "wf_message m" "senderIdle w m" "n \<le> addrSize"
  shows "\<exists>w1. sendMessageDMProtocol sdn dst n m w = Returns 0 w1
    \<and> started (message_bytes m) (launcherTurn w (length (handed w)) (gbn w))
        \<lparr>sender = launch (gbn w1), receiver = listenForDataInit\<rparr>"
proof -
  let ?g = "launcherTurn w (length (handed w)) (gbn w)" and ?b = "message_bytes m"
  have g: "gbnInv ?g" "tableOf (launch ?g) (lastMsgId ?g) = None"
    using processOk_turn [OF assms(1) refl] by (simp_all add: gbnInv_def)
  have i: "idle (launch ?g)" "int (numOfPackets ?b) + winsize (bs (launch ?g)) \<le> QUEUE_LEN"
    using assms(3) by (simp_all add: senderIdle_def Let_def)
  have "launcher_inv (launch ?g)" using g(1) by (simp add: gbnInv_def)
  note D = launcher_inv_D [OF this]
  have "int (numOfPackets ?b) \<le> contiguousPadsAvailable (battery (bs (launch ?g)))"
    using i D(8) by (simp add: idle_def used_def)
  with sendMessageGbn_spec [OF \<open>launcher_inv (launch ?g)\<close> _ g(2) message_bytes_not_Nil assms(4), of m sdn dst None] g(1)
  obtain g' where g': "sendMessageGbn sdn dst n ?b (length ?b) None ?g = Some (0, g')"
    by (auto simp: gbnInv_def)
  then have "sendMessageDMProtocol sdn dst n m w = Returns 0 (w\<lparr>gbn := g',
      handed := handed w @ [(dst, ?b)], gbnResults := gbnResults w @ [0]\<rparr>)"
    by (simp add: sendMessageDMProtocol_def serializeMessage_wf [OF assms(2)] packets_of_message [OF assms(2)])
  moreover have "\<exists>sdn dst alen handler g''. alen \<le> addrSize
      \<and> sendMessageGbn sdn dst alen ?b (length ?b) handler ?g = Some (0, g'')
      \<and> \<lparr>sender = launch g', receiver = listenForDataInit\<rparr> = \<lparr>sender = launch g'', receiver = listenForDataInit\<rparr>"
    using g' assms(4) by blast
  then have "started ?b ?g \<lparr>sender = launch g', receiver = listenForDataInit\<rparr>"
    unfolding started_def using g i message_bytes_not_Nil [of m] by (simp add: gbnInv_def)
  ultimately show ?thesis by auto
qed

end
