(* ===== verification/Logger.thy ===== *)
theory Logger
  imports Prelude
begin

text \<open>
  The logger (logger/logger.h, logger/logger.c). The caller's format is expanded with its arguments,
  and the line that is built is given to \<open>fprintf\<close> as a format once more, with the tag and the
  caller's format as its arguments: \<open>expandFormat\<close> is either expansion, \<open>None\<close> for a directive
  whose argument is missing or has another type.
\<close>

datatype Tag = I | E | W | D

primrec tagCode :: "Tag \<Rightarrow> int" where
  "tagCode I = 0"
| "tagCode E = 1"
| "tagCode W = 2"
| "tagCode D = 3"

definition MSG_MAX_LEN :: nat where
  "MSG_MAX_LEN = 1024"

definition LOG_LEVEL :: int where
  "LOG_LEVEL = 3"

primrec getStringFromTag :: "Tag \<Rightarrow> byte list" where
  "getStringFromTag I = [0x49]"
| "getStringFromTag E = [0x45]"
| "getStringFromTag W = [0x57]"
| "getStringFromTag D = [0x44]"

text \<open>The arguments of a format: a C string, given without its NUL, or an integer.\<close>

datatype printArg = Str "byte list" | Num int

fun digits :: "nat \<Rightarrow> byte list" where
  "digits n = (if n < 10 then [] else digits (n div 10)) @ [of_nat (0x30 + n mod 10)]"

declare digits.simps [simp del]

definition decimal :: "int \<Rightarrow> byte list" where
  "decimal n = (if n < 0 then 0x2d # digits (nat (- n)) else digits (nat n))"

fun expandFormat :: "byte list \<Rightarrow> printArg list \<Rightarrow> byte list option" where
  "expandFormat [] args = Some []"
| "expandFormat (b # bs) args =
     (if b \<noteq> 0x25 then map_option ((#) b) (expandFormat bs args)
      else case bs of
        [] \<Rightarrow> None
      | c # cs \<Rightarrow>
          if c = 0x25 then map_option ((#) 0x25) (expandFormat cs args)
          else (case args of
              Str a # as \<Rightarrow> if c = 0x73 then map_option ((@) a) (expandFormat cs as) else None
            | Num n # as \<Rightarrow> if c = 0x64 then map_option ((@) (decimal n)) (expandFormat cs as) else None
            | [] \<Rightarrow> None))"

definition logLine :: "Tag \<Rightarrow> byte list \<Rightarrow> byte list" where
  "logLine tag text = take (MSG_MAX_LEN - 1) ([0x5b] @ getStringFromTag tag @ [0x5d, 0x20] @ text)"

text \<open>What is printed, for the text that \<open>vsnprintf\<close> makes: nothing above the level or for a null format.\<close>

definition logMsg :: "Tag \<Rightarrow> byte list option \<Rightarrow> byte list \<Rightarrow> byte list option" where
  "logMsg tag format text =
     (case format of
        None \<Rightarrow> Some []
      | Some f \<Rightarrow>
          if tagCode tag \<le> LOG_LEVEL then expandFormat (logLine tag text) [Str (getStringFromTag tag), Str f]
          else Some [])"

lemma expandFormat_plain: "0x25 \<notin> set bs \<Longrightarrow> expandFormat bs args = Some bs"
  by (induction bs args rule: expandFormat.induct) auto

text \<open>A text without a percent sign is printed as it is, cut to the size of the buffer.\<close>

lemma logMsg_plain:
  assumes "0x25 \<notin> set text"
  shows "logMsg tag (Some f) text = Some (logLine tag text)"
proof -
  have "0x25 \<notin> set (logLine tag text)"
    using assms by (cases tag) (auto simp: logLine_def dest!: in_set_takeD)
  then show ?thesis by (cases tag) (simp_all add: logMsg_def LOG_LEVEL_def expandFormat_plain)
qed

text \<open>The whole call, with the first expansion.\<close>

definition logText :: "Tag \<Rightarrow> byte list \<Rightarrow> printArg list \<Rightarrow> byte list option" where
  "logText tag format args =
     (case expandFormat format args of
        None \<Rightarrow> None
      | Some text \<Rightarrow> logMsg tag (Some format) text)"

text \<open>A percent sign in what a client sent, a file name for instance, is a directive: two
  are printed as one, \<open>%s\<close> as the tag, and \<open>%d\<close> reads a pointer as an integer.\<close>

lemma logMsg_percent:
  "logMsg I (Some f) [0x25, 0x25] = Some [0x5b, 0x49, 0x5d, 0x20, 0x25]"
  "logMsg I (Some f) [0x25, 0x73] = Some [0x5b, 0x49, 0x5d, 0x20, 0x49]"
  "logMsg I (Some f) [0x25, 0x64] = None"
  by (simp_all add: logMsg_def LOG_LEVEL_def logLine_def MSG_MAX_LEN_def)

text \<open>The formats of the program that quote a name or a payload: a literal ended by a newline.\<close>

definition ascii :: "string \<Rightarrow> byte list" where
  "ascii s = map of_char s"

lemma length_ascii [simp]: "length (ascii s) = length s"
  by (simp add: ascii_def)

definition format_line :: "string \<Rightarrow> byte list" where
  "format_line s = ascii s @ [10]"

text \<open>A format whose directives fit the arguments, and with no percent sign of its own.\<close>

fun fits_args :: "byte list \<Rightarrow> printArg list \<Rightarrow> bool" where
  "fits_args [] args = True"
| "fits_args (b # bs) args =
     (if b \<noteq> 0x25 then fits_args bs args
      else case (bs, args) of
        (c # cs, Str a # as) \<Rightarrow> c = 0x73 \<and> fits_args cs as
      | (c # cs, Num n # as) \<Rightarrow> c = 0x64 \<and> fits_args cs as
      | _ \<Rightarrow> False)"

definition unformatted :: "printArg \<Rightarrow> bool" where
  "unformatted a = (case a of Str s \<Rightarrow> 0x25 \<notin> set s | Num n \<Rightarrow> True)"

lemma unformatted_simps [simp]: "unformatted (Str s) = (0x25 \<notin> set s)" "unformatted (Num n)"
  by (simp_all add: unformatted_def)

lemma digits_plain: "0x25 \<notin> set (digits n)"
proof (induction n rule: digits.induct)
  case (1 n)
  have "(of_nat (0x30 + n mod 10) :: byte) \<noteq> 0x25"
  proof
    assume "(of_nat (0x30 + n mod 10) :: byte) = 0x25"
    from arg_cong [OF this, of unat] have "(0x30 + n mod 10) mod 256 = 0x25" by (simp only: unat_of_nat) simp
    moreover have "n mod 10 < 10" by simp
    ultimately show False by simp
  qed
  with 1 show ?case by (auto simp: digits.simps [of n])
qed

lemma decimal_plain [simp]: "0x25 \<notin> set (decimal n)"
  using digits_plain by (simp add: decimal_def)

lemma expandFormat_fits:
  assumes "fits_args bs args" "\<forall>a\<in>set args. unformatted a"
  shows "\<exists>text. expandFormat bs args = Some text \<and> 0x25 \<notin> set text"
  using assms
proof (induction bs args rule: fits_args.induct)
  case (2 b bs args)
  show ?case
  proof (cases "b = 0x25")
    case False
    with 2 show ?thesis by auto
  next
    case True
    then obtain c cs a as where f: "bs = c # cs" "args = a # as" "fits_args cs as"
      "case a of Str s \<Rightarrow> c = 0x73 | Num n \<Rightarrow> c = 0x64"
      using 2(4) by (cases bs; cases args) (auto split: printArg.splits)
    have "\<exists>text. expandFormat cs as = Some text \<and> 0x25 \<notin> set text"
      using True f 2(5) by (cases a) (auto intro: 2(2,3))
    with True f 2(5) show ?thesis by (cases a) auto
  qed
qed simp

text \<open>A line that quotes nothing with a percent sign is printed.\<close>

lemma logText_plain:
  assumes "fits_args format args" "\<forall>a\<in>set args. unformatted a"
  shows "\<exists>text. expandFormat format args = Some text \<and> logText tag format args = Some (logLine tag text)"
  using expandFormat_fits [OF assms] logMsg_plain by (auto simp: logText_def)

end
