(* ===== verification/Commands.thy ===== *)
theory Commands
  imports HashTable DmProtocol Logger "HOL-Library.Sublist"
begin

text \<open>
  The command line of the client (client/controller.c): the table of the command names, built on
  the first use, and \<open>parseCommandName\<close>. The keys are compared by \<open>memcmp\<close> on the length of the
  name that is looked up, so a name matches any key it is a prefix of, if it hashes to the same
  bucket; evaluated on the registered names, no proper prefix does.
\<close>

text \<open>The names ''put'', ''get'', ''list''.\<close>

definition putName :: "byte list" where
  "putName = [0x70, 0x75, 0x74]"

definition getName :: "byte list" where
  "getName = [0x67, 0x65, 0x74]"

definition listName :: "byte list" where
  "listName = [0x6c, 0x69, 0x73, 0x74]"

record commandNames =
  nameHeap :: "dmProtocol_command heap"
  supportedCommandNames :: "table option"

definition registerCommand ::
  "byte list \<Rightarrow> dmProtocol_command \<Rightarrow> table \<times> dmProtocol_command heap
    \<Rightarrow> (table \<times> dmProtocol_command heap) option"
where
  "registerCommand name cmd th =
     (let (key, h1) = alloc (snd th) (KeyObj (name @ [0]));
          (command, h2) = alloc h1 (ValObj cmd)
      in addToHashTable h2 (fst th) key (length name) command)"

text \<open>The buffer of the name comes from the command line; here it is put on the same heap.\<close>

definition getCommandByName ::
  "byte list \<Rightarrow> commandNames \<Rightarrow> (dmProtocol_command option \<times> commandNames) option"
where
  "getCommandByName name cs = do {
     (t, h) \<leftarrow> (case supportedCommandNames cs of
        Some t \<Rightarrow> Some (t, nameHeap cs)
      | None \<Rightarrow> do {
          th1 \<leftarrow> registerCommand putName PUT (newHashTable, nameHeap cs);
          th2 \<leftarrow> registerCommand getName GET th1;
          registerCommand listName LIST th2 });
     let (nameBuf, h') = alloc h (KeyObj (name @ [0]));
     v \<leftarrow> getValueFromHashTable h' t nameBuf (length name);
     r \<leftarrow> (if v = NULL then Some None else do { c \<leftarrow> load_val h' v; Some (Some c) });
     Some (r, \<lparr>nameHeap = h', supportedCommandNames = Some t\<rparr>) }"

definition parseCommandName ::
  "byte list list \<Rightarrow> commandNames \<Rightarrow> (int \<times> dmProtocol_command option \<times> commandNames) option"
where
  "parseCommandName argv cs =
     (if length argv < 2 then Some (- 1, None, cs)
      else do {
        (toInvokeBuf, cs') \<leftarrow> getCommandByName (argv ! 1) cs;
        Some (if toInvokeBuf = None then - 1 else 0, toInvokeBuf, cs') })"

text \<open>The same with what is printed of a name that is not recognised.\<close>

definition parseCommandNamePrinting ::
  "byte list list \<Rightarrow> commandNames \<Rightarrow> (int \<times> dmProtocol_command option \<times> commandNames) option"
where
  "parseCommandNamePrinting argv cs = do {
     (r, toInvoke, cs') \<leftarrow> parseCommandName argv cs;
     _ \<leftarrow> (if 2 \<le> length argv \<and> toInvoke = None
       then logText E (format_line ''parseCommandName: unrecognized operation: %s'') [Str (argv ! 1)]
       else Some []);
     Some (r, toInvoke, cs') }"

subsection \<open>The table\<close>

definition noNames :: commandNames where
  "noNames = \<lparr>nameHeap = empty_heap, supportedCommandNames = None\<rparr>"

definition namesTable :: table where
  "namesTable = newHashTable[18 := 4, 87 := 8, 13 := 12]"

text \<open>What the program's heap holds once the table is built.\<close>

definition namesBuilt :: "dmProtocol_command heap \<Rightarrow> bool" where
  "namesBuilt h \<longleftrightarrow> 12 < brk h \<and> mem h 0 = None
     \<and> mem h 1 = Some (KeyObj (putName @ [0])) \<and> mem h 2 = Some (ValObj PUT)
     \<and> mem h 3 = Some (PairObj 1 2) \<and> mem h 4 = Some (NodeObj 3 0)
     \<and> mem h 5 = Some (KeyObj (getName @ [0])) \<and> mem h 6 = Some (ValObj GET)
     \<and> mem h 7 = Some (PairObj 5 6) \<and> mem h 8 = Some (NodeObj 7 0)
     \<and> mem h 9 = Some (KeyObj (listName @ [0])) \<and> mem h 10 = Some (ValObj LIST)
     \<and> mem h 11 = Some (PairObj 9 10) \<and> mem h 12 = Some (NodeObj 11 0)"

lemma hash_names:
  "hash_bytes putName = 18" "hash_bytes getName = 87" "hash_bytes listName = 13"
  by (simp_all add: hash_bytes_def PRIME_def HASHSIZE_def putName_def getName_def listName_def)

lemma newHashTable_nth [simp]: "i < 101 \<Longrightarrow> newHashTable ! i = 0" "length newHashTable = 101"
  by (simp_all add: newHashTable_def HASHSIZE_def)

text \<open>The four objects of a registered name.\<close>

definition withName :: "byte list \<Rightarrow> dmProtocol_command \<Rightarrow> dmProtocol_command heap \<Rightarrow> dmProtocol_command heap" where
  "withName name c h = h\<lparr>mem := (mem h)(brk h \<mapsto> KeyObj (name @ [0]), brk h + 1 \<mapsto> ValObj c,
      brk h + 2 \<mapsto> PairObj (brk h) (brk h + 1), brk h + 3 \<mapsto> NodeObj (brk h + 2) 0),
    brk := brk h + 4\<rparr>"

lemma registerCommand_fresh:
  assumes "t ! hash_bytes name = NULL" "0 < brk h"
  shows "registerCommand name c (t, h) = Some (t[hash_bytes name := brk h + 3], withName name c h)"
  using assms by (simp add: registerCommand_def addToHashTable_def hash_def alloc_def
      load_key_live peek_def newPair_def newNode_def getCollisionList_def withName_def numeral_eq_Suc)

lemma names_built:
  "\<exists>h. (do { th1 \<leftarrow> registerCommand putName PUT (newHashTable, empty_heap);
       th2 \<leftarrow> registerCommand getName GET th1; registerCommand listName LIST th2 }) = Some (namesTable, h)
     \<and> namesBuilt h"
proof -
  let ?h1 = "withName putName PUT empty_heap"
  let ?h2 = "withName getName GET ?h1"
  let ?h3 = "withName listName LIST ?h2"
  have b: "brk (empty_heap :: dmProtocol_command heap) = 1" "brk ?h1 = 5" "brk ?h2 = 9" "brk ?h3 = 13"
    by (simp_all add: empty_heap_def withName_def)
  have "registerCommand putName PUT (newHashTable, empty_heap) = Some (newHashTable[18 := 4], ?h1)"
    using registerCommand_fresh [of newHashTable putName empty_heap PUT] by (simp add: hash_names b)
  moreover have "registerCommand getName GET (newHashTable[18 := 4], ?h1)
      = Some (newHashTable[18 := 4, 87 := 8], ?h2)"
    using registerCommand_fresh [of "newHashTable[18 := 4]" getName ?h1 GET] by (simp add: hash_names b)
  moreover have "registerCommand listName LIST (newHashTable[18 := 4, 87 := 8], ?h2) = Some (namesTable, ?h3)"
    using registerCommand_fresh [of "newHashTable[18 := 4, 87 := 8]" listName ?h2 LIST]
    by (simp add: hash_names b namesTable_def)
  moreover have "namesBuilt ?h3"
    by (simp add: namesBuilt_def withName_def empty_heap_def)
  ultimately show ?thesis by (intro exI [of _ ?h3]) simp
qed

subsection \<open>Looking a name up\<close>

lemma memcmp_eq_key:
  "0 \<notin> set name \<Longrightarrow> memcmp_eq (key @ [0]) (name @ zs) (length name) = Some (prefix name key)"
proof (induction name arbitrary: key)
  case (Cons b name)
  then show ?case by (cases key) auto
qed simp

text \<open>No proper prefix of a registered name is in its bucket.\<close>

lemma bucket_prefix:
  "prefix name putName \<Longrightarrow> hash_bytes name = 18 \<Longrightarrow> name = putName"
  "prefix name getName \<Longrightarrow> hash_bytes name = 87 \<Longrightarrow> name = getName"
  "prefix name listName \<Longrightarrow> hash_bytes name = 13 \<Longrightarrow> name = listName"
  by (auto simp: putName_def getName_def listName_def prefix_Cons hash_bytes_def PRIME_def HASHSIZE_def)

definition commandNamed :: "byte list \<Rightarrow> dmProtocol_command option" where
  "commandNamed name = (if name = putName then Some PUT else if name = getName then Some GET
     else if name = listName then Some LIST else None)"

lemma names_distinct [simp]: "putName \<noteq> getName" "putName \<noteq> listName" "getName \<noteq> listName"
  by (simp_all add: putName_def getName_def listName_def)

definition names_inv :: "commandNames \<Rightarrow> bool" where
  "names_inv cs \<longleftrightarrow> cs = noNames \<or> supportedCommandNames cs = Some namesTable \<and> namesBuilt (nameHeap cs)"

lemma lookup_built:
  assumes h: "namesBuilt h" and a: "mem h a = Some (KeyObj (name @ [0]))" "a \<noteq> NULL" and nul: "0 \<notin> set name"
  shows "\<exists>v. getValueFromHashTable h namesTable a (length name) = Some v
    \<and> (if v = NULL then Some None else map_option Some (load_val h v)) = Some (commandNamed name)"
proof -
  let ?hv = "hash_bytes name"
  have hv: "hash h a (length name) = Some ?hv" using a by (simp add: hash_def load_key_live peek_def)
  note H = h [unfolded namesBuilt_def]
  note nt = namesTable_def HASHSIZE_def
  have hit: "findPair h nd a (length name) 0 = Some (if prefix name key then Some (0, p) else None)"
    if "nd \<noteq> 0" "mem h nd = Some (NodeObj p 0)" "mem h p = Some (PairObj k v)" "mem h k = Some (KeyObj (key @ [0]))"
    for nd p k v key
    using that a memcmp_eq_key [OF nul, of key "[0]"]
    by (simp add: findPair.simps [of h nd] findPair.simps [of h 0] heap_simps del: bind_Some_iff)
  have less: "?hv < 101" using hash_bytes_less [of name] by (simp add: HASHSIZE_def)
  consider "?hv = 18" | "?hv = 87" | "?hv = 13" | "?hv \<notin> {18, 87, 13}" by blast
  then show ?thesis
  proof cases
    case 1
    then have "prefix name putName \<longleftrightarrow> name = putName" "name \<noteq> getName" "name \<noteq> listName"
      using bucket_prefix(1) hash_names by auto
    with 1 hit [of 4 3 1 2 putName] H a(2) hv show ?thesis
      by (simp add: getValueFromHashTable_def getCollisionList_def namesTable_def commandNamed_def heap_simps)
  next
    case 2
    then have "prefix name getName \<longleftrightarrow> name = getName" "name \<noteq> putName" "name \<noteq> listName"
      using bucket_prefix(2) hash_names by auto
    with 2 hit [of 8 7 5 6 getName] H a(2) hv show ?thesis
      by (simp add: getValueFromHashTable_def getCollisionList_def namesTable_def commandNamed_def heap_simps)
  next
    case 3
    then have "prefix name listName \<longleftrightarrow> name = listName" "name \<noteq> putName" "name \<noteq> getName"
      using bucket_prefix(3) hash_names by auto
    with 3 hit [of 12 11 9 10 listName] H a(2) hv show ?thesis
      by (simp add: getValueFromHashTable_def getCollisionList_def namesTable_def commandNamed_def heap_simps)
  next
    case 4
    then have "namesTable ! ?hv = 0" using less by (simp add: namesTable_def)
    moreover have "name \<noteq> putName" "name \<noteq> getName" "name \<noteq> listName" using 4 hash_names by auto
    ultimately show ?thesis using a(2) hv
      by (simp add: getValueFromHashTable_def getCollisionList_def commandNamed_def findPair.simps [of h 0])
  qed
qed

text \<open>The lookup finds exactly the registered names, in the first use and in every later one.\<close>

lemma getCommandByName_spec:
  assumes i: "names_inv cs" and nul: "0 \<notin> set name"
  shows "\<exists>cs'. getCommandByName name cs = Some (commandNamed name, cs') \<and> names_inv cs'"
proof -
  let ?build = "case supportedCommandNames cs of Some t \<Rightarrow> Some (t, nameHeap cs)
      | None \<Rightarrow> do { th1 \<leftarrow> registerCommand putName PUT (newHashTable, nameHeap cs);
          th2 \<leftarrow> registerCommand getName GET th1; registerCommand listName LIST th2 }"
  obtain h where b: "?build = Some (namesTable, h)" "namesBuilt h"
    using i names_built by (auto simp: names_inv_def noNames_def)
  define h' where "h' = snd (alloc h (KeyObj (name @ [0])))"
  have a: "alloc h (KeyObj (name @ [0])) = (brk h, h')" by (simp add: h'_def alloc_def)
  have h': "namesBuilt h'" "mem h' (brk h) = Some (KeyObj (name @ [0]))" "brk h \<noteq> NULL"
    using b(2) by (auto simp: namesBuilt_def h'_def alloc_def)
  from lookup_built [OF h' nul] obtain v where v: "getValueFromHashTable h' namesTable (brk h) (length name) = Some v"
    "(if v = NULL then Some None else map_option Some (load_val h' v)) = Some (commandNamed name)" by blast
  have r: "(if v = NULL then Some None else do { c \<leftarrow> load_val h' v; Some (Some c) }) = Some (commandNamed name)"
    using v(2) by (cases "v = NULL"; cases "load_val h' v") simp_all
  have "getCommandByName name cs =
      Some (commandNamed name, \<lparr>nameHeap = h', supportedCommandNames = Some namesTable\<rparr>)"
    using v(1) r unfolding getCommandByName_def b(1) by (simp add: a del: bind_Some_iff)
  moreover have "names_inv \<lparr>nameHeap = h', supportedCommandNames = Some namesTable\<rparr>"
    using h'(1) by (simp add: names_inv_def)
  ultimately show ?thesis by blast
qed

lemma parseCommandName_spec:
  assumes "names_inv cs" "\<forall>a\<in>set argv. 0 \<notin> set a"
  shows "\<exists>cs'. parseCommandName argv cs = Some (
      (case argv of _ # name # _ \<Rightarrow> (if commandNamed name = None then - 1 else 0, commandNamed name, cs')
       | _ \<Rightarrow> (- 1, None, cs))) \<and> names_inv cs'"
proof -
  consider "length argv < 2" | p name as where "argv = p # name # as"
    by (cases argv; cases "tl argv") auto
  then show ?thesis
  proof cases
    case 1
    then show ?thesis using assms(1) by (auto simp: parseCommandName_def split: list.splits)
  next
    case 2
    with getCommandByName_spec [OF assms(1), of name] assms(2) show ?thesis
      by (auto simp: parseCommandName_def)
  qed
qed

end
