(* ===== verification/Client.thy ===== *)
theory Client
  imports Commands
begin

text \<open>
  The client (client/controller.c, client/main.c): its socket, the handshake, and the commands
  list, get and put. A file name is a C string, given without its NUL.
\<close>

subsection \<open>Sockets and files\<close>

datatype bindAnswer = Bound | AddrInUse | AddrNotAvail | BindError

text \<open>\<open>newSocket\<close>, \<open>bindAnswer\<close> and \<open>openError\<close> are what \<open>socket\<close>, \<open>bind\<close> and, after a failed \<open>open\<close>,
  \<open>strerror\<close> answer; \<open>statusAddress\<close> is what printing an address as a number shows.\<close>

record client = world +
  globalSd :: int
  boundPort :: "port option"
  newSocket :: int
  bindAnswer :: "nat \<Rightarrow> port \<Rightarrow> bindAnswer"
  statusAddress :: int
  openError :: "byte list"

definition MIN_PORT :: port where
  "MIN_PORT = 1024"

text \<open>The loop on the ports: its bound is the largest \<open>in_port_t\<close>, so it never ends the loop,
  and the port after the last is 0. \<open>ans n p\<close> is the answer of \<open>bind\<close> to the \<open>n\<close>-th attempt, on port \<open>p\<close>.\<close>

partial_function (option) bindLoop :: "(nat \<Rightarrow> port \<Rightarrow> bindAnswer) \<Rightarrow> nat \<Rightarrow> port \<Rightarrow> port option option" where
  "bindLoop ans n clientPort =
     (case ans n clientPort of
        Bound \<Rightarrow> Some (Some clientPort)
      | BindError \<Rightarrow> Some None
      | AddrInUse \<Rightarrow> bindLoop ans (n + 1) (clientPort + 1)
      | AddrNotAvail \<Rightarrow> bindLoop ans (n + 1) (clientPort + 1))"

definition getGlobalSocket :: "client \<Rightarrow> (int, client) outcome" where
  "getGlobalSocket w =
     (if globalSd w < 0 then
        let w1 = w\<lparr>globalSd := newSocket w\<rparr> in
        if globalSd w1 < 0 then Returns (- 1) w1
        else case bindLoop (bindAnswer w1) 0 MIN_PORT of
          None \<Rightarrow> Waits w1
        | Some None \<Rightarrow> Returns (- 1) w1
        | Some (Some p) \<Rightarrow> Returns (globalSd w1) (w1\<lparr>boundPort := Some p\<rparr>)
      else Returns (globalSd w) w)"

definition getServerAddress :: sockaddr_in where
  "getServerAddress = \<lparr>sin_addr = DEFAULT_SERVER_ADDR, sin_port = DEFAULT_SERVER_PORT\<rparr>"

text \<open>\<open>open\<close> to write, with \<open>O_CREAT | O_TRUNC\<close>, and to read.\<close>

definition openWrite :: "byte list \<Rightarrow> 'z world_scheme \<Rightarrow> byte list option \<times> 'z world_scheme" where
  "openWrite name w = (if access w name then (Some name, w\<lparr>files := (files w)(name \<mapsto> [])\<rparr>) else (None, w))"

definition openRead :: "byte list \<Rightarrow> 'z world_scheme \<Rightarrow> byte list option" where
  "openRead name w = (if access w name \<and> files w name \<noteq> None then Some name else None)"

text \<open>Printing a payload with \<open>%s\<close>: the C library shows the null pointer as (null).\<close>

definition nullText :: "byte list" where
  "nullText = [0x28, 0x6e, 0x75, 0x6c, 0x6c, 0x29]"

definition payloadText :: "byte list option \<Rightarrow> byte list option" where
  "payloadText pl = (case pl of None \<Rightarrow> Some nullText | Some b \<Rightarrow> cString b)"

text \<open>A line that quotes something from outside goes through the logger, which expands it once more;
  \<open>shown\<close> are the lines printed.\<close>

definition prints ::
  "Tag \<Rightarrow> byte list \<Rightarrow> printArg list \<Rightarrow> 'z world_scheme \<Rightarrow> (unit, 'z world_scheme) outcome"
where
  "prints tag format args w =
     (case logText tag format args of
        None \<Rightarrow> Fails
      | Some text \<Rightarrow> Returns () (w\<lparr>shown := shown w @ [text]\<rparr>))"

definition showPayload ::
  "Tag \<Rightarrow> byte list \<Rightarrow> printArg list \<Rightarrow> message \<Rightarrow> 'z world_scheme \<Rightarrow> (unit, 'z world_scheme) outcome"
where
  "showPayload tag format args msg w =
     (case payloadText (payload msg) of
        None \<Rightarrow> Fails
      | Some s \<Rightarrow> prints tag format (args @ [Str s]) w)"

text \<open>The status of a reply that is no success is printed as a number.\<close>

definition statusArg :: "message \<Rightarrow> printArg" where
  "statusArg msg = Num (op_status (message_header msg))"

subsection \<open>Requests and replies\<close>

definition hsRequest :: message where
  "hsRequest = newMessage\<lparr>message_header := (message_header newMessage)\<lparr>command := commandCode HS\<rparr>\<rparr>"

text \<open>A request that carries a C string, its NUL included.\<close>

definition request :: "dmProtocol_command \<Rightarrow> byte list \<Rightarrow> message" where
  "request c s = newMessage\<lparr>message_header := (message_header newMessage)\<lparr>command := commandCode c,
     payload_lentgh := int (length s) + 1\<rparr>, payload := Some (s @ [0])\<rparr>"

definition notReply :: "dmProtocol_command \<Rightarrow> int \<Rightarrow> message \<Rightarrow> bool" where
  "notReply c r msg \<longleftrightarrow> r \<noteq> 0 \<or> command (message_header msg) \<noteq> commandCode c"

definition statusOk :: "message \<Rightarrow> bool" where
  "statusOk msg \<longleftrightarrow> op_status (message_header msg) = statusCode OP_STATUS_OK"

text \<open>The handshake gives the return code and the address of the handler. Of a refusal it prints the
  address of the status as a number: \<open>statusAddress\<close>.\<close>

definition doHandShake ::
  "int \<Rightarrow> sockaddr_in \<Rightarrow> nat \<Rightarrow> client \<Rightarrow> (int \<times> sockaddr_in option, client) outcome"
where
  "doHandShake sdn serverAddr alen w =
     andThen (sendMessageDMProtocol sdn serverAddr alen hsRequest w) (\<lambda>_ w1.
     andThen (receiveWhile sdn (\<lambda>r m. r = 0 \<and> command (message_header m) \<noteq> commandCode HS) w1) (\<lambda>x w2.
       let hsResponse = snd (snd x) in
       if fst x \<noteq> 0 then Returns (- 1, None) w2
       else if \<not> statusOk hsResponse then
         andThen (showPayload E (format_line ''doHandShake: server responded with error %d: %s'')
             [Num (statusAddress w2)] hsResponse w2) (\<lambda>_ w3. Returns (- 1, None) w3)
       else case do { p \<leftarrow> payload hsResponse; peek p 0 2 } of
         None \<Rightarrow> Fails
       | Some b \<Rightarrow> Returns (0, Some (getServerAddress\<lparr>sin_port := bytes_port b\<rparr>)) w2))"

definition FILENAME_DEL :: "byte list" where
  "FILENAME_DEL = [10]"

definition doList :: "client \<Rightarrow> (int, client) outcome" where
  "doList w =
     andThen (getGlobalSocket w) (\<lambda>sdn w0.
     andThen (doHandShake sdn getServerAddress addrSize w0) (\<lambda>h w1.
       case snd h of
         None \<Rightarrow> Returns (- 1) w1
       | Some assignedServerAddress \<Rightarrow>
           andThen (sendMessageDMProtocol sdn assignedServerAddress addrSize (request LIST FILENAME_DEL) w1) (\<lambda>r w2.
           if r \<noteq> 0 then Returns (- 1) w2
           else andThen (receiveWhile sdn (notReply LIST) w2) (\<lambda>x w3.
             let response = snd (snd x) in
             if \<not> statusOk response then
               andThen (showPayload E (format_line ''doList: server reponded with error %d: %s'')
                 [statusArg response] response w3) (\<lambda>_ w4. Returns (- 1) w4)
             else andThen (showPayload I (ascii ''files currently available in server:'' @ [10] @ format_line ''%s'')
                 [] response w3) (\<lambda>_ w4. Returns 0 w4)))))"

text \<open>The descriptor is not checked after \<open>open\<close>.\<close>

definition doGet :: "byte list option \<Rightarrow> client \<Rightarrow> (int, client) outcome" where
  "doGet fileName w =
     (case fileName of
        None \<Rightarrow> Returns (- 1) w
      | Some name \<Rightarrow>
          andThen (getGlobalSocket w) (\<lambda>sdn w0.
          andThen (doHandShake sdn getServerAddress addrSize w0) (\<lambda>h w1.
            case snd h of
              None \<Rightarrow> Returns (- 1) w1
            | Some assignedServerAddress \<Rightarrow>
                andThen (getGlobalSocket w1) (\<lambda>sdn1 w2.
                andThen (sendMessageDMProtocol sdn1 assignedServerAddress addrSize (request GET name) w2) (\<lambda>r w3.
                if r \<noteq> 0 then Returns (- 1) w3
                else andThen (receiveWhile sdn1 (notReply GET) w3) (\<lambda>x w4.
                if \<not> statusOk (snd (snd x)) then
                  andThen (showPayload E (format_line ''doGet: server reponded with error %d: %s'')
                    [statusArg (snd (snd x))] (snd (snd x)) w4) (\<lambda>_ w5. Returns (- 1) w5)
                else let (fd, w5) = openWrite name w4 in
                andThen (receiveFileDMProtocol sdn1 fd w5) (\<lambda>r2 w6.
                if r2 \<noteq> 0 then Returns (- 1) w6
                else andThen (receiveWhile sdn1 (notReply GET) w6) (\<lambda>y w7.
                if \<not> statusOk (snd (snd y)) then
                  andThen (showPayload E (format_line ''doGet: server reponded with error %d: %s'')
                    [statusArg (snd (snd y))] (snd (snd y)) w7) (\<lambda>_ w8. Returns (- 1) w8)
                else andThen (prints I (format_line ''File %s successfully received'') [Str name] w7)
                  (\<lambda>_ w8. Returns 0 w8)))))))))"

text \<open>The file is opened after the handshake.\<close>

definition doPut :: "byte list option \<Rightarrow> client \<Rightarrow> (int, client) outcome" where
  "doPut fileName w =
     (case fileName of
        None \<Rightarrow> Returns (- 1) w
      | Some name \<Rightarrow>
          andThen (getGlobalSocket w) (\<lambda>sdn w0.
          andThen (doHandShake sdn getServerAddress addrSize w0) (\<lambda>h w1.
            case snd h of
              None \<Rightarrow> Returns (- 1) w1
            | Some handlerAddr \<Rightarrow>
              (case openRead name w1 of
                None \<Rightarrow>
                  andThen (prints E (format_line ''doPut: failed to open file %s: %s'')
                    [Str name, Str (openError w1)] w1) (\<lambda>_ w2. Returns (- 1) w2)
              | Some fd \<Rightarrow>
                andThen (getGlobalSocket w1) (\<lambda>sdn1 w2.
                andThen (sendMessageDMProtocol sdn1 handlerAddr addrSize (request PUT name) w2) (\<lambda>r w3.
                if r \<noteq> 0 then Returns (- 1) w3
                else andThen (receiveWhile sdn1 (notReply PUT) w3) (\<lambda>x w4.
                if \<not> statusOk (snd (snd x)) then
                  andThen (showPayload E (format_line ''doPut: server reponded with error %d: %s'')
                    [statusArg (snd (snd x))] (snd (snd x)) w4) (\<lambda>_ w5. Returns (- 1) w5)
                else andThen (sendFileDMProtocol sdn1 handlerAddr addrSize (Some fd) w4) (\<lambda>r2 w5.
                  Returns (if r2 < 0 then - 1 else 0) w5))))))))"

definition doCommand :: "dmProtocol_command \<Rightarrow> byte list option \<Rightarrow> client \<Rightarrow> (int, client) outcome" where
  "doCommand toInvoke arg w =
     (case toInvoke of
        PUT \<Rightarrow> doPut arg w
      | GET \<Rightarrow> doGet arg w
      | LIST \<Rightarrow> doList w
      | _ \<Rightarrow> Returns (- 1) w)"

text \<open>\<open>main\<close>: the exit code.\<close>

definition clientMain :: "byte list list \<Rightarrow> client \<Rightarrow> (int, client) outcome" where
  "clientMain argv w =
     (case parseCommandNamePrinting argv noNames of
        None \<Rightarrow> Fails
      | Some (r, toInvoke, _) \<Rightarrow>
          (case toInvoke of
             Some c \<Rightarrow> if r < 0 then Returns 1 w
               else andThen (doCommand c (if 2 < length argv then Some (argv ! 2) else None) w) (\<lambda>r w'.
                 Returns (if r < 0 then 1 else 0) w')
           | None \<Rightarrow> Returns 1 w))"

text \<open>Without percent signs in its arguments a line is printed; the formats fit their arguments.\<close>

lemma prints_plain:
  assumes "fits_args format args" "\<forall>a\<in>set args. unformatted a"
  shows "\<exists>text. expandFormat format args = Some text
    \<and> prints tag format args w = Returns () (w\<lparr>shown := shown w @ [logLine tag text]\<rparr>)"
  using logText_plain [OF assms, of tag] by (auto simp: prints_def)

lemma client_formats [simp]:
  "fits_args (format_line ''parseCommandName: unrecognized operation: %s'') [Str a]"
  "fits_args (format_line ''doHandShake: server responded with error %d: %s'') [Num n, Str a]"
  "fits_args (format_line ''doList: server reponded with error %d: %s'') [Num n, Str a]"
  "fits_args (ascii ''files currently available in server:'' @ [10] @ format_line ''%s'') [Str a]"
  "fits_args (format_line ''doGet: server reponded with error %d: %s'') [Num n, Str a]"
  "fits_args (format_line ''File %s successfully received'') [Str a]"
  "fits_args (format_line ''doPut: failed to open file %s: %s'') [Str a, Str b]"
  "fits_args (format_line ''doPut: server reponded with error %d: %s'') [Num n, Str a]"
  by (simp_all add: format_line_def ascii_def)

subsection \<open>The socket\<close>

abbreviation taken :: "bindAnswer \<Rightarrow> bool" where
  "taken a \<equiv> a \<in> {AddrInUse, AddrNotAvail}"

text \<open>The loop gives what \<open>bind\<close> answers first that is not a port taken.\<close>

lemma bindLoop_first:
  assumes "\<not> taken (ans (n + k) (p + word_of_nat k))" "\<forall>i<k. taken (ans (n + i) (p + word_of_nat i))"
  shows "bindLoop ans n p
    = Some (if ans (n + k) (p + word_of_nat k) = Bound then Some (p + word_of_nat k) else None)"
  using assms
proof (induction k arbitrary: n p)
  case 0
  then show ?case by (cases "ans n p") (simp_all add: bindLoop.simps)
next
  case (Suc k)
  have "taken (ans (n + 1 + i) (p + 1 + word_of_nat i))" if "i < k" for i
    using Suc.prems(2) that by (auto simp: add.assoc dest: spec [of _ "Suc i"])
  moreover have "\<not> taken (ans (n + 1 + k) (p + 1 + word_of_nat k))"
    using Suc.prems(1) by (simp add: add.assoc)
  ultimately have "bindLoop ans (n + 1) (p + 1) = Some (if ans (n + 1 + k) (p + 1 + word_of_nat k) = Bound
      then Some (p + 1 + word_of_nat k) else None)" using Suc.IH by blast
  moreover have "taken (ans n p)" using Suc.prems(2) by (auto dest: spec [of _ 0])
  ultimately show ?case by (auto simp: bindLoop.simps [of ans n p] add.assoc)
qed

text \<open>It ends exactly when some attempt is not answered so.\<close>

lemma bindLoop_ended: "bindLoop ans n p = Some y \<Longrightarrow> \<exists>k. \<not> taken (ans (n + k) (p + word_of_nat k))"
proof (erule bindLoop.raw_induct
    [where P = "\<lambda>ans n p y. \<exists>k. \<not> taken (ans (n + k) (p + word_of_nat k))", rotated])
  fix bl :: "(nat \<Rightarrow> port \<Rightarrow> bindAnswer) \<Rightarrow> nat \<Rightarrow> port \<Rightarrow> port option option" and f n p y
  assume IH: "\<And>f n p y. bl f n p = Some y \<Longrightarrow> \<exists>k. \<not> taken (f (n + k) (p + word_of_nat k))"
    and r: "(case f n p of Bound \<Rightarrow> Some (Some p) | AddrInUse \<Rightarrow> bl f (n + 1) (p + 1)
      | AddrNotAvail \<Rightarrow> bl f (n + 1) (p + 1) | BindError \<Rightarrow> Some None) = Some y"
  show "\<exists>k. \<not> taken (f (n + k) (p + word_of_nat k))"
  proof (cases "taken (f n p)")
    case True
    with r have "bl f (n + 1) (p + 1) = Some y" by auto
    from IH [OF this] obtain k where "\<not> taken (f (n + Suc k) (p + word_of_nat (Suc k)))"
      by (auto simp: add.assoc)
    then show ?thesis by blast
  next
    case False
    then show ?thesis by (intro exI [of _ 0]) simp
  qed
qed

lemma bindLoop_terminates:
  "(bindLoop ans n p \<noteq> None) = (\<exists>k. \<not> taken (ans (n + k) (p + word_of_nat k)))"
proof
  show "bindLoop ans n p \<noteq> None \<Longrightarrow> \<exists>k. \<not> taken (ans (n + k) (p + word_of_nat k))"
    using bindLoop_ended [of ans n p] by blast
  assume ex: "\<exists>k. \<not> taken (ans (n + k) (p + word_of_nat k))"
  define k where "k = (LEAST k. \<not> taken (ans (n + k) (p + word_of_nat k)))"
  have "\<not> taken (ans (n + k) (p + word_of_nat k))" unfolding k_def using ex by (rule LeastI_ex)
  moreover have "\<forall>i<k. taken (ans (n + i) (p + word_of_nat i))" unfolding k_def using not_less_Least by blast
  ultimately show "bindLoop ans n p \<noteq> None" by (simp add: bindLoop_first)
qed

text \<open>What the search makes of it.\<close>

lemma getGlobalSocket_first:
  assumes "globalSd w < 0" "0 \<le> newSocket w"
    and "\<not> taken (bindAnswer w k (MIN_PORT + word_of_nat k))"
    and "\<forall>i<k. taken (bindAnswer w i (MIN_PORT + word_of_nat i))"
  shows "getGlobalSocket w = (if bindAnswer w k (MIN_PORT + word_of_nat k) = Bound
    then Returns (newSocket w) (w\<lparr>globalSd := newSocket w, boundPort := Some (MIN_PORT + word_of_nat k)\<rparr>)
    else Returns (- 1) (w\<lparr>globalSd := newSocket w\<rparr>))"
  using bindLoop_first [of "bindAnswer w" 0 k MIN_PORT] assms by (simp add: getGlobalSocket_def Let_def)

text \<open>With all ports from the first on taken, the counter wraps and port 0 is tried.\<close>

lemma port_wraps: "MIN_PORT + word_of_nat 64512 = 0"
  by (simp add: MIN_PORT_def)

lemma getGlobalSocket_keeps:
  "getGlobalSocket w = Returns sdn w0 \<Longrightarrow> world.truncate w0 = world.truncate w \<and> (0 \<le> sdn \<longrightarrow> globalSd w0 = sdn)"
  by (auto simp: getGlobalSocket_def world.truncate_def Let_def split: if_splits option.splits)

lemma truncate_D:
  assumes "world.truncate w0 = world.truncate w"
  shows "handed w0 = handed w" "inbox w0 = inbox w" "files w0 = files w" "access w0 = access w"
    "shown w0 = shown w" "processOk w0 = processOk w"
  using assms by (simp_all add: world.truncate_def processOk_def)

lemma getGlobalSocket_again: "0 \<le> globalSd w \<Longrightarrow> getGlobalSocket w = Returns (globalSd w) w"
  by (simp add: getGlobalSocket_def)

lemma after_socket:
  assumes "after w hs rest fs w'" "0 \<le> globalSd w"
  shows "getGlobalSocket w' = Returns (globalSd w) w'" "globalSd w' = globalSd w"
proof -
  have "world.more w' = world.more w" using assms(1) by (rule after_D)
  then show "globalSd w' = globalSd w" by (cases w; cases w') simp
  then show "getGlobalSocket w' = Returns (globalSd w) w'"
    using assms(2) by (simp add: getGlobalSocket_again)
qed

subsection \<open>The commands\<close>

lemma wf_requests [simp]:
  "wf_message hsRequest" "int (length s) < INT_MAX - 13 \<Longrightarrow> wf_message (request c s)"
  by (simp_all add: hsRequest_def request_def newMessage_def wf_message_def c_int_codes(1) c_simps
      del: commandCode.simps)

lemma content_request [simp]:
  "content (request c s) = s @ [0]" "content hsRequest = []"
  "command (message_header (request c s)) = commandCode c"
  "payload (arrived (request c s)) = Some (s @ [0])"
  "command (message_header hsRequest) = commandCode HS"
  by (simp_all add: request_def content_def arrived_def nat_add_distrib hsRequest_def newMessage_def)

definition handlerAt :: "port \<Rightarrow> sockaddr_in" where
  "handlerAt p = getServerAddress\<lparr>sin_port := p\<rparr>"

text \<open>A reply to a command: its code, status OK.\<close>

definition okReply :: "dmProtocol_command \<Rightarrow> message \<Rightarrow> bool" where
  "okReply c m \<longleftrightarrow> command (message_header m) = commandCode c \<and> statusOk m"

definition otherReplies :: "dmProtocol_command \<Rightarrow> (sockaddr_in \<times> message) list \<Rightarrow> bool" where
  "otherReplies c xs \<longleftrightarrow> (\<forall>x\<in>set xs. command (message_header (snd x)) \<noteq> commandCode c)"

lemma statusOk_arrived [simp]: "statusOk (arrived m) = statusOk m"
  by (simp add: statusOk_def)

lemma receive_reply:
  assumes "processOk w" "carries (inbox w) (xs @ (src, m) # ms) rest" "0 \<le> socket"
    "otherReplies c xs" "okReply c m"
  shows "\<exists>w'. receiveWhile socket (notReply c) w = Returns (0, src, arrived m) w'
    \<and> after w [] (inbox w') (files w) w' \<and> carries (inbox w') ms rest"
  by (rule receive_after [OF assms(1-3)])
    (use assms(4,5) in \<open>auto simp: notReply_def otherReplies_def okReply_def\<close>)

lemma handShake_after:
  assumes ok: "processOk w" and c: "carries (inbox w) (xs @ (src, m) # ms) rest" and s: "0 \<le> sdn"
    and m: "otherReplies HS xs" "okReply HS m" "content m = port_bytes p"
  shows "\<exists>w'. doHandShake sdn getServerAddress addrSize w = Returns (0, Some (handlerAt p)) w'
    \<and> after w [(getServerAddress, message_bytes hsRequest)] (inbox w') (files w) w'
    \<and> carries (inbox w') ms rest"
proof -
  from send_after [OF ok wf_requests(1), of addrSize sdn getServerAddress] obtain w1 where
    w1: "sendMessageDMProtocol sdn getServerAddress addrSize hsRequest w = Returns 0 w1"
    "after w [(getServerAddress, message_bytes hsRequest)] (inbox w) (files w) w1" by auto
  have c1: "carries (inbox w1) (xs @ (src, m) # ms) rest" using c after_D(1) [OF w1(2)] by simp
  from receive_after [OF after_D(3) [OF w1(2)] c1 s, of "\<lambda>r m. r = 0 \<and> command (message_header m) \<noteq> commandCode HS"]
  obtain w2 where w2: "receiveWhile sdn (\<lambda>r m. r = 0 \<and> command (message_header m) \<noteq> commandCode HS) w1
      = Returns (0, src, arrived m) w2"
    "after w1 [] (inbox w2) (files w1) w2" "carries (inbox w2) ms rest"
    using m by (auto simp: otherReplies_def okReply_def)
  have "wf_message m" using c by (auto simp: carries_append)
  from content_length [OF this] m(3) have "payload (arrived m) = Some (port_bytes p)"
    by (auto simp: arrived_def)
  then have "doHandShake sdn getServerAddress addrSize w = Returns (0, Some (handlerAt p)) w2"
    using m(2) by (simp add: doHandShake_def w1(1) w2(1) okReply_def Let_def peek_def handlerAt_def
        bytes_port_bytes del: commandCode.simps)
  moreover have "after w [(getServerAddress, message_bytes hsRequest)] (inbox w2) (files w) w2"
    using after_trans [OF w1(2) w2(2)] after_D(2) [OF w1(2)] by simp
  ultimately show ?thesis using w2(3) by blast
qed

lemma doPut_spec:
  assumes ok: "processOk w" and s: "getGlobalSocket w = Returns sdn w0" "0 \<le> sdn"
    and c: "carries (inbox w) (xs @ (a, hs) # ys @ (b, m) # cas) rest"
    and r: "otherReplies HS xs" "okReply HS hs" "content hs = port_bytes p" "otherReplies PUT ys" "okReply PUT m"
    and f: "access w name" "files w name = Some d" "length cas = length (fileChunks d)"
    and n: "int (length name) < INT_MAX - 13"
  shows "\<exists>w'. doPut (Some name) w = Returns 0 w'
    \<and> after w0 ((getServerAddress, message_bytes hsRequest) # (handlerAt p, message_bytes (request PUT name))
        # map (\<lambda>d. (handlerAt p, chunkBytes d)) (fileChunks d)) rest (files w) w'"
proof -
  have t: "world.truncate w0 = world.truncate w" and g: "globalSd w0 = sdn"
    using getGlobalSocket_keeps [OF s(1)] s(2) by auto
  note T = truncate_D [OF t]
  have g0: "0 \<le> globalSd w0" using g s(2) by simp
  from handShake_after [OF _ _ s(2) r(1-3), of w0] ok c T obtain w1 where
    w1: "doHandShake sdn getServerAddress addrSize w0 = Returns (0, Some (handlerAt p)) w1"
    "after w0 [(getServerAddress, message_bytes hsRequest)] (inbox w1) (files w) w1"
    "carries (inbox w1) (ys @ (b, m) # cas) rest" by metis
  have o: "openRead name w1 = Some name"
    using f(1,2) after_D(2,5) [OF w1(2)] T by (simp add: openRead_def)
  from send_after [OF after_D(3) [OF w1(2)] wf_requests(2) [OF n, of PUT], of addrSize sdn "handlerAt p"] obtain w2 where
    w2: "sendMessageDMProtocol sdn (handlerAt p) addrSize (request PUT name) w1 = Returns 0 w2"
    "after w1 [(handlerAt p, message_bytes (request PUT name))] (inbox w1) (files w1) w2" by auto
  have c2: "carries (inbox w2) (ys @ (b, m) # cas) rest" using w1(3) after_D(1) [OF w2(2)] by simp
  from receive_reply [OF after_D(3) [OF w2(2)] c2 s(2) r(4,5)] obtain w3 where
    w3: "receiveWhile sdn (notReply PUT) w2 = Returns (0, b, arrived m) w3"
    "after w2 [] (inbox w3) (files w2) w3" "carries (inbox w3) cas rest" by blast
  have fs: "files w3 = files w"
    using after_D(2) [OF w1(2)] after_D(2) [OF w2(2)] after_D(2) [OF w3(2)] by simp
  from sendFile_spec [OF after_D(3) [OF w3(2)] s(2) _ _ w3(3) f(3), of addrSize name "handlerAt p"] fs f(2) obtain w4 where
    w4: "sendFileDMProtocol sdn (handlerAt p) addrSize (Some name) w3 = Returns 0 w4"
    "after w3 (map (\<lambda>d. (handlerAt p, chunkBytes d)) (fileChunks d)) rest (files w) w4" by auto
  have "doPut (Some name) w = Returns 0 w4"
    using s(1) w1(1) o w2(1) w3(1) w4(1) r(5) after_socket(1) [OF w1(2) g0] g
    by (simp add: doPut_def okReply_def)
  moreover have "after w0 ((getServerAddress, message_bytes hsRequest) # (handlerAt p, message_bytes (request PUT name))
        # map (\<lambda>d. (handlerAt p, chunkBytes d)) (fileChunks d)) rest (files w) w4"
    using after_trans [OF after_trans [OF after_trans [OF w1(2) w2(2)] w3(2)] w4(2)] by simp
  ultimately show ?thesis by blast
qed

text \<open>\<open>get\<close>: what the chunks carry is stored, if the file can be opened; if it cannot, the command
  succeeds all the same.\<close>

lemma doGet_spec:
  assumes ok: "processOk w" and s: "getGlobalSocket w = Returns sdn w0" "0 \<le> sdn"
    and c: "carries (inbox w) (xs @ (a, hs) # ys @ (b, m) # ms @ zs @ (b', m') # rs) rest"
    and r: "otherReplies HS xs" "okReply HS hs" "content hs = port_bytes p" "otherReplies GET ys" "okReply GET m"
    and f: "transfer (map snd ms)" "otherReplies GET zs" "okReply GET m'"
    and n: "int (length name) < INT_MAX - 13" and pc: "0x25 \<notin> set name"
  shows "\<exists>w'. doGet (Some name) w = Returns 0 w'
    \<and> files w' = (if access w name then (files w)(name \<mapsto> concat (map (content \<circ> snd) ms)) else files w)
    \<and> handed w' = handed w @ (getServerAddress, message_bytes hsRequest)
        # (handlerAt p, message_bytes (request GET name)) # map (\<lambda>x. (fst x, ackBytes)) ms"
proof -
  have t: "world.truncate w0 = world.truncate w" and g: "globalSd w0 = sdn"
    using getGlobalSocket_keeps [OF s(1)] s(2) by auto
  note T = truncate_D [OF t]
  have g0: "0 \<le> globalSd w0" using g s(2) by simp
  from handShake_after [OF _ _ s(2) r(1-3), of w0] ok c T obtain w1 where
    w1: "doHandShake sdn getServerAddress addrSize w0 = Returns (0, Some (handlerAt p)) w1"
    "after w0 [(getServerAddress, message_bytes hsRequest)] (inbox w1) (files w) w1"
    "carries (inbox w1) (ys @ (b, m) # ms @ zs @ (b', m') # rs) rest" by metis
  from send_after [OF after_D(3) [OF w1(2)] wf_requests(2) [OF n, of GET], of addrSize sdn "handlerAt p"] obtain w2 where
    w2: "sendMessageDMProtocol sdn (handlerAt p) addrSize (request GET name) w1 = Returns 0 w2"
    "after w1 [(handlerAt p, message_bytes (request GET name))] (inbox w1) (files w1) w2" by auto
  have c2: "carries (inbox w2) (ys @ (b, m) # ms @ zs @ (b', m') # rs) rest" using w1(3) after_D(1) [OF w2(2)] by simp
  from receive_reply [OF after_D(3) [OF w2(2)] c2 s(2) r(4,5)] obtain w3 where
    w3: "receiveWhile sdn (notReply GET) w2 = Returns (0, b, arrived m) w3"
    "after w2 [] (inbox w3) (files w2) w3" "carries (inbox w3) (ms @ zs @ (b', m') # rs) rest" by blast
  note w13 = after_trans [OF after_trans [OF w1(2) w2(2)] w3(2)]
  have fs: "files w3 = files w" and ac: "access w3 = access w"
    using after_D(2) [OF w1(2)] after_D(2) [OF w2(2)] after_D(2) [OF w3(2)] after_D(5) [OF w13] T by simp_all
  obtain fd w4 where fd: "openWrite name w3 = (fd, w4)" by force
  have w4: "after w3 [] (inbox w3) (if access w name then (files w)(name \<mapsto> []) else files w) w4"
    "fd = (if access w name then Some name else None)"
    using fd fs ac after_D(3) [OF w3(2)] by (auto simp: openWrite_def after_def processOk_def split: if_splits)
  from w3(3) after_D(1) [OF w4(1)] obtain r0 where
    c4: "carries (inbox w4) ms r0" "carries r0 (zs @ (b', m') # rs) rest" by (auto simp: carries_append)
  from receiveFile_spec [OF after_D(3) [OF w4(1)] s(2) c4(1) f(1), of fd] obtain w5 where
    w5: "receiveFileDMProtocol sdn fd w4 = Returns 0 w5"
    "after w4 (map (\<lambda>x. (fst x, ackBytes)) ms) r0 (appended fd (concat (map (content \<circ> snd) ms)) (files w4)) w5"
    by blast
  have c5: "carries (inbox w5) (zs @ (b', m') # rs) rest" using c4(2) after_D(1) [OF w5(2)] by simp
  from receive_reply [OF after_D(3) [OF w5(2)] c5 s(2) f(2,3)] obtain w6 where
    w6: "receiveWhile sdn (notReply GET) w5 = Returns (0, b', arrived m') w6"
    "after w5 [] (inbox w6) (files w5) w6" by blast
  from prints_plain [OF client_formats(6), of name I w6] pc obtain line where
    p: "prints I (format_line ''File %s successfully received'') [Str name] w6
      = Returns () (w6\<lparr>shown := shown w6 @ [logLine I line]\<rparr>)" by auto
  let ?w = "w6\<lparr>shown := shown w6 @ [logLine I line]\<rparr>"
  have "doGet (Some name) w = Returns 0 ?w"
    using s(1) w1(1) w2(1) w3(1) fd w5(1) w6(1) p r(5) f(3) after_socket(1) [OF w1(2) g0] g
    by (simp add: doGet_def okReply_def)
  moreover have "files ?w = (if access w name then (files w)(name \<mapsto> concat (map (content \<circ> snd) ms)) else files w)"
    using after_D(2) [OF w6(2)] after_D(2) [OF w5(2)] after_D(2) [OF w4(1)] w4(2) by (simp add: appended_def)
  moreover have "handed ?w = handed w @ (getServerAddress, message_bytes hsRequest)
        # (handlerAt p, message_bytes (request GET name)) # map (\<lambda>x. (fst x, ackBytes)) ms"
    using after_D(4) [OF after_trans [OF after_trans [OF after_trans [OF w13 w4(1)] w5(2)] w6(2)]] T by simp
  ultimately show ?thesis by blast
qed

text \<open>\<open>put\<close> of a file that is not there: the handshake is over when the client finds out, so a
  handler of the server waits for a request that never comes.\<close>

lemma doPut_no_file:
  assumes ok: "processOk w" and s: "getGlobalSocket w = Returns sdn w0" "0 \<le> sdn"
    and c: "carries (inbox w) (xs @ (a, hs) # ms) rest"
    and r: "otherReplies HS xs" "okReply HS hs" "content hs = port_bytes p"
    and f: "files w name = None" and pc: "0x25 \<notin> set name" "0x25 \<notin> set (openError w0)"
  shows "\<exists>w'. doPut (Some name) w = Returns (- 1) w'
    \<and> handed w' = handed w @ [(getServerAddress, message_bytes hsRequest)]"
proof -
  have t: "world.truncate w0 = world.truncate w" using getGlobalSocket_keeps [OF s(1)] by auto
  note T = truncate_D [OF t]
  from handShake_after [OF _ _ s(2) r(1-3), of w0] ok c T obtain w1 where
    w1: "doHandShake sdn getServerAddress addrSize w0 = Returns (0, Some (handlerAt p)) w1"
    "after w0 [(getServerAddress, message_bytes hsRequest)] (inbox w1) (files w) w1" by metis
  have o: "openRead name w1 = None" using f after_D(2) [OF w1(2)] by (simp add: openRead_def)
  have "world.more w1 = world.more w0" using w1(2) by (rule after_D)
  then have "openError w1 = openError w0" by (cases w0; cases w1) simp
  with prints_plain [OF client_formats(7), of name "openError w1" E w1] pc obtain line where
    "prints E (format_line ''doPut: failed to open file %s: %s'') [Str name, Str (openError w1)] w1
      = Returns () (w1\<lparr>shown := shown w1 @ [logLine E line]\<rparr>)" by auto
  with o have "doPut (Some name) w = Returns (- 1) (w1\<lparr>shown := shown w1 @ [logLine E line]\<rparr>)"
    using s(1) w1(1) by (simp add: doPut_def)
  then show ?thesis using after_D(4) [OF w1(2)] T by auto
qed

text \<open>\<open>list\<close>: the reply is printed as a C string, cut to the size of the logger's buffer.\<close>

lemma doList_spec:
  assumes ok: "processOk w" and s: "getGlobalSocket w = Returns sdn w0" "0 \<le> sdn"
    and c: "carries (inbox w) (xs @ (a, hs) # ys @ (b, m) # ms) rest"
    and r: "otherReplies HS xs" "okReply HS hs" "content hs = port_bytes p" "otherReplies LIST ys" "okReply LIST m"
    and ne: "content m \<noteq> []"
  shows "case cString (content m) of
      None \<Rightarrow> doList w = Fails
    | Some t \<Rightarrow> 0x25 \<notin> set t \<longrightarrow> (\<exists>w'. doList w = Returns 0 w'
        \<and> shown w' = shown w @ [logLine I (ascii ''files currently available in server:'' @ [10] @ t @ [10])]
        \<and> handed w' = handed w @ [(getServerAddress, message_bytes hsRequest),
            (handlerAt p, message_bytes (request LIST FILENAME_DEL))])"
proof -
  have t: "world.truncate w0 = world.truncate w" using getGlobalSocket_keeps [OF s(1)] by auto
  note T = truncate_D [OF t]
  from handShake_after [OF _ _ s(2) r(1-3), of w0] ok c T obtain w1 where
    w1: "doHandShake sdn getServerAddress addrSize w0 = Returns (0, Some (handlerAt p)) w1"
    "after w0 [(getServerAddress, message_bytes hsRequest)] (inbox w1) (files w) w1"
    "carries (inbox w1) (ys @ (b, m) # ms) rest" by metis
  have n: "int (length FILENAME_DEL) < INT_MAX - 13" by (simp add: FILENAME_DEL_def)
  from send_after [OF after_D(3) [OF w1(2)] wf_requests(2) [OF n, of LIST], of addrSize sdn "handlerAt p"] obtain w2 where
    w2: "sendMessageDMProtocol sdn (handlerAt p) addrSize (request LIST FILENAME_DEL) w1 = Returns 0 w2"
    "after w1 [(handlerAt p, message_bytes (request LIST FILENAME_DEL))] (inbox w1) (files w1) w2" by auto
  have c2: "carries (inbox w2) (ys @ (b, m) # ms) rest" using w1(3) after_D(1) [OF w2(2)] by simp
  from receive_reply [OF after_D(3) [OF w2(2)] c2 s(2) r(4,5)] obtain w3 where
    w3: "receiveWhile sdn (notReply LIST) w2 = Returns (0, b, arrived m) w3"
    "after w2 [] (inbox w3) (files w2) w3" by blast
  have "wf_message m" using c by (auto simp: carries_append)
  from content_length [OF this] ne have pl: "payload (arrived m) = Some (content m)" by (auto simp: arrived_def)
  have a: "after w0 [(getServerAddress, message_bytes hsRequest),
      (handlerAt p, message_bytes (request LIST FILENAME_DEL))] (inbox w3) (files w2) w3"
    using after_trans [OF after_trans [OF w1(2) w2(2)] w3(2)] by simp
  let ?f = "ascii ''files currently available in server:'' @ [10] @ format_line ''%s''"
  have d: "doList w = andThen (showPayload I ?f [] (arrived m) w3) (\<lambda>_ w4. Returns 0 w4)"
    using s(1) w1(1) w2(1) w3(1) r(5) by (simp add: doList_def okReply_def)
  show ?thesis
  proof (cases "cString (content m)")
    case None
    then show ?thesis by (simp add: d showPayload_def payloadText_def pl)
  next
    case (Some x)
    have e: "expandFormat ?f [Str x] = Some (ascii ''files currently available in server:'' @ [10] @ x @ [10])"
      by (simp add: format_line_def ascii_def)
    have "prints I ?f [Str x] w3 = Returns () (w3\<lparr>shown := shown w3
        @ [logLine I (ascii ''files currently available in server:'' @ [10] @ x @ [10])]\<rparr>)" if "0x25 \<notin> set x"
      using prints_plain [OF client_formats(4), of x I w3] that e by auto
    then show ?thesis using Some after_D(4,6) [OF a] T by (auto simp: d showPayload_def payloadText_def pl)
  qed
qed

lemma clientMain_named:
  assumes "commandNamed nm = Some c" "0 \<notin> set prog \<union> set nm" "\<forall>a\<in>set args. 0 \<notin> set a"
  shows "clientMain (prog # nm # args) w =
    andThen (doCommand c (case args of [] \<Rightarrow> None | a # _ \<Rightarrow> Some a) w) (\<lambda>r w'. Returns (if r < 0 then 1 else 0) w')"
proof -
  have "names_inv noNames" by (simp add: names_inv_def)
  from parseCommandName_spec [OF this, of "prog # nm # args"] assms obtain cs where
    "parseCommandName (prog # nm # args) noNames = Some (0, Some c, cs)" by auto
  then show ?thesis by (cases args) (simp_all add: clientMain_def parseCommandNamePrinting_def)
qed

lemma commandNamed_simps [simp]:
  "commandNamed putName = Some PUT" "commandNamed getName = Some GET" "commandNamed listName = Some LIST"
  "0 \<notin> set putName" "0 \<notin> set getName" "0 \<notin> set listName"
  by (simp_all add: commandNamed_def) (simp_all add: putName_def getName_def listName_def)

subsection \<open>An example client\<close>

definition exampleClient :: "(byte list \<Rightarrow> byte list option) \<Rightarrow> sockaddr_in \<Rightarrow> message list \<Rightarrow> client" where
  "exampleClient fs src ms = world.extend (exampleProcess fs src ms)
     \<lparr>globalSd = - 1, boundPort = None, newSocket = 3, bindAnswer = (\<lambda>_ _. Bound),
       statusAddress = 0, openError = []\<rparr>"

lemma exampleClient_simps [simp]:
  "inbox (exampleClient fs src ms) = datagramsAll src ms" "files (exampleClient fs src ms) = fs"
  "access (exampleClient fs src ms) n" "handed (exampleClient fs src ms) = []"
  "processOk (exampleClient fs src ms)"
  "getGlobalSocket (exampleClient fs src ms) = Returns 3 (exampleClient fs src ms\<lparr>globalSd := 3, boundPort := Some MIN_PORT\<rparr>)"
  using exampleProcess_ok [of fs src ms]
  by (simp_all add: exampleClient_def world.defs processOk_def) (simp_all add: exampleProcess_def
      getGlobalSocket_def bindLoop.simps [of _ _ MIN_PORT])

end
