(* ===== verification/Server.thy ===== *)
theory Server
  imports Client
begin

text \<open>
  The server (server/main.c): the father process answers handshakes and assigns handlers by
  their semaphores; a child serves one request after another and posts its semaphore. The names
  that \<open>readdir\<close> gives, the text of \<open>strerror\<close>, what the freed directory entries hold when
  they are read again and what a variable holds after the end of its block are parameters. Lines
  that quote a name or a payload go through the logger; the others cannot go wrong and are left out.
\<close>

definition MAX_CLIENT :: nat where
  "MAX_CLIENT = 5"

definition MAX_FILENAME_LENTGH :: nat where
  "MAX_FILENAME_LENTGH = 256"

subsection \<open>Handlers\<close>

text \<open>A semaphore, or one whose calls fail.\<close>

datatype semaphore = Sem (semValue: int) | Unusable

definition sem_trywait :: "semaphore \<Rightarrow> semaphore option" where
  "sem_trywait s = (case s of Sem v \<Rightarrow> if 0 < v then Some (Sem (v - 1)) else None | Unusable \<Rightarrow> None)"

definition sem_post :: "semaphore \<Rightarrow> semaphore" where
  "sem_post s = (case s of Sem v \<Rightarrow> Sem (v + 1) | Unusable \<Rightarrow> Unusable)"

fun assignLoop :: "int \<Rightarrow> semaphore list \<Rightarrow> int \<times> semaphore list" where
  "assignLoop i [] = (- 1, [])"
| "assignLoop i (s # ss) =
     (case sem_trywait s of
        Some s' \<Rightarrow> (i, s' # ss)
      | None \<Rightarrow> let (r, ss') = assignLoop (i + 1) ss in (r, s # ss'))"

definition assignHandler :: "semaphore list \<Rightarrow> int \<times> semaphore list" where
  "assignHandler handlers = assignLoop 0 handlers"

subsection \<open>The father\<close>

definition reply :: "dmProtocol_command \<Rightarrow> opStatus \<Rightarrow> byte list option \<Rightarrow> int \<Rightarrow> message" where
  "reply c s pl n = newMessage\<lparr>message_header := (message_header newMessage)\<lparr>command := commandCode c,
     op_status := statusCode s, payload_lentgh := n\<rparr>, payload := pl\<rparr>"

definition onlyHsText :: "byte list" where
  "onlyHsText = ascii ''Error occured. This port is only for H-S, check it'' @ [10]"

definition noFreeText :: "byte list" where
  "noFreeText = ascii ''ERROR: No free ports at the moments''"

definition handlerPort :: "int \<Rightarrow> port" where
  "handlerPort freeHandler = DEFAULT_SERVER_PORT + word_of_int (freeHandler + 1)"

text \<open>The payload of a granted handshake points to the variable \<open>free_port\<close>, whose block has ended
  when the message is serialized: \<open>free_port p\<close> is what its bytes are then, if \<open>p\<close> was stored there.\<close>

definition hsResponse :: "(port \<Rightarrow> byte list) \<Rightarrow> int \<Rightarrow> message" where
  "hsResponse free_port freeHandler =
     (if freeHandler < 0
      then reply HS OP_STATUS_E (Some (noFreeText @ [0])) (int (length noFreeText) + 1)
      else reply HS OP_STATUS_OK (Some (free_port (handlerPort freeHandler))) 2)"

definition fatherStep ::
  "(port \<Rightarrow> byte list) \<Rightarrow> int \<Rightarrow> semaphore list \<Rightarrow> 'z world_scheme \<Rightarrow> (semaphore list, 'z world_scheme) outcome"
where
  "fatherStep free_port socket handlers w =
     andThen (receiveMessageDMProtocol socket w) (\<lambda>x w1.
       if command (message_header (snd (snd x))) \<noteq> commandCode HS then
         andThen (sendMessageDMProtocol socket (fst (snd x)) addrSize
             (reply HS OP_STATUS_INCORRECT (Some (onlyHsText @ [0])) (int (length onlyHsText) + 1)) w1)
           (\<lambda>_ w2. Returns handlers w2)
       else let (freeHandler, handlers') = assignHandler handlers in
         andThen (sendMessageDMProtocol socket (fst (snd x)) addrSize (hsResponse free_port freeHandler) w1)
           (\<lambda>_ w2. Returns handlers' w2))"

subsection \<open>The operations of a child\<close>

text \<open>The server's own lines are not kept, only whether printing them goes wrong.\<close>

definition logged ::
  "Tag \<Rightarrow> byte list \<Rightarrow> printArg list \<Rightarrow> 'z world_scheme \<Rightarrow> (unit, 'z world_scheme) outcome"
where
  "logged tag format args w = (case logText tag format args of None \<Rightarrow> Fails | Some text \<Rightarrow> Returns () w)"

definition logPayload ::
  "Tag \<Rightarrow> byte list \<Rightarrow> byte list option \<Rightarrow> 'z world_scheme \<Rightarrow> (unit, 'z world_scheme) outcome"
where
  "logPayload tag format pl w =
     (case payloadText pl of None \<Rightarrow> Fails | Some s \<Rightarrow> logged tag format [Str s] w)"

definition serverDoPut ::
  "byte list \<Rightarrow> sockaddr_in \<Rightarrow> byte list option \<Rightarrow> int \<Rightarrow> 'z world_scheme \<Rightarrow> (int, 'z world_scheme) outcome"
where
  "serverDoPut strerr client_addr filename sockfd w =
     (case filename of
        None \<Rightarrow> Returns (- 1) w
      | Some b \<Rightarrow> (case cString b of
          None \<Rightarrow> Fails
        | Some name \<Rightarrow>
            let (fd, w1) = openWrite name w in
            if fd = None then
              andThen (logged E (format_line ''[SERVER-DOPUT], doPut: failed to open the file %s: %s'')
                [Str name, Str strerr] w1) (\<lambda>_ w2. Returns (- 1) w2)
            else andThen (sendMessageDMProtocol sockfd client_addr addrSize
                   (reply PUT OP_STATUS_OK (Some b) (int (length name))) w1) (\<lambda>r w2.
              if r \<noteq> 0 then Returns (- 1) w2
              else andThen (receiveFileDMProtocol sockfd fd w2) (\<lambda>r2 w3.
                Returns (if r2 \<noteq> 0 then - 1 else 0) w3))))"

definition serverDoGet ::
  "byte list \<Rightarrow> sockaddr_in \<Rightarrow> byte list option \<Rightarrow> int \<Rightarrow> 'z world_scheme \<Rightarrow> (int, 'z world_scheme) outcome"
where
  "serverDoGet strerr client_addr filename sockfd w =
     andThen (logPayload D (format_line ''[SERVER-DOGET] starting brother the filename is %s'') filename w) (\<lambda>_ w.
     case filename of
        None \<Rightarrow> Returns (- 1) w
      | Some b \<Rightarrow> (case cString b of
          None \<Rightarrow> Fails
        | Some name \<Rightarrow>
           (case openRead name w of
              None \<Rightarrow>
                andThen (logged E (format_line ''[SERVER], doGet: failed to open the file %s: %s'')
                  [Str name, Str strerr] w) (\<lambda>_ w0.
                andThen (sendMessageDMProtocol sockfd client_addr addrSize
                  (reply GET OP_STATUS_E_FILE_NOT_FOUND (Some (strerr @ [0])) (int (length strerr))) w0)
                  (\<lambda>r w1. Returns (- 1) w1))
            | Some fd \<Rightarrow>
                let respond = reply GET OP_STATUS_OK None 0 in
                andThen (sendMessageDMProtocol sockfd client_addr addrSize respond w) (\<lambda>r w1.
                if r \<noteq> 0 then Returns (- 1) w1
                else andThen (sendFileDMProtocol sockfd client_addr addrSize (Some fd) w1) (\<lambda>r2 w2.
                if r2 \<noteq> 0 then Returns (- 1) w2
                else andThen (sendMessageDMProtocol sockfd client_addr addrSize respond w2) (\<lambda>r3 w3.
                  Returns (if r3 \<noteq> 0 then - 1 else 0) w3))))))"

text \<open>The two \<open>strcat\<close> of a round, on a buffer of \<open>bufSize\<close> bytes, and the lines logged before and
  after them.\<close>

fun catNames :: "nat \<Rightarrow> byte list \<Rightarrow> byte list \<Rightarrow> byte list list \<Rightarrow> byte list \<Rightarrow> byte list option" where
  "catNames bufSize separator program_name [] payload_string = Some payload_string"
| "catNames bufSize separator program_name (e # es) payload_string =
     (if logText D (format_line ''[doList]: Hi the node value is %s and the argv is: %s'')
           [Str e, Str program_name] = None then None
      else if e = program_name then catNames bufSize separator program_name es payload_string
      else if bufSize < length (payload_string @ e @ separator) + 1 then None
      else if logText D (format_line ''[doList]: Hi the payload_string is %s'')
           [Str (payload_string @ e @ separator)] = None then None
      else catNames bufSize separator program_name es (payload_string @ e @ separator))"

text \<open>\<open>listed ! i\<close> is the name of the \<open>i\<close>-th regular file, \<open>stale i\<close> what its directory entry
  holds once the directory is closed. For a longer name than the maximum the code takes the
  length of an array without a NUL.\<close>

definition serverDoList ::
  "byte list \<Rightarrow> byte list list \<Rightarrow> (nat \<Rightarrow> byte list) \<Rightarrow> sockaddr_in \<Rightarrow> byte list option \<Rightarrow> int
    \<Rightarrow> 'z world_scheme \<Rightarrow> (int, 'z world_scheme) outcome"
where
  "serverDoList program_name listed stale client_addr separator sockfd w =
     (if \<exists>n\<in>set listed. MAX_FILENAME_LENTGH < length n
           \<or> logText D (format_line ''the name file is :%s'') [Str n] = None then Fails
      else case do { b \<leftarrow> separator; cString b } of
        None \<Rightarrow> Fails
      | Some sep \<Rightarrow>
          let files_number = length listed;
              strings_len = sum_list (map length listed);
              bufSize = files_number * length sep + strings_len + 1;
              text = (if 0 < files_number
                then catNames bufSize sep program_name (map stale [0..<files_number]) [] else Some sep)
          in case text of
            None \<Rightarrow> Fails
          | Some t \<Rightarrow>
              andThen (sendMessageDMProtocol sockfd client_addr addrSize
                (reply LIST OP_STATUS_OK (Some (t @ [0])) (int (length t))) w)
                (\<lambda>r w1. Returns (if r \<noteq> 0 then - 1 else 0) w1))"

text \<open>One round of a child; the semaphore is posted whatever the request was.\<close>

definition childStep ::
  "byte list \<Rightarrow> byte list list \<Rightarrow> (nat \<Rightarrow> byte list) \<Rightarrow> byte list \<Rightarrow> int \<Rightarrow> semaphore \<Rightarrow> 'z world_scheme
    \<Rightarrow> (semaphore, 'z world_scheme) outcome"
where
  "childStep program_name listed stale strerr socket s_busy w =
     andThen (receiveMessageDMProtocol socket w) (\<lambda>x w1.
       let client_addr = fst (snd x); msg = snd (snd x); c = command (message_header msg) in
       andThen
         (if c = commandCode PUT then serverDoPut strerr client_addr (payload msg) socket w1
          else if c = commandCode GET then
            andThen (logPayload D (format_line ''[OPERATE-DOGET] the file name is: %s'') (payload msg) w1) (\<lambda>_ w2.
              serverDoGet strerr client_addr (payload msg) socket w2)
          else if c = commandCode LIST then
            serverDoList program_name listed stale client_addr (payload msg) socket w1
          else Returns 0 w1)
         (\<lambda>_ w2. Returns (sem_post s_busy) w2))"

text \<open>\<open>main\<close>: the father's socket and those of the handlers are bound to consecutive ports; each
  handler has a semaphore at 1. \<open>None\<close> is an exit with an error.\<close>

fun bindAll :: "(port \<Rightarrow> bool) \<Rightarrow> nat \<Rightarrow> nat \<Rightarrow> port list option" where
  "bindAll canBind i 0 = Some []"
| "bindAll canBind i (Suc n) =
     (let p = DEFAULT_SERVER_PORT + word_of_nat i in
      if canBind p then do { ps \<leftarrow> bindAll canBind (i + 1) n; Some (p # ps) } else None)"

definition serverMain :: "(port \<Rightarrow> bool) \<Rightarrow> (port list \<times> semaphore list) option" where
  "serverMain canBind = do {
     ps \<leftarrow> bindAll canBind 0 (MAX_CLIENT + 1);
     Some (ps, replicate MAX_CLIENT (Sem 1)) }"

subsection \<open>The loops\<close>

text \<open>Each process serves one message after another until none comes. A round takes at least
  one message, so the loops end, in a wait or in undefined behaviour; they never return. The
  directory as it is at the \<open>n\<close>-th round is a parameter.\<close>

lemma receiveFile_inbox:
  "receiveFileDMProtocol socket fileD w = Returns r w' \<Longrightarrow> length (inbox w') < length (inbox w)"
proof (induction socket fileD w rule: receiveFileDMProtocol.induct)
  case (1 socket fileD w)
  from 1(2) obtain x w1 r2 w2 where s: "receiveWhile socket (\<lambda>r m. r < 0) w = Returns x w1"
    "sendRetrying socket (fst (snd x)) addrSize chunkHasArrivedMsg (writeEnd fileD (content (snd (snd x))) w1) = Returns r2 w2"
    "(if has_more (message_header (snd (snd x))) then receiveFileDMProtocol socket fileD w2 else Returns 0 w2) = Returns r w'"
    unfolding receiveFileDMProtocol.simps [of socket fileD w] andThen_Returns_iff by blast
  have "length (inbox w2) < length (inbox w)"
    using receiveWhile_shorter [OF s(1)] send_returns_0 [OF s(2) [unfolded sendRetrying_eq]] by simp
  with 1(1) [OF s(1,2)] s(3) show ?case by (auto split: if_splits)
qed

lemma sendFile_inbox:
  "sendFileDMProtocol socket dst n fileD w = Returns r w' \<Longrightarrow> length (inbox w') < length (inbox w)"
proof -
  have "sendFileLoop socket dst n fileD pos w = Returns r w' \<Longrightarrow> length (inbox w') < length (inbox w)" for pos
  proof (induction socket dst n fileD pos w rule: sendFileLoop.induct)
    case (1 socket dst n fileD pos w)
    from 1(2) obtain c where c: "readChunk w fileD pos = Some c"
      by (cases "readChunk w fileD pos") (simp_all add: sendFileLoop.simps [of socket dst n fileD pos w])
    with 1(2) obtain r1 w1 x w2 where s: "sendRetrying socket dst n (chunkMessage c) w = Returns r1 w1"
      "receiveWhile socket awaitsChunkAck w1 = Returns x w2"
      "(if has_more (message_header (chunkMessage c)) then sendFileLoop socket dst n fileD (pos + length c) w2
        else Returns 0 w2) = Returns r w'"
      unfolding sendFileLoop.simps [of socket dst n fileD pos w] option.case andThen_Returns_iff by auto
    have "length (inbox w2) < length (inbox w)"
      using receiveWhile_shorter [OF s(2)] send_returns_0 [OF s(1) [unfolded sendRetrying_eq]] by simp
    with 1(1) [OF c s(1,2)] s(3) show ?case by (auto split: if_splits)
  qed
  then show "sendFileDMProtocol socket dst n fileD w = Returns r w' \<Longrightarrow> length (inbox w') < length (inbox w)"
    by (simp add: sendFileDMProtocol_def)
qed

lemma inbox_openWrite [simp]: "inbox (snd (openWrite name w)) = inbox w"
  by (simp add: openWrite_def)

lemma send_inbox: "sendMessageDMProtocol socket dst n msg w = Returns r w' \<Longrightarrow> inbox w' = inbox w"
  by (blast dest: send_returns_0)

lemma logged_same: "logged tag f args w = Returns r w' \<Longrightarrow> w' = w"
  by (simp add: logged_def split: option.splits)

lemma logPayload_same: "logPayload tag f pl w = Returns r w' \<Longrightarrow> w' = w"
  by (auto simp: logPayload_def dest: logged_same split: option.splits)

lemma serverDoPut_inbox:
  assumes "serverDoPut e a f socket w = Returns r w'"
  shows "length (inbox w') \<le> length (inbox w)"
  using assms
  by (auto simp: serverDoPut_def case_prod_beta Let_def split: option.splits if_splits
      dest!: send_inbox receiveFile_inbox logged_same)

lemma serverDoGet_inbox:
  assumes "serverDoGet e a f socket w = Returns r w'"
  shows "length (inbox w') \<le> length (inbox w)"
proof (cases "logPayload D (format_line ''[SERVER-DOGET] starting brother the filename is %s'') f w")
  case (Returns u w1)
  then have "w1 = w" by (rule logPayload_same)
  with Returns assms show ?thesis
    by (auto simp: serverDoGet_def Let_def split: option.splits if_splits
        dest!: send_inbox sendFile_inbox logged_same)
qed (use assms in \<open>simp_all add: serverDoGet_def\<close>)

lemma serverDoList_inbox:
  assumes "serverDoList prog listed stale a f socket w = Returns r w'"
  shows "length (inbox w') \<le> length (inbox w)"
  using assms by (auto simp: serverDoList_def Let_def split: option.splits if_splits dest!: send_inbox)

lemmas operations_inbox = serverDoPut_inbox serverDoGet_inbox serverDoList_inbox

lemma childStep_inbox:
  assumes "childStep prog listed stale strerr socket sem w = Returns s w'"
  shows "length (inbox w') < length (inbox w)"
proof -
  from assms obtain x w1 where r: "receiveMessageDMProtocol socket w = Returns x w1"
    and "length (inbox w') \<le> length (inbox w1)"
    by (auto simp: childStep_def Let_def split: if_splits dest: operations_inbox dest!: logPayload_same)
  with receive_shorter [OF r] show ?thesis by simp
qed

lemma fatherStep_inbox:
  assumes "fatherStep fp socket hs w = Returns hs' w'"
  shows "length (inbox w') < length (inbox w)"
proof -
  from assms obtain x w1 where r: "receiveMessageDMProtocol socket w = Returns x w1"
    and "inbox w' = inbox w1"
    by (auto simp: fatherStep_def case_prod_beta split: if_splits dest!: send_returns_0)
  with receive_shorter [OF r] show ?thesis by simp
qed

text \<open>The loops give the semaphores at the end and how it ended.\<close>

function childLoop ::
  "byte list \<Rightarrow> (nat \<Rightarrow> byte list list) \<Rightarrow> (nat \<Rightarrow> nat \<Rightarrow> byte list) \<Rightarrow> byte list \<Rightarrow> int \<Rightarrow> nat \<Rightarrow> semaphore
    \<Rightarrow> 'z world_scheme \<Rightarrow> semaphore \<times> (unit, 'z world_scheme) outcome"
where
  "childLoop prog listed stale strerr socket n s_busy w =
     (case childStep prog (listed n) (stale n) strerr socket s_busy w of
        Returns s' w' \<Rightarrow> childLoop prog listed stale strerr socket (n + 1) s' w'
      | Waits w' \<Rightarrow> (s_busy, Waits w')
      | Fails \<Rightarrow> (s_busy, Fails))"
  by pat_completeness auto
termination
  by (relation "measure (\<lambda>(p, l, st, e, s, n, b, w). length (inbox w))") (auto dest: childStep_inbox)

function fatherLoop ::
  "(nat \<Rightarrow> port \<Rightarrow> byte list) \<Rightarrow> int \<Rightarrow> nat \<Rightarrow> semaphore list \<Rightarrow> 'z world_scheme \<Rightarrow> semaphore list \<times> (unit, 'z world_scheme) outcome"
where
  "fatherLoop free_port socket n handlers w =
     (case fatherStep (free_port n) socket handlers w of
        Returns handlers' w' \<Rightarrow> fatherLoop free_port socket (n + 1) handlers' w'
      | Waits w' \<Rightarrow> (handlers, Waits w')
      | Fails \<Rightarrow> (handlers, Fails))"
  by pat_completeness auto
termination
  by (relation "measure (\<lambda>(fp, s, n, h, w). length (inbox w))") (auto dest: fatherStep_inbox)

declare childLoop.simps [simp del] fatherLoop.simps [simp del]

text \<open>The loop that forks: \<open>pid i\<close> is what the \<open>i\<close>-th call of \<open>fork\<close> returns in this process, 0 in
  the child that it makes, -1 if it fails. The result is the last index: that of the child, or
  the number of handlers in the father.\<close>

fun forkLoop :: "(nat \<Rightarrow> int) \<Rightarrow> nat \<Rightarrow> nat \<Rightarrow> nat" where
  "forkLoop pid i 0 = i"
| "forkLoop pid i (Suc n) = (if pid (i + 1) = 0 then i + 1 else forkLoop pid (i + 1) n)"

text \<open>\<open>operate\<close> in one process: \<open>sockets\<close> and \<open>handlers\<close> are those of the table of processes.\<close>

definition operate ::
  "byte list \<Rightarrow> (nat \<Rightarrow> byte list list) \<Rightarrow> (nat \<Rightarrow> nat \<Rightarrow> byte list) \<Rightarrow> byte list \<Rightarrow> (nat \<Rightarrow> port \<Rightarrow> byte list)
    \<Rightarrow> (nat \<Rightarrow> int) \<Rightarrow> int list
    \<Rightarrow> semaphore list \<Rightarrow> 'z world_scheme \<Rightarrow> semaphore list \<times> (unit, 'z world_scheme) outcome"
where
  "operate prog listed stale strerr free_port pid sockets handlers w =
     (let n_process = forkLoop pid 0 MAX_CLIENT in
      if pid n_process \<noteq> 0 then fatherLoop free_port (sockets ! 0) 0 handlers w
      else let (s, out) = childLoop prog listed stale strerr (sockets ! n_process) 0 (handlers ! (n_process - 1)) w
        in (handlers[n_process - 1 := s], out))"

lemma childLoop_never_returns: "snd (childLoop prog listed stale strerr socket n s w) \<noteq> Returns r w'"
proof (induction prog listed stale strerr socket n s w rule: childLoop.induct)
  case (1 prog listed stale strerr socket n s w)
  then show ?case
    by (cases "childStep prog (listed n) (stale n) strerr socket s w")
      (simp_all add: childLoop.simps [of prog listed stale strerr socket n s w])
qed

lemma fatherLoop_never_returns: "snd (fatherLoop fp socket n hs w) \<noteq> Returns r w'"
proof (induction fp socket n hs w rule: fatherLoop.induct)
  case (1 fp socket n hs w)
  then show ?case
    by (cases "fatherStep (fp n) socket hs w") (simp_all add: fatherLoop.simps [of fp socket n hs w])
qed

lemma forkLoop_stops:
  "pid (Suc (k + m)) = 0 \<Longrightarrow> m < n \<Longrightarrow> \<forall>j<m. pid (Suc (k + j)) \<noteq> 0 \<Longrightarrow> forkLoop pid k n = Suc (k + m)"
proof (induction m arbitrary: k n)
  case 0
  then show ?case by (cases n) simp_all
next
  case (Suc m)
  then obtain n' where "n = Suc n'" by (cases n) auto
  moreover have "\<forall>j<m. pid (Suc (Suc k + j)) \<noteq> 0"
  proof (intro allI impI)
    fix j assume "j < m"
    then show "pid (Suc (Suc k + j)) \<noteq> 0" using Suc.prems(3) [rule_format, of "Suc j"] by simp
  qed
  moreover have "pid (Suc k) \<noteq> 0" using Suc.prems(3) [rule_format, of 0] by simp
  ultimately show ?case using Suc.IH [of "Suc k" n'] Suc.prems(1,2) by simp
qed

lemma forkLoop_child:
  assumes "0 < i" "i \<le> MAX_CLIENT" "pid i = 0" "\<forall>j. 0 < j \<and> j < i \<longrightarrow> pid j \<noteq> 0"
  shows "forkLoop pid 0 MAX_CLIENT = i"
  using forkLoop_stops [of pid 0 "i - 1" MAX_CLIENT] assms by simp

lemma forkLoop_father: "\<forall>j. pid j \<noteq> 0 \<Longrightarrow> forkLoop pid i n = i + n"
  by (induction n arbitrary: i) auto

text \<open>A failed \<open>fork\<close> is not noticed: the father goes on, and the semaphore of the handler that does
  not exist is still free to be assigned.\<close>

lemma operate_father:
  "\<forall>j. pid j \<noteq> 0 \<Longrightarrow> operate prog listed stale strerr fp pid sockets hs w = fatherLoop fp (sockets ! 0) 0 hs w"
  by (simp add: operate_def forkLoop_father)

lemma operate_child:
  assumes "0 < i" "i \<le> MAX_CLIENT" "pid i = 0" "\<forall>j. 0 < j \<and> j < i \<longrightarrow> pid j \<noteq> 0"
  shows "operate prog listed stale strerr fp pid sockets hs w =
    (let (s, out) = childLoop prog listed stale strerr (sockets ! i) 0 (hs ! (i - 1)) w
     in (hs[i - 1 := s], out))"
  using forkLoop_child [OF assms] assms(3) by (simp add: operate_def)

subsection \<open>Assigning handlers\<close>

abbreviation available :: "semaphore \<Rightarrow> bool" where
  "available s \<equiv> sem_trywait s \<noteq> None"

lemma assignLoop_spec:
  "if \<exists>k<length ss. available (ss ! k)
   then \<exists>k s'. k < length ss \<and> (\<forall>j<k. \<not> available (ss ! j)) \<and> sem_trywait (ss ! k) = Some s'
     \<and> assignLoop i ss = (i + int k, ss[k := s'])
   else assignLoop i ss = (- 1, ss)"
proof (induction ss arbitrary: i)
  case (Cons s ss)
  show ?case
  proof (cases "sem_trywait s")
    case None
    show ?thesis
    proof (cases "\<exists>k<length ss. available (ss ! k)")
      case True
      with Cons.IH [of "i + 1"] obtain k s' where k: "k < length ss" "\<forall>j<k. \<not> available (ss ! j)"
        "sem_trywait (ss ! k) = Some s'" "assignLoop (i + 1) ss = (i + 1 + int k, ss[k := s'])" by auto
      have "\<forall>j<Suc k. \<not> available ((s # ss) ! j)"
        using k(2) None by (auto simp: less_Suc_eq_0_disj)
      moreover have "assignLoop i (s # ss) = (i + int (Suc k), (s # ss)[Suc k := s'])"
        using None k(4) by simp
      ultimately have "\<exists>k s'. k < length (s # ss) \<and> (\<forall>j<k. \<not> available ((s # ss) ! j))
          \<and> sem_trywait ((s # ss) ! k) = Some s' \<and> assignLoop i (s # ss) = (i + int k, (s # ss)[k := s'])"
        using k(1,3) by (intro exI [of _ "Suc k"] exI [of _ s']) simp
      moreover have "\<exists>k<length (s # ss). available ((s # ss) ! k)" using k by (intro exI [of _ "Suc k"]) simp
      ultimately show ?thesis by simp
    next
      case False
      then have "\<not> (\<exists>k<length (s # ss). available ((s # ss) ! k))"
        using None by (auto simp: nth_Cons split: nat.splits)
      moreover have "assignLoop i (s # ss) = (- 1, s # ss)" using None False Cons.IH [of "i + 1"] by simp
      ultimately show ?thesis by (simp only: if_False)
    qed
  next
    case (Some s')
    then have "\<exists>k<length (s # ss). available ((s # ss) ! k)" by (intro exI [of _ 0]) simp
    moreover have "assignLoop i (s # ss) = (i + int 0, (s # ss)[0 := s'])" using Some by simp
    ultimately show ?thesis using Some by (simp only: if_True) (intro exI [of _ 0] exI [of _ s'], simp)
  qed
qed simp

text \<open>A pool: the semaphores and, for each handler, the clients that were sent to it and were not
  served yet. Handlers serve only these clients here.\<close>

record pool =
  handlers :: "semaphore list"
  clients :: "nat \<Rightarrow> nat"

inductive poolStep :: "pool \<Rightarrow> pool \<Rightarrow> bool" where
  handshake: "assignHandler (handlers p) = (int k, hs) \<Longrightarrow>
    poolStep p (p\<lparr>handlers := hs, clients := (clients p)(k := clients p k + 1)\<rparr>)"
| refused: "assignHandler (handlers p) = (- 1, hs) \<Longrightarrow> poolStep p (p\<lparr>handlers := hs\<rparr>)"
| served: "k < length (handlers p) \<Longrightarrow> 0 < clients p k \<Longrightarrow>
    poolStep p (p\<lparr>handlers := (handlers p)[k := sem_post (handlers p ! k)],
      clients := (clients p)(k := clients p k - 1)\<rparr>)"

definition initialPool :: pool where
  "initialPool = \<lparr>handlers = replicate MAX_CLIENT (Sem 1), clients = (\<lambda>_. 0)\<rparr>"

definition poolInv :: "pool \<Rightarrow> bool" where
  "poolInv p \<longleftrightarrow> length (handlers p) = MAX_CLIENT
     \<and> (\<forall>k<MAX_CLIENT. clients p k \<le> 1 \<and> handlers p ! k = Sem (1 - int (clients p k)))
     \<and> (\<forall>k\<ge>MAX_CLIENT. clients p k = 0)"

lemma poolInv_available:
  "poolInv p \<Longrightarrow> k < MAX_CLIENT \<Longrightarrow> available (handlers p ! k) \<longleftrightarrow> clients p k = 0"
  by (auto simp: poolInv_def sem_trywait_def)

lemma assign_pool:
  assumes "poolInv p"
  shows "if \<exists>k<MAX_CLIENT. clients p k = 0
    then \<exists>k<MAX_CLIENT. clients p k = 0 \<and> (\<forall>j<k. clients p j \<noteq> 0)
      \<and> assignHandler (handlers p) = (int k, (handlers p)[k := Sem 0])
    else assignHandler (handlers p) = (- 1, handlers p)"
proof -
  have l: "length (handlers p) = MAX_CLIENT" using assms by (simp add: poolInv_def)
  note av = poolInv_available [OF assms]
  have "(\<exists>k<length (handlers p). available (handlers p ! k)) = (\<exists>k<MAX_CLIENT. clients p k = 0)"
    using av l by metis
  note S = assignLoop_spec [of "handlers p" 0, unfolded this]
  show ?thesis
  proof (cases "\<exists>k<MAX_CLIENT. clients p k = 0")
    case True
    with S obtain k s' where k: "k < length (handlers p)" "\<forall>j<k. \<not> available (handlers p ! j)"
      "sem_trywait (handlers p ! k) = Some s'" "assignLoop 0 (handlers p) = (int k, (handlers p)[k := s'])" by auto
    then have c: "k < MAX_CLIENT" "clients p k = 0" using l av [of k] by auto
    moreover have "\<forall>j<k. clients p j \<noteq> 0"
    proof (intro allI impI)
      fix j assume "j < k"
      then show "clients p j \<noteq> 0" using k(2) c(1) av [of j] by auto
    qed
    ultimately have c: "k < MAX_CLIENT" "clients p k = 0" "\<forall>j<k. clients p j \<noteq> 0" by auto
    then have "handlers p ! k = Sem 1" using assms by (simp add: poolInv_def)
    then have "s' = Sem 0" using k(3) by (simp add: sem_trywait_def)
    with True k(4) c show ?thesis by (auto simp: assignHandler_def)
  next
    case False
    with S show ?thesis by (simp add: assignHandler_def)
  qed
qed

lemma poolStep_inv: "poolStep p p' \<Longrightarrow> poolInv p \<Longrightarrow> poolInv p'"
proof (induction rule: poolStep.induct)
  case (handshake p k hs)
  from assign_pool [OF handshake(2)] handshake(1) have
    "k < MAX_CLIENT" "clients p k = 0" "hs = (handlers p)[k := Sem 0]" by (auto split: if_splits)
  with handshake(2) show ?case by (auto simp: poolInv_def nth_list_update)
next
  case (refused p hs)
  from assign_pool [OF refused(2)] refused(1) have "hs = handlers p" by (auto split: if_splits)
  with refused(2) show ?case by (simp add: poolInv_def)
next
  case (served k p)
  then have "k < MAX_CLIENT" "clients p k = 1" "handlers p ! k = Sem 0"
    by (auto simp: poolInv_def intro: antisym)
  with served show ?case by (auto simp: poolInv_def nth_list_update sem_post_def)
qed

lemma pool_reachable: "poolStep\<^sup>*\<^sup>* initialPool p \<Longrightarrow> poolInv p"
proof (induction rule: rtranclp_induct)
  case base
  show ?case by (simp add: initialPool_def poolInv_def)
qed (rule poolStep_inv)

subsection \<open>Serving\<close>

lemma server_formats [simp]:
  "fits_args (format_line ''[SERVER-DOPUT], doPut: failed to open the file %s: %s'') [Str a, Str b]"
  "fits_args (format_line ''[SERVER-DOGET] starting brother the filename is %s'') [Str a]"
  "fits_args (format_line ''[SERVER], doGet: failed to open the file %s: %s'') [Str a, Str b]"
  "fits_args (format_line ''[doList]: Hi the node value is %s and the argv is: %s'') [Str a, Str b]"
  "fits_args (format_line ''[doList]: Hi the payload_string is %s'') [Str a]"
  "fits_args (format_line ''the name file is :%s'') [Str a]"
  "fits_args (format_line ''[OPERATE-DOGET] the file name is: %s'') [Str a]"
  by (simp_all add: format_line_def ascii_def)

lemma logText_ok: "fits_args f args \<Longrightarrow> \<forall>a\<in>set args. unformatted a \<Longrightarrow> logText tag f args \<noteq> None"
  using logText_plain [of f args tag] by auto

lemma logged_ok: "fits_args f args \<Longrightarrow> \<forall>a\<in>set args. unformatted a \<Longrightarrow> logged tag f args w = Returns () w"
  using logText_ok [of f args tag] by (auto simp: logged_def)

lemma cString_terminated: "0 \<notin> set s \<Longrightarrow> cString (s @ [0]) = Some s"
proof -
  assume "0 \<notin> set s"
  then have "takeWhile (\<lambda>x. x \<noteq> 0) (s @ [0]) = s" by (induction s) auto
  then show ?thesis by (simp add: cString_def)
qed

lemma wf_reply:
  "0 \<le> n \<Longrightarrow> n \<le> INT_MAX - 13 \<Longrightarrow> n \<le> int (length b) \<Longrightarrow> wf_message (reply c s (Some b) n)"
  "wf_message (reply c s None 0)"
  by (simp_all add: reply_def newMessage_def wf_message_def c_int_codes del: commandCode.simps statusCode.simps)

lemma reply_fields [simp]:
  "command (message_header (reply c s pl n)) = commandCode c"
  "op_status (message_header (reply c s pl n)) = statusCode s"
  "payload_lentgh (message_header (reply c s pl n)) = n" "payload (reply c s pl n) = pl"
  "content (reply c s pl n) = (case pl of None \<Rightarrow> [] | Some p \<Rightarrow> take (nat n) p)"
  by (simp_all add: reply_def newMessage_def content_def split: option.split)

abbreviation putReply :: "byte list \<Rightarrow> message" where
  "putReply name \<equiv> reply PUT OP_STATUS_OK (Some (name @ [0])) (int (length name))"

abbreviation getReply :: message where
  "getReply \<equiv> reply GET OP_STATUS_OK None 0"

text \<open>A child is given the request \<open>put\<close> and the messages of a transfer.\<close>

lemma serverPut_spec:
  assumes ok: "processOk w" and s: "0 \<le> socket" and nul: "0 \<notin> set name"
    and n: "int (length name) < INT_MAX - 13" and ac: "access w name"
    and c: "carries (inbox w) ((a, request PUT name) # ms) rest" "transfer (map snd ms)"
  shows "\<exists>w'. childStep prog listed stale strerr socket sem w = Returns (sem_post sem) w'
    \<and> after w ((a, message_bytes (putReply name)) # map (\<lambda>x. (fst x, ackBytes)) ms) rest
        ((files w)(name \<mapsto> concat (map (content \<circ> snd) ms))) w'"
proof -
  from receive_carries [OF c(1) s] obtain r as where
    w1: "receiveMessageDMProtocol socket w = Returns (0, a, arrived (request PUT name)) (w\<lparr>inbox := r, ackd := ackd w @ as\<rparr>)"
    and c1: "carries r ms rest" by blast
  let ?w1 = "w\<lparr>inbox := r, ackd := ackd w @ as\<rparr>"
  let ?w2 = "?w1\<lparr>files := (files w)(name \<mapsto> [])\<rparr>"
  have o: "openWrite name ?w1 = (Some name, ?w2)" using ac by (simp add: openWrite_def)
  have a2: "after w [] r ((files w)(name \<mapsto> [])) ?w2" using ok by (simp add: after_def processOk_def)
  have wf: "wf_message (putReply name)" using n by (intro wf_reply) simp_all
  from send_after [OF after_D(3) [OF a2] wf, of addrSize socket a] obtain w3 where
    w3: "sendMessageDMProtocol socket a addrSize (putReply name) ?w2 = Returns 0 w3"
    "after ?w2 [(a, message_bytes (putReply name))] (inbox ?w2) (files ?w2) w3" by auto
  have "carries (inbox w3) ms rest" using c1 after_D(1) [OF w3(2)] by simp
  from receiveFile_spec [OF after_D(3) [OF w3(2)] s this c(2), of "Some name"] obtain w4 where
    w4: "receiveFileDMProtocol socket (Some name) w3 = Returns 0 w4"
    "after w3 (map (\<lambda>x. (fst x, ackBytes)) ms) rest
      (appended (Some name) (concat (map (content \<circ> snd) ms)) (files w3)) w4" by blast
  have "childStep prog listed stale strerr socket sem w = Returns (sem_post sem) w4"
    using w1 o w3(1) w4(1) cString_terminated [OF nul]
    by (simp add: childStep_def Let_def serverDoPut_def)
  moreover have "after w ((a, message_bytes (putReply name)) # map (\<lambda>x. (fst x, ackBytes)) ms) rest
        ((files w)(name \<mapsto> concat (map (content \<circ> snd) ms))) w4"
    using after_trans [OF after_trans [OF a2 w3(2)] w4(2)] after_D(2) [OF w3(2)] by (simp add: appended_def)
  ultimately show ?thesis by blast
qed

lemma serverGet_spec:
  assumes ok: "processOk w" and s: "0 \<le> socket" and nul: "0 \<notin> set name"
    and pc: "0x25 \<notin> set name" and f: "access w name" "files w name = Some d"
    and c: "carries (inbox w) ((a, request GET name) # cas) rest" "length cas = length (fileChunks d)"
  shows "\<exists>w'. childStep prog listed stale strerr socket sem w = Returns (sem_post sem) w'
    \<and> after w ((a, message_bytes getReply) # map (\<lambda>d. (a, chunkBytes d)) (fileChunks d)
        @ [(a, message_bytes getReply)]) rest (files w) w'"
proof -
  from receive_carries [OF c(1) s] obtain r as where
    w1: "receiveMessageDMProtocol socket w = Returns (0, a, arrived (request GET name)) (w\<lparr>inbox := r, ackd := ackd w @ as\<rparr>)"
    and c1: "carries r cas rest" by blast
  let ?w1 = "w\<lparr>inbox := r, ackd := ackd w @ as\<rparr>"
  have a1: "after w [] r (files w) ?w1" using ok by (simp add: after_def processOk_def)
  have o: "openRead name ?w1 = Some name" using f by (simp add: openRead_def)
  from send_after [OF after_D(3) [OF a1] wf_reply(2), of addrSize socket a GET OP_STATUS_OK] obtain w2 where
    w2: "sendMessageDMProtocol socket a addrSize getReply ?w1 = Returns 0 w2"
    "after ?w1 [(a, message_bytes getReply)] (inbox ?w1) (files ?w1) w2" by auto
  have "carries (inbox w2) cas rest" using c1 after_D(1) [OF w2(2)] by simp
  from sendFile_spec [OF after_D(3) [OF w2(2)] s _ _ this c(2), of addrSize name a] f(2) after_D(2) [OF w2(2)] obtain w3 where
    w3: "sendFileDMProtocol socket a addrSize (Some name) w2 = Returns 0 w3"
    "after w2 (map (\<lambda>d. (a, chunkBytes d)) (fileChunks d)) rest (files w2) w3" by auto
  from send_after [OF after_D(3) [OF w3(2)] wf_reply(2), of addrSize socket a GET OP_STATUS_OK] obtain w4 where
    w4: "sendMessageDMProtocol socket a addrSize getReply w3 = Returns 0 w4"
    "after w3 [(a, message_bytes getReply)] (inbox w3) (files w3) w4" by auto
  have "childStep prog listed stale strerr socket sem w = Returns (sem_post sem) w4"
    using w1 o w2(1) w3(1) w4(1) cString_terminated [OF nul] pc
    by (simp add: childStep_def Let_def serverDoGet_def logPayload_def payloadText_def logged_ok)
  moreover have "after w ((a, message_bytes getReply) # map (\<lambda>d. (a, chunkBytes d)) (fileChunks d)
        @ [(a, message_bytes getReply)]) rest (files w) w4"
    using after_trans [OF after_trans [OF after_trans [OF a1 w2(2)] w3(2)] w4(2)]
      after_D(1,2) [OF w3(2)] after_D(2) [OF w2(2)] by simp
  ultimately show ?thesis by blast
qed

text \<open>The list: all names but the server's own, each followed by the separator; the buffer is
  large enough for the names as they were counted.\<close>

lemma catNames_fits:
  assumes "0x25 \<notin> set t \<union> set sep \<union> set prog" "\<forall>e\<in>set es. 0x25 \<notin> set e" "length t + sum_list (map length es) + length es * length sep < dm"
  shows "catNames dm sep prog es t = Some (t @ concat (map (\<lambda>e. e @ sep) (filter (\<lambda>e. e \<noteq> prog) es)))"
  using assms by (induction es arbitrary: t) (auto simp: logText_ok)

definition listText :: "byte list \<Rightarrow> byte list \<Rightarrow> byte list list \<Rightarrow> byte list" where
  "listText sep prog listed = (if listed = [] then sep
     else concat (map (\<lambda>e. e @ sep) (filter (\<lambda>e. e \<noteq> prog) listed)))"

lemma serverList_spec:
  assumes ok: "processOk w" and s: "0 \<le> socket" and nul: "0 \<notin> set sep"
    and st: "\<forall>i<length listed. stale i = listed ! i" and mx: "\<forall>n\<in>set listed. length n \<le> MAX_FILENAME_LENTGH"
    and pc: "0x25 \<notin> set sep \<union> set prog" "\<forall>n\<in>set listed. 0x25 \<notin> set n"
    and n: "int (length (listText sep prog listed)) \<le> INT_MAX - 13"
    and c: "carries (inbox w) [(a, request LIST sep)] rest"
  shows "\<exists>w'. childStep prog listed stale strerr socket sem w = Returns (sem_post sem) w'
    \<and> after w [(a, message_bytes (reply LIST OP_STATUS_OK (Some (listText sep prog listed @ [0]))
        (int (length (listText sep prog listed)))))] rest (files w) w'"
proof -
  from receive_carries [OF c s] obtain as where
    w1: "receiveMessageDMProtocol socket w = Returns (0, a, arrived (request LIST sep)) (w\<lparr>inbox := rest, ackd := ackd w @ as\<rparr>)"
    by auto
  let ?w1 = "w\<lparr>inbox := rest, ackd := ackd w @ as\<rparr>" and ?t = "listText sep prog listed"
  have a1: "after w [] rest (files w) ?w1" using ok by (simp add: after_def processOk_def)
  have m: "map stale [0..<length listed] = listed"
    using st by (intro nth_equalityI) simp_all
  have t: "catNames (Suc (length listed * length sep + sum_list (map length listed))) sep prog
      (map stale [0..<length listed]) [] = Some ?t" if "listed \<noteq> []"
    unfolding m using that pc by (simp add: listText_def catNames_fits)
  have e: "?t = sep" if "listed = []" using that by (simp add: listText_def)
  have wf: "wf_message (reply LIST OP_STATUS_OK (Some (?t @ [0])) (int (length ?t)))"
    using n by (intro wf_reply) simp_all
  from send_after [OF after_D(3) [OF a1] wf, of addrSize socket a] obtain w2 where
    w2: "sendMessageDMProtocol socket a addrSize (reply LIST OP_STATUS_OK (Some (?t @ [0])) (int (length ?t))) ?w1 = Returns 0 w2"
    "after ?w1 [(a, message_bytes (reply LIST OP_STATUS_OK (Some (?t @ [0])) (int (length ?t))))] (inbox ?w1) (files ?w1) w2"
    by auto
  have "\<not> (\<exists>n\<in>set listed. MAX_FILENAME_LENTGH < length n \<or> logText D (format_line ''the name file is :%s'') [Str n] = None)"
    using mx pc(2) by (auto simp: logText_ok)
  then have "serverDoList prog listed stale a (Some (sep @ [0])) socket ?w1 = Returns 0 w2"
    using w2(1) cString_terminated [OF nul] t e
    by (cases "listed = []") (simp_all add: serverDoList_def Let_def)
  then have "childStep prog listed stale strerr socket sem w = Returns (sem_post sem) w2"
    using w1 by (simp add: childStep_def Let_def)
  with after_trans [OF a1 w2(2)] show ?thesis by auto
qed

text \<open>The handshake.\<close>

lemma wf_hsResponse:
  "fp (handlerPort k) = port_bytes (handlerPort k) \<Longrightarrow> wf_message (hsResponse fp k)"
  by (auto simp: hsResponse_def noFreeText_def intro!: wf_reply)

lemma fatherStep_spec:
  assumes ok: "processOk w" and s: "0 \<le> socket"
    and c: "carries (inbox w) [(a, m)] rest" "command (message_header m) = commandCode HS"
    and r: "assignHandler hs = (k, hs')" and fp: "fp (handlerPort k) = port_bytes (handlerPort k)"
  shows "\<exists>w'. fatherStep fp socket hs w = Returns hs' w'
    \<and> after w [(a, message_bytes (hsResponse fp k))] rest (files w) w'"
proof -
  from receive_carries [OF c(1) s] obtain as where
    w1: "receiveMessageDMProtocol socket w = Returns (0, a, arrived m) (w\<lparr>inbox := rest, ackd := ackd w @ as\<rparr>)" by auto
  let ?w1 = "w\<lparr>inbox := rest, ackd := ackd w @ as\<rparr>"
  have a1: "after w [] rest (files w) ?w1" using ok by (simp add: after_def processOk_def)
  from send_after [OF after_D(3) [OF a1] wf_hsResponse [of fp, OF fp], of addrSize socket a] obtain w2 where
    w2: "sendMessageDMProtocol socket a addrSize (hsResponse fp k) ?w1 = Returns 0 w2"
    "after ?w1 [(a, message_bytes (hsResponse fp k))] (inbox ?w1) (files ?w1) w2" by auto
  have "fatherStep fp socket hs w = Returns hs' w2"
    using w1 w2(1) c(2) r by (simp add: fatherStep_def del: commandCode.simps)
  with after_trans [OF a1 w2(2)] show ?thesis by auto
qed

lemma childStep_stray:
  assumes ok: "processOk w" and s: "0 \<le> socket" and c: "carries (inbox w) [(a, m)] rest"
    and m: "command (message_header m) \<notin> {commandCode PUT, commandCode GET, commandCode LIST}"
  shows "\<exists>w'. childStep prog listed stale strerr socket sem w = Returns (sem_post sem) w' \<and> handed w' = handed w"
proof -
  from receive_carries [OF c s] obtain as where
    w1: "receiveMessageDMProtocol socket w = Returns (0, a, arrived m) (w\<lparr>inbox := rest, ackd := ackd w @ as\<rparr>)" by auto
  then show ?thesis using m by (auto simp: childStep_def Let_def simp del: commandCode.simps)
qed

text \<open>A name with a percent sign that is no directive for a string breaks the child that only logs it.\<close>

lemma childStep_percent:
  assumes "0 \<le> socket" "carries (inbox w) [(a, request GET [0x25, 0x6e])] rest"
  shows "childStep prog listed stale strerr socket sem w = Fails"
proof -
  have "logText D (format_line ''[OPERATE-DOGET] the file name is: %s'') [Str [0x25, 0x6e]] = None"
    by (simp add: logText_def logMsg_def logLine_def LOG_LEVEL_def MSG_MAX_LEN_def format_line_def ascii_def)
  then have "logPayload D (format_line ''[OPERATE-DOGET] the file name is: %s'') (Some [0x25, 0x6e, 0]) v = Fails" for v :: "'a world_scheme"
    by (simp add: logPayload_def payloadText_def cString_def logged_def)
  moreover from receive_carries [OF assms(2,1)] obtain as where
    "receiveMessageDMProtocol socket w = Returns (0, a, arrived (request GET [0x25, 0x6e])) (w\<lparr>inbox := rest, ackd := ackd w @ as\<rparr>)"
    by auto
  ultimately show ?thesis by (simp add: childStep_def Let_def del: commandCode.simps)
qed

end
