(* ===== verification/EndToEnd.thy ===== *)
theory EndToEnd
  imports Network Server
begin

text \<open>
  A client and the father and the child of a server, each a process of its own that receives what
  the others hand over: the exchange of a put and of a get, first between processes whose sockets
  carry the messages, then with the messages brought by completed transfers of \<open>Network\<close>.
\<close>

subsection \<open>The exchanges\<close>

lemma put_exchange:
  assumes "processOk f" and "processOk w" and "processOk v" and "0 \<le> fsock" and "0 \<le> vsock"
    and "getGlobalSocket w = Returns sdn w0" and "0 \<le> sdn"
    and "assignHandler hs = (k, hs')" and "0 \<le> k"
    and "fp (handlerPort k) = port_bytes (handlerPort k)"
    and "0 \<notin> set prog \<union> set name" and "int (length name) < INT_MAX - 13"
    and "access w name" and "files w name = Some d" and "access v name"
    and "carries (inbox f) [(c, hsRequest)] []"
    and "carries (inbox w) ((s0, hsResponse fp k) # map (Pair s) (putReply name
        # replicate (length (fileChunks d)) chunkHasArrivedMsg)) []"
    and "carries (inbox v) (map (Pair c) (request PUT name # map chunkMessage (fileChunks d))) []"
  shows "\<exists>f' w' v'. fatherStep fp fsock hs f = Returns hs' f'
    \<and> handed f' = handed f @ [(c, message_bytes (hsResponse fp k))]
    \<and> clientMain [prog, putName, name] w = Returns 0 w'
    \<and> handed w' = handed w @ (getServerAddress, message_bytes hsRequest)
        # map (\<lambda>m. (handlerAt (handlerPort k), message_bytes m))
            (request PUT name # map chunkMessage (fileChunks d))
    \<and> childStep sname listed stale strerr vsock sem v = Returns (sem_post sem) v'
    \<and> files v' = (files v)(name \<mapsto> d)
    \<and> handed v' = handed v @ map (\<lambda>m. (c, message_bytes m))
        (putReply name # replicate (length (fileChunks d)) chunkHasArrivedMsg)"
proof -
  have p: "content (hsResponse fp k) = port_bytes (handlerPort k)"
    "okReply HS (hsResponse fp k)" "okReply PUT (putReply name)"
    using assms(9,10) by (simp_all add: hsResponse_def okReply_def statusOk_def del: commandCode.simps statusCode.simps)
  from fatherStep_spec [where fp = fp, OF assms(1,4,16) _ assms(8,10)] obtain f' where
    f': "fatherStep fp fsock hs f = Returns hs' f'" "after f [(c, message_bytes (hsResponse fp k))] [] (files f) f'"
    by auto
  have cw: "carries (inbox w) ([] @ (s0, hsResponse fp k) # [] @ (s, putReply name)
      # map (Pair s) (replicate (length (fileChunks d)) chunkHasArrivedMsg)) []" using assms(17) by simp
  from doPut_spec [OF assms(2,6,7) cw _ p(2,1) _ p(3) assms(13,14) _ assms(12)] obtain w' where
    w': "doPut (Some name) w = Returns 0 w'"
    "after w0 ((getServerAddress, message_bytes hsRequest)
        # (handlerAt (handlerPort k), message_bytes (request PUT name))
        # map (\<lambda>d. (handlerAt (handlerPort k), chunkBytes d)) (fileChunks d))
      [] (files w) w'"
    by (auto simp: otherReplies_def)
  have "handed w0 = handed w" using truncate_D(1) getGlobalSocket_keeps [OF assms(6)] by blast
  have "clientMain [prog, putName, name] w = Returns 0 w'"
    using clientMain_named [of putName PUT prog "[name]" w] assms(11) w'(1) by (simp add: doCommand_def)
  moreover have cv: "carries (inbox v) ((c, request PUT name) # map (Pair c) (map chunkMessage (fileChunks d))) []"
    using assms(18) by simp
  have "transfer (map snd (map (Pair c) (map chunkMessage (fileChunks d))))"
    using transfer_chunks [of d] by (simp add: comp_def)
  from serverPut_spec [OF assms(3,5) _ assms(12,15) cv this, of sname listed stale strerr sem] assms(11) obtain v' where
    v': "childStep sname listed stale strerr vsock sem v = Returns (sem_post sem) v'"
    "after v ((c, message_bytes (putReply name)) # map (\<lambda>x. (fst x, ackBytes)) (map (Pair c) (map chunkMessage (fileChunks d))))
      [] ((files v)(name \<mapsto> concat (map (content \<circ> snd) (map (Pair c) (map chunkMessage (fileChunks d)))))) v'"
    by auto
  ultimately show ?thesis
    using f'(1) v'(1) after_D(4) [OF f'(2)] after_D(4) [OF w'(2)] after_D(4) [OF v'(2)] after_D(2) [OF v'(2)]
      \<open>handed w0 = handed w\<close>
    by (simp add: comp_def concat_fileChunks map_replicate_const)
qed

lemma get_exchange:
  assumes "processOk w" and "processOk v" and "0 \<le> vsock"
    and "getGlobalSocket w = Returns sdn w0" and "0 \<le> sdn" and "0 \<le> k"
    and "fp (handlerPort k) = port_bytes (handlerPort k)" and "0x25 \<notin> set name"
    and "0 \<notin> set prog \<union> set name" and "int (length name) < INT_MAX - 13"
    and "access v name" and "files v name = Some d"
    and "carries (inbox w) ((s0, hsResponse fp k) # map (Pair s) (getReply
        # map chunkMessage (fileChunks d) @ [getReply])) []"
    and "carries (inbox v) (map (Pair c) (request GET name
        # replicate (length (fileChunks d)) chunkHasArrivedMsg)) []"
  shows "\<exists>w' v'. clientMain [prog, getName, name] w = Returns 0 w'
    \<and> files w' = (if access w name then (files w)(name \<mapsto> d) else files w)
    \<and> handed w' = handed w @ (getServerAddress, message_bytes hsRequest)
        # (handlerAt (handlerPort k), message_bytes (request GET name))
        # replicate (length (fileChunks d)) (s, message_bytes chunkHasArrivedMsg)
    \<and> childStep sname listed stale strerr vsock sem v = Returns (sem_post sem) v'
    \<and> files v' = files v
    \<and> handed v' = handed v @ map (\<lambda>m. (c, message_bytes m))
        (getReply # map chunkMessage (fileChunks d) @ [getReply])"
proof -
  have p: "content (hsResponse fp k) = port_bytes (handlerPort k)"
    "okReply HS (hsResponse fp k)" "okReply GET getReply"
    using assms(6,7) by (simp_all add: hsResponse_def okReply_def statusOk_def del: commandCode.simps statusCode.simps)
  have cw: "carries (inbox w) ([] @ (s0, hsResponse fp k) # [] @ (s, getReply)
      # map (Pair s) (map chunkMessage (fileChunks d)) @ [] @ (s, getReply) # []) []" using assms(13) by simp
  have tr: "transfer (map snd (map (Pair x) (map chunkMessage (fileChunks d))))" for x :: sockaddr_in
    using transfer_chunks [of d] by (simp add: comp_def)
  from doGet_spec [OF assms(1,4,5) cw _ p(2,1) _ p(3) tr _ p(3) assms(10,8)] obtain w' where
    w': "doGet (Some name) w = Returns 0 w'"
    "files w' = (if access w name then (files w)(name \<mapsto> d) else files w)"
    "handed w' = handed w @ (getServerAddress, message_bytes hsRequest)
        # (handlerAt (handlerPort k), message_bytes (request GET name))
        # replicate (length (fileChunks d)) (s, ackBytes)"
    by (auto simp: otherReplies_def comp_def concat_fileChunks map_replicate_const)
  have "clientMain [prog, getName, name] w = Returns 0 w'"
    using clientMain_named [of getName GET prog "[name]" w] assms(9) w'(1) by (simp add: doCommand_def)
  moreover have cv: "carries (inbox v) ((c, request GET name)
      # map (Pair c) (replicate (length (fileChunks d)) chunkHasArrivedMsg)) []" using assms(14) by simp
  from serverGet_spec [OF assms(2,3) _ assms(8,11,12) cv, of sname listed stale strerr sem] assms(9) obtain v' where
    v': "childStep sname listed stale strerr vsock sem v = Returns (sem_post sem) v'"
    "after v ((c, message_bytes getReply) # map (\<lambda>d. (c, chunkBytes d)) (fileChunks d)
        @ [(c, message_bytes getReply)]) [] (files v) v'"
    by auto
  ultimately show ?thesis
    using w'(2,3) v'(1) after_D(4) [OF v'(2)] after_D(2) [OF v'(2)] by (simp add: comp_def)
qed

subsection \<open>Over the network\<close>

text \<open>A socket that two peers write to, one after the other.\<close>

lemma two_peers_carry:
  assumes "completes ok s0 m d0" "list_all2 (completes ok s) ms dss"
  shows "carries (from_peer s0 d0 @ from_peer s (concat dss)) ((s0, m) # map (Pair s) ms) []"
proof -
  have "carries (from_peer s0 d0 @ from_peer s (concat dss)) ([(s0, m)] @ map (Pair s) ms) []"
    unfolding carries_append using completes_carries [OF assms(1)] transfers_carry [OF assms(2)] by blast
  then show ?thesis by simp
qed

lemma one_transfer_carries: "completes ok c m d \<Longrightarrow> carries (from_peer c d) [(c, m)] []"
  using completes_carries [of ok c m d "[]"] by simp

text \<open>A message of one packet, from a launcher that has not sent anything yet.\<close>

lemma completes_first:
  assumes "wf_message m" "numOfPackets (message_bytes m) \<le> 1000"
  shows "\<exists>ds. completes True sa m ds"
proof -
  have "\<exists>s0. started (message_bytes m) exampleSender s0"
    unfolding exampleSender_def using assms(2)
    by (intro started_init) (simp_all add: msg_id_inv_def message_bytes_not_Nil)
  then obtain s0 where "started (message_bytes m) exampleSender s0" ..
  with assms(1) show ?thesis by (rule completes_exists)
qed

lemma completes_all:
  assumes "\<forall>m\<in>set ms. wf_message m \<and> numOfPackets (message_bytes m) \<le> 1000"
  shows "\<exists>dss. list_all2 (completes True sa) ms dss"
  using assms
proof (induction ms)
  case (Cons m ms)
  then show ?case using completes_first [of m sa] by (fastforce simp: list_all2_Cons1)
qed (auto intro: exI [of _ "[]"])

text \<open>The launcher as a process finds it when it hands over its next message.\<close>

abbreviation launcherNow :: "'z world_scheme \<Rightarrow> gbnState" where
  "launcherNow w \<equiv> launcherTurn w (length (handed w)) (gbn w)"

text \<open>The example processes on other sockets.\<close>

lemma processOk_inbox [simp]: "processOk (w\<lparr>inbox := i\<rparr>) = processOk w"
  by (simp add: processOk_def)

lemma exampleClient_socket:
  "\<exists>w0. getGlobalSocket ((exampleClient fs src ms)\<lparr>inbox := i\<rparr>) = Returns 3 w0"
  by (simp add: exampleClient_def world.defs exampleProcess_def getGlobalSocket_def bindLoop.simps [of _ _ MIN_PORT])

lemma example_idle: "numOfPackets (message_bytes m) \<le> 1000 \<Longrightarrow> senderIdle (exampleProcess fs src ms) m"
proof -
  assume "numOfPackets (message_bytes m) \<le> 1000"
  moreover have "idle (launch exampleSender)" using example_started by (auto simp: started_def)
  ultimately show ?thesis using example_battery(1,5)
    by (simp add: senderIdle_def exampleProcess_def QUEUE_LEN_def)
qed

lemma short_message: "length (message_bytes m) \<le> 10000 \<Longrightarrow> numOfPackets (message_bytes m) \<le> 1000"
  by (simp add: numOfPackets_eq)

end
