(* ===== verification/Session.thy ===== *)
theory Session
  imports Network
begin

text \<open>
  One launcher over several messages. First, what the launcher's threads do by themselves: handle a
  pending event, a round of the timer, an honest acknowledgement. These moves are what \<open>benign\<close> of
  \<open>DmProtocol\<close> assumes of the threads between two sends. Then sessions: messages handed over one
  after another to the same launcher, each when the one before is done, with the state that the
  transfer left, its table and its position in the ring.
\<close>

subsection \<open>The launcher's own moves\<close>

inductive launcherMove :: "launcherState \<Rightarrow> launcherState \<Rightarrow> bool" where
  event: "sig \<in> set (pending L) \<Longrightarrow>
    launcherSigHandler env sig (L\<lparr>pending := remove1 sig (pending L)\<rparr>) = Some L' \<Longrightarrow> launcherMove L L'"
| round: "timerRound (ltimer L) = (r, t') \<Longrightarrow>
    launcherMove L (if r then ringLauncher (L\<lparr>ltimer := t'\<rparr>) else L\<lparr>ltimer := t'\<rparr>)"
| acknowledgement: "wf_packet ack \<Longrightarrow> data ack = [] \<Longrightarrow> isAck (hdr ack) \<Longrightarrow>
    (ackAccepted (received (wire_bytes ack) L) ack \<Longrightarrow> ackHonest (received (wire_bytes ack) L) ack) \<Longrightarrow>
    listenForAcksStep now (wire_bytes ack) L = Some L' \<Longrightarrow> launcherMove L L'"

text \<open>The moves register nothing: the identifiers in the table can only become fewer.\<close>

definition registered :: "launcherState \<Rightarrow> int set" where
  "registered L = {i. c_int i \<and> tableOf L i \<noteq> None}"

lemma launcherMove_keeps:
  assumes "launcherMove L L'" "launcher_inv L"
  shows "launcher_inv L' \<and> registered L' \<subseteq> registered L \<and> winsize (bs L') = winsize (bs L)"
  using assms
proof (induction rule: launcherMove.induct)
  case (event sig L env L')
  have "launcher_inv (L\<lparr>pending := remove1 sig (pending L)\<rparr>)" using event.prems by simp
  from launcherSigHandler_inv [OF this, of env sig] event.hyps(2) show ?case by (auto simp: registered_def)
next
  case (round L r t')
  then show ?case by (simp add: registered_def ringLauncher_def launcher_inv_def notifyLauncher_def)
next
  case (acknowledgement ack L now L')
  let ?L1 = "received (wire_bytes ack) L"
  have "length (wire_bytes ack) = 24" using acknowledgement.hyps(2) by (simp add: wire_bytes_def)
  note li = launcher_inv_received [OF acknowledgement.prems this]
  from acknowledgement.hyps(5) listenForAcksStep_packet [OF acknowledgement.prems acknowledgement.hyps(1,2), of now]
  obtain L2 where L2: "processAck now ack ?L1 = Some L2" "L' = L2\<lparr>eventsBlocked := False\<rparr>"
    using acknowledgement.hyps(3) by auto
  show ?case
  proof (cases "ackAccepted ?L1 ack")
    case False
    with processAck_ignored [OF li False, of now] L2 li show ?thesis by (simp add: registered_def)
  next
    case True
    from processAck_slides [OF li True acknowledgement.hyps(4) [OF True], of now] L2(1)
    have "launcher_inv L2" "slid now ack ?L1 L2" by auto
    then show ?thesis using L2(2) by (auto simp: registered_def slid_def Let_def split: if_splits)
  qed
qed

lemma launcherMoves_keep:
  assumes "launcherMove\<^sup>*\<^sup>* L L'" "launcher_inv L"
  shows "launcher_inv L' \<and> registered L' \<subseteq> registered L \<and> winsize (bs L') = winsize (bs L)"
  using assms
proof (induction rule: rtranclp_induct)
  case (step L1 L2)
  with launcherMove_keeps [OF step.hyps(2)] show ?case by auto
qed simp

lemma fresh_registered: "fresh g \<longleftrightarrow> (\<forall>i\<in>registered (launch g). 0 \<le> i \<and> i < lastMsgId g)"
  by (auto simp: fresh_def registered_def)

text \<open>Threads that run the launcher's own code between two sends are as \<open>benign\<close> demands; at the wrap
  of the counter they have to have released every message.\<close>

lemma launcher_moves_benign:
  assumes "\<And>n g. gbnInv g \<Longrightarrow> fresh g \<or> lastMsgId g = 0 \<Longrightarrow>
      launcherMove\<^sup>*\<^sup>* (launch g) (launch (turn n g)) \<and> lastMsgId (turn n g) = lastMsgId g"
    and "\<And>n g. gbnInv g \<Longrightarrow> lastMsgId g = 0 \<Longrightarrow> registered (launch (turn n g)) = {}"
  shows "benign turn"
proof -
  have "gbnInv (turn n g) \<and> fresh (turn n g) \<and> lastMsgId (turn n g) = lastMsgId g"
    if g: "gbnInv g" "fresh g \<or> lastMsgId g = 0" for n g
  proof -
    note T = assms(1) [OF g, of n]
    with launcherMoves_keep [of "launch g" "launch (turn n g)"] g(1)
    have "launcher_inv (launch (turn n g))" "registered (launch (turn n g)) \<subseteq> registered (launch g)"
      by (auto simp: gbnInv_def)
    then show ?thesis using T g assms(2) [OF g(1), of n] by (auto simp: gbnInv_def fresh_registered)
  qed
  then show ?thesis by (simp add: benign_def)
qed

subsection \<open>Transfers are made of these moves\<close>

lemma step_moves:
  assumes inv: "sysInv sa start mid ps B R s" and st: "sysStep ok sa s s'"
  shows "sender s' = sender s \<or> launcherMove (sender s) (sender s')"
  using st
proof (cases rule: sysStep.cases)
  case (signal sig env l')
  with launcherMove.event [OF signal(2,5)] show ?thesis by simp
next
  case (timer r t' l')
  with launcherMove.round [OF timer(3)] show ?thesis by simp
next
  case (ack bytes now l')
  have m: "message_packets start mid ps" "senderInv start ps B (sender s)" "R \<le> length ps"
    "int R \<le> int B + winsize (bs (sender s))" using inv by (simp_all add: sysInv_def catching_def)
  from inv ack(2) obtain i r where i: "i < length ps" "0 < r" "r \<le> R"
    "bytes = wire_bytes (ackFor (ps ! i) ((start + int r) mod QUEUE_LEN))"
    by (auto simp: sysInv_def ack_of_def)
  let ?ack = "ackFor (ps ! i) ((start + int r) mod QUEUE_LEN)"
  have "r \<le> length ps" "int r \<le> int B + winsize (bs (sender s))" using i(3) m(3,4) by linarith+
  note H = message_ack_honest [OF m(2,1) i(1,2) this refl]
  have "launcherMove (sender s) l'"
  proof (rule launcherMove.acknowledgement)
    show "wf_packet ?ack" using wf_ackFor [OF packet_at(1) [OF m(1) i(1)]] by (simp add: c_int_ring)
    show "listenForAcksStep now (wire_bytes ?ack) (sender s) = Some l'" using ack(4) i(4) by simp
  qed (use H in simp_all)
  then show ?thesis using ack(1) by simp
qed simp

lemma reachable_moves:
  assumes "reachable ok sa s0 s" "sysInv sa start mid ps B R s0"
  shows "launcherMove\<^sup>*\<^sup>* (sender s0) (sender s)"
  using assms(1) [unfolded reachable_def]
proof (induction rule: rtranclp_induct)
  case (step s1 s2)
  from step.hyps(1) reachable_sysInv [OF _ assms(2), of ok s1] obtain B1 R1 where
    "sysInv sa start mid ps B1 R1 s1" by (auto simp: reachable_def)
  from step_moves [OF this step.hyps(2)] step.IH show ?case by (auto intro: rtranclp.rtrancl_into_rtrancl)
qed simp

subsection \<open>The state a transfer leaves\<close>

text \<open>The events that are left when everything is acknowledged find nothing to launch.\<close>

lemma settle:
  assumes "sysInv sa start mid ps (length ps) R s"
  shows "\<exists>s'. steps sa s s' \<and> sysInv sa start mid ps (length ps) R s' \<and> pending (sender s') = []"
  using assms
proof (induction "length (pending (sender s))" arbitrary: s)
  case 0
  then show ?case by auto
next
  case (Suc n)
  then obtain sig where sig: "sig \<in> set (pending (sender s))" by (cases "pending (sender s)") auto
  have i: "senderInv start ps (length ps) (sender s)" using Suc.prems by (simp add: sysInv_def)
  let ?L1 = "(sender s)\<lparr>pending := remove1 sig (pending (sender s))\<rparr>"
  have "launcher_inv ?L1" using senderInv_D(1) [OF i] by simp
  from launcherSigHandler_inv [OF this, of goodEnv sig] obtain L' where
    h: "launcherSigHandler goodEnv sig ?L1 = Some L'" by blast
  have "sysStep True sa s (s\<lparr>sender := L'\<rparr>)"
    by (rule sysStep.signal [OF sig senderInv_D(4) [OF i] _ h]) simp
  moreover have "n = length (pending (sender (s\<lparr>sender := L'\<rparr>)))"
    using Suc.hyps(2) senderInv_signal(5) [OF i sig h] sig by (simp add: length_remove1)
  moreover note Suc.hyps(1) [OF calculation(2) sysInv_signal [OF Suc.prems sig h]]
  ultimately show ?case by (meson converse_rtranclp_into_rtranclp)
qed

text \<open>A transfer is over when the receiver is done, everything is acknowledged and no event is left.
  The next message finds the launcher in this state, with an empty wire: a session is a run in which the
  network has lost, or brought to the reader in time, every datagram of a message before the next
  message starts. That is a condition on the network, no step of the code; what a late datagram
  does to a reader is shown in \<open>Strays\<close>.\<close>

definition over :: "system \<Rightarrow> bool" where
  "over s \<longleftrightarrow> \<not> morePackets (receiver s) \<and> waiting (sender s) = [] \<and> pending (sender s) = []"

definition drained :: "launcherState \<Rightarrow> launcherState" where
  "drained l = l\<lparr>wire := []\<rparr>"

definition nextGbn :: "gbnState \<Rightarrow> system \<Rightarrow> gbnState" where
  "nextGbn g s = \<lparr>launch = drained (sender s), lastMsgId = (lastMsgId g + 1) mod INT_MAX\<rparr>"

lemma transfer_over:
  assumes st: "started msg g s0" and r: "reachable True sa s0 s"
  shows "\<exists>s'. reachable True sa s s' \<and> over s'"
proof -
  let ?ps = "stampedPackets (wbase (launch g)) (lastMsgId g) msg"
  from reachable_live [OF r started_sysInv [OF st]] obtain B R where
    i: "sysInv sa (wbase (launch g)) (lastMsgId g) ?ps B R s" "liveInv ?ps B (sender s)" by blast
  from progress_all [OF i] obtain u R' where
    u: "steps sa s u" "sysInv sa (wbase (launch g)) (lastMsgId g) ?ps (length ?ps) R' u" by auto
  from settle [OF u(2)] obtain s' where s': "steps sa u s'"
    "sysInv sa (wbase (launch g)) (lastMsgId g) ?ps (length ?ps) R' s'" "pending (sender s') = []" by blast
  note F = sysInv_received [OF s'(2)]
  have "R' = length ?ps" using F(2,5) by simp
  then have "over s'" using F(3,7) s'(3) by (simp add: over_def)
  moreover have "steps sa s s'" using u(1) s'(1) by simp
  ultimately show ?thesis by (auto simp: reachable_def)
qed

lemma started_enqueued:
  assumes "started msg g s0"
  shows "\<exists>e. enqueued msg (lastMsgId g) e (launch g) (sender s0)"
proof -
  from assms obtain sdn dst alen handler g' where id: "idle (launch g)" and mi: "msg_id_inv (lastMsgId g)"
    and fr: "tableOf (launch g) (lastMsgId g) = None" and ne: "msg \<noteq> []" and al: "alen \<le> addrSize"
    and n: "int (numOfPackets msg) + winsize (bs (launch g)) \<le> QUEUE_LEN"
    and sm: "sendMessageGbn sdn dst alen msg (length msg) handler g = Some (0, g')"
    and s: "sender s0 = launch g'"
    unfolding started_def by auto
  have li: "launcher_inv (launch g)" "busy (launch g) = 0" using id by (simp_all add: idle_def)
  have "int (numOfPackets msg) \<le> contiguousPadsAvailable (battery (bs (launch g)))"
    using li(2) n launcher_inv_D(8) [OF li(1)] by (simp add: used_def)
  with sendMessageGbn_spec [OF li(1) mi fr ne al, of sdn dst handler] sm s show ?thesis by auto
qed

lemma started_registers:
  assumes "started msg g s0"
  shows "registered (sender s0) \<subseteq> insert (lastMsgId g) (registered (launch g))"
    and "winsize (bs (sender s0)) = winsize (bs (launch g))"
  using started_enqueued [OF assms] by (auto simp: registered_def enqueued_def split: if_splits)

lemma started_pads:
  assumes "started msg g s0" "0 \<le> k" "k < int (numOfPackets msg)"
  shows "status (padOf (sender s0) k) = READY"
proof -
  have "busy (launch g) = 0" using assms(1) by (simp add: started_def idle_def)
  with started_enqueued [OF assms(1)] assms(2,3) show ?thesis by (auto simp: enqueued_def)
qed

lemma over_next:
  assumes st: "started msg g s0" and r: "reachable ok sa s0 s" and o: "over s" and fr: "fresh g"
  shows "idle (launch (nextGbn g s))"
    and "fresh (nextGbn g s) \<or> lastMsgId (nextGbn g s) = 0"
    and "wbase (launch (nextGbn g s)) = (wbase (launch g) + int (numOfPackets msg)) mod QUEUE_LEN"
    and "winsize (bs (launch (nextGbn g s))) = winsize (bs (launch g))"
proof -
  let ?ps = "stampedPackets (wbase (launch g)) (lastMsgId g) msg"
  from started_reachable [OF st r] obtain B R where
    i: "sysInv sa (wbase (launch g)) (lastMsgId g) ?ps B R s" by blast
  have B: "B = length ?ps" using sysInv_received(7) [OF i] o by (simp add: over_def)
  have s: "senderInv (wbase (launch g)) ?ps (length ?ps) (sender s)" using i B by (simp add: sysInv_def)
  note S = senderInv_D [OF s]
  show "idle (launch (nextGbn g s))"
    using S(1-4,6,10) o by (simp add: idle_def nextGbn_def drained_def over_def inv_wire timer_ok_def signals_ok_def)
  show "wbase (launch (nextGbn g s)) = (wbase (launch g) + int (numOfPackets msg)) mod QUEUE_LEN"
    using S(9) by (simp add: nextGbn_def drained_def)
  note M = launcherMoves_keep [OF reachable_moves [OF r started_sysInv(1) [OF st]]]
  have li: "launcher_inv (sender s0)" using started_sysInv(1) [OF st] by (simp add: sysInv_def senderInv_def)
  show "winsize (bs (launch (nextGbn g s))) = winsize (bs (launch g))"
    using M [OF li] started_registers(2) [OF st] by (simp add: nextGbn_def drained_def)
  have "registered (launch (nextGbn g s)) = registered (sender s)" by (simp add: nextGbn_def drained_def registered_def)
  then have "registered (launch (nextGbn g s)) \<subseteq> insert (lastMsgId g) (registered (launch g))"
    using M [OF li] started_registers(1) [OF st] by blast
  then show "fresh (nextGbn g s) \<or> lastMsgId (nextGbn g s) = 0"
    using st by (intro fresh_next [OF fr]) (auto simp: nextGbn_def drained_def started_def registered_def)
qed

subsection \<open>Sessions\<close>

text \<open>The messages \<open>msgs\<close> from the launcher of \<open>g\<close>, which is left as in the last state: for each
  message what its receiver heard.\<close>

inductive session :: "bool \<Rightarrow> sockaddr_in \<Rightarrow> gbnState \<Rightarrow> byte list list \<Rightarrow> byte list list list \<Rightarrow> gbnState \<Rightarrow> bool"
  for ok sa where
  closed: "session ok sa g [] [] g"
| transferred: "started msg g s0 \<Longrightarrow> heard ok sa s0 ds s \<Longrightarrow> over s \<Longrightarrow>
    session ok sa (nextGbn g s) msgs dss g' \<Longrightarrow> session ok sa g (msg # msgs) (ds # dss) g'"

inductive_cases session_NilE: "session ok sa g [] dss g'"
inductive_cases session_ConsE: "session ok sa g (msg # msgs) dss g'"

lemma session_completes:
  assumes "session ok sa g msgs dss g'" "msgs = map message_bytes ms" "\<forall>m\<in>set ms. wf_message m"
  shows "list_all2 (completes ok sa) ms dss"
  using assms
proof (induction arbitrary: ms rule: session.induct)
  case (transferred msg g s0 ds s msgs dss g')
  then obtain m ms' where ms: "ms = m # ms'" "msg = message_bytes m" "msgs = map message_bytes ms'" by auto
  with transferred have "completes ok sa m ds" by (auto simp: completes_def over_def)
  with transferred.IH [OF ms(3)] transferred.prems(2) ms(1) show ?case by simp
qed simp

text \<open>The launcher is idle and the next identifier is free: it can take any message that fits.\<close>

definition ready :: "gbnState \<Rightarrow> bool" where
  "ready g \<longleftrightarrow> idle (launch g) \<and> msg_id_inv (lastMsgId g) \<and> fresh g"

lemma ready_starts:
  assumes "ready g" "msg \<noteq> []" "int (numOfPackets msg) + winsize (bs (launch g)) \<le> QUEUE_LEN"
  shows "\<exists>s0. started msg g s0"
proof -
  have i: "idle (launch g)" "launcher_inv (launch g)" "msg_id_inv (lastMsgId g)"
    "tableOf (launch g) (lastMsgId g) = None"
    using assms(1) fresh_free [of g] by (simp_all add: ready_def idle_def)
  have "int (numOfPackets msg) \<le> contiguousPadsAvailable (battery (bs (launch g)))"
    using i(1) assms(3) launcher_inv_D(8) [OF i(2)] by (simp add: idle_def used_def)
  with sendMessageGbn_spec [OF i(2-4) assms(2) order.refl, of 0 zeroAddr None] obtain g' where
    "sendMessageGbn 0 zeroAddr addrSize msg (length msg) None g = Some (0, g')" by auto
  then have "started msg g \<lparr>sender = launch g', receiver = listenForDataInit\<rparr>"
    unfolding started_def using i assms(2,3) by blast
  then show ?thesis ..
qed

text \<open>While the counter does not wrap, every list of messages can be brought over, and the launcher is
  ready again.\<close>

lemma session_exists:
  assumes "ready g" "lastMsgId g + int (length msgs) < INT_MAX"
    and "\<forall>msg\<in>set msgs. msg \<noteq> [] \<and> int (numOfPackets msg) + winsize (bs (launch g)) \<le> QUEUE_LEN"
  shows "\<exists>dss g'. session True sa g msgs dss g' \<and> ready g' \<and> lastMsgId g' = lastMsgId g + int (length msgs)
    \<and> winsize (bs (launch g')) = winsize (bs (launch g))"
  using assms
proof (induction msgs arbitrary: g)
  case Nil
  then show ?case by (auto intro: session.closed)
next
  case (Cons msg msgs)
  from ready_starts [OF Cons.prems(1)] Cons.prems(3) obtain s0 where st: "started msg g s0" by auto
  have "reachable True sa s0 s0" by (simp add: reachable_def)
  from transfer_over [OF st this] obtain s where s: "reachable True sa s0 s" "over s" by blast
  have f: "fresh g" "0 \<le> lastMsgId g" using Cons.prems(1) by (simp_all add: ready_def msg_id_inv_def)
  note N = over_next [OF st s f(1)]
  have id: "lastMsgId (nextGbn g s) = lastMsgId g + 1"
    using Cons.prems(2) f(2) by (simp add: nextGbn_def)
  have "ready (nextGbn g s)"
    using N(1,2) id f(2) Cons.prems(2) by (auto simp: ready_def msg_id_inv_def)
  from Cons.IH [OF this] id Cons.prems(2,3) N(4) obtain dss g' where
    g': "session True sa (nextGbn g s) msgs dss g'" "ready g'"
    "lastMsgId g' = lastMsgId g + 1 + int (length msgs)" "winsize (bs (launch g')) = winsize (bs (launch g))" by auto
  from reachable_heard [OF s(1)] obtain ds where "heard True sa s0 ds s" by blast
  from session.transferred [OF st this s(2) g'(1)] g' show ?case by fastforce
qed

lemma session_ready:
  assumes "session ok sa g msgs dss g'" "ready g" "lastMsgId g + int (length msgs) < INT_MAX"
  shows "ready g' \<and> lastMsgId g' = lastMsgId g + int (length msgs)"
  using assms
proof (induction rule: session.induct)
  case (transferred msg g s0 ds s msgs dss g')
  have f: "fresh g" "0 \<le> lastMsgId g" using transferred.prems(1) by (simp_all add: ready_def msg_id_inv_def)
  note N = over_next [OF transferred.hyps(1) heard_reachable [OF transferred.hyps(2)] transferred.hyps(3) f(1)]
  have id: "lastMsgId (nextGbn g s) = lastMsgId g + 1"
    using transferred.prems(2) f(2) by (simp add: nextGbn_def)
  have "ready (nextGbn g s)"
    using N(1,2) id f(2) transferred.prems(2) by (auto simp: ready_def msg_id_inv_def)
  with transferred.IH id transferred.prems(2) show ?case by simp
qed simp

lemma ready_init: "ready exampleSender"
  using example_started fresh_init [where g = exampleSender and a = 34 and b = 64 and c = 5000] unfolding ready_def started_def
  by (auto simp: exampleSender_def)

end
