(* ===== verification/Stall.thy ===== *)
theory Stall
  imports Session
begin

text \<open>
  Acknowledgements that are lost at the end of the ring. The launcher does not accept an
  acknowledgement that reaches from its base beyond the last index of the ring (gbn/launcher.c,
  the test before the loop over the acknowledged pads), and the receiver always acknowledges all it has.
  So when the receiver is beyond the end of the ring and the acknowledgements it sent before are
  lost, the sender's base never moves again, however often it repeats its packets.
\<close>

subsection \<open>Lost acknowledgements\<close>

abbreviation withAcks :: "(sockaddr_in \<times> byte list) list \<Rightarrow> system \<Rightarrow> system" where
  "withAcks as s \<equiv> \<lparr>sender = sender s, receiver = (receiver s)\<lparr>acks := as\<rparr>\<rparr>"

definition lostAcks :: "system \<Rightarrow> system" where
  "lostAcks s = withAcks [] s"

lemma acceptPacket_acks:
  "acceptPacket p (st\<lparr>acks := a\<rparr>) = map_option (\<lambda>s. s\<lparr>acks := a\<rparr>) (acceptPacket p st)"
  "acceptPacket p st = Some st' \<Longrightarrow> acks st' = acks st"
  by (auto simp: acceptPacket_def startReception_def Let_def split: if_splits)

lemma sendAck_acks:
  "sendAck p st = Some st' \<Longrightarrow> \<exists>new. acks st' = acks st @ new \<and> (\<forall>a. sendAck p (st\<lparr>acks := a\<rparr>) = Some (st'\<lparr>acks := a @ new\<rparr>))"
  by (auto simp: sendAck_def split: bind_splits)

text \<open>What the receiver does does not depend on the acknowledgements it sent before.\<close>

lemma listenForDataStep_acks:
  assumes "listenForDataStep src d st = Some st'"
  shows "\<exists>new. acks st' = acks st @ new
    \<and> (\<forall>a. listenForDataStep src d (st\<lparr>acks := a\<rparr>) = Some (st'\<lparr>acks := a @ new\<rparr>))"
proof -
  let ?st0 = "st\<lparr>byteBuf := overwrite (byteBuf st) (take (nat MTU) d), senderAddrBuf := src\<rparr>"
  obtain p where p: "deserializePacket (byteBuf ?st0) = Some p"
    using assms by (cases "deserializePacket (byteBuf ?st0)") (simp_all add: listenForDataStep_def Let_def)
  let ?o = "expectedSeqNum st = - 1 \<and> isFirst (hdr p) \<or> index (hdr p) = expectedSeqNum st"
  let ?tail = "\<lambda>s. if \<not> ?o \<and> expectedSeqNum s = - 1 \<and> isFirst (hdr p) then Some s
    else if expectedSeqNum s \<noteq> - 1 \<or> isFirst (hdr p) then sendAck p s else Some s"
  show ?thesis
  proof (cases "isAck (hdr p)")
    case True
    then show ?thesis using assms p by (intro exI [of _ "[]"]) (auto simp: listenForDataStep_def)
  next
    case False
    have cm: "(st\<lparr>acks := a\<rparr>)\<lparr>byteBuf := overwrite (byteBuf (st\<lparr>acks := a\<rparr>)) (take (nat MTU) d), senderAddrBuf := src\<rparr>
        = ?st0\<lparr>acks := a\<rparr>" for a by (cases st) simp
    have step: "listenForDataStep src d (st\<lparr>acks := a\<rparr>) =
        (if ?o then acceptPacket p (?st0\<lparr>acks := a\<rparr>) else Some (?st0\<lparr>acks := a\<rparr>)) \<bind> ?tail" for a
      unfolding listenForDataStep_def cm using p False by (simp add: Let_def)
    have "listenForDataStep src d st = (if ?o then acceptPacket p ?st0 else Some ?st0) \<bind> ?tail"
      using p False by (simp add: listenForDataStep_def Let_def)
    with assms obtain st1 where st1: "(if ?o then acceptPacket p ?st0 else Some ?st0) = Some st1" "?tail st1 = Some st'"
      by (cases "if ?o then acceptPacket p ?st0 else Some ?st0") simp_all
    have a1: "acks st1 = acks st" using st1(1) acceptPacket_acks(2) [of p ?st0 st1] by (auto split: if_splits)
    have c1: "(if ?o then acceptPacket p (?st0\<lparr>acks := a\<rparr>) else Some (?st0\<lparr>acks := a\<rparr>)) = Some (st1\<lparr>acks := a\<rparr>)" for a
      using st1(1) acceptPacket_acks(1) [where p = p and st = ?st0 and a = a] by (auto split: if_splits)
    have "\<exists>new. acks st' = acks st1 @ new \<and> (\<forall>a. ?tail (st1\<lparr>acks := a\<rparr>) = Some (st'\<lparr>acks := a @ new\<rparr>))"
    proof (cases "(?o \<or> \<not> (expectedSeqNum st1 = - 1 \<and> isFirst (hdr p))) \<and> (expectedSeqNum st1 \<noteq> - 1 \<or> isFirst (hdr p))")
      case True
      then have t: "?tail (st1\<lparr>acks := a\<rparr>) = sendAck p (st1\<lparr>acks := a\<rparr>)" for a by auto
      from True have "sendAck p st1 = Some st'" using st1(2) by (simp split: if_splits)
      from sendAck_acks [OF this] show ?thesis unfolding t .
    next
      case False
      then have t: "?tail (st1\<lparr>acks := a\<rparr>) = Some (st1\<lparr>acks := a\<rparr>)" for a by auto
      from False have "st' = st1" using st1(2) by (simp split: if_splits) auto
      then show ?thesis unfolding t by simp
    qed
    then show ?thesis unfolding step c1 a1 by simp
  qed
qed

subsection \<open>The stall\<close>

text \<open>The sender has \<open>B\<close> packets acknowledged, the receiver has more than the \<open>E\<close> packets up to the
  end of the ring, and so says every acknowledgement that can still arrive; \<open>as\<close> are all that
  were ever sent.\<close>

definition stalled :: "sockaddr_in \<Rightarrow> int \<Rightarrow> int \<Rightarrow> packet list \<Rightarrow> nat \<Rightarrow> nat \<Rightarrow> system \<Rightarrow> bool" where
  "stalled sa start mid ps B E s \<longleftrightarrow> start + int E = QUEUE_LEN \<and> B < E
     \<and> (\<exists>as R. sysInv sa start mid ps B R (withAcks as s) \<and> E < R
          \<and> (\<forall>a\<in>set (acks (receiver s)). \<exists>i<length ps. \<exists>r. E < r \<and> r \<le> R \<and>
               a = (sa\<lparr>sin_port := listenPort (sender s)\<rparr>, wire_bytes (ackFor (ps ! i) ((start + int r) mod QUEUE_LEN)))))"

lemma stalled_packet:
  assumes st: "stalled sa start mid ps B E s" and x: "(sdn, dst, bytes) \<in> set (wire (sender s))"
    and mo: "morePackets (receiver s)" and r': "listenForDataStep sa bytes (receiver s) = Some r'"
  shows "stalled sa start mid ps B E (s\<lparr>receiver := r'\<rparr>)"
proof -
  let ?to = "sa\<lparr>sin_port := listenPort (sender s)\<rparr>"
  from st obtain as R where E: "start + int E = QUEUE_LEN" "B < E" "E < R" and i: "sysInv sa start mid ps B R (withAcks as s)"
    and as: "\<forall>a\<in>set (acks (receiver s)). \<exists>i<length ps. \<exists>r. E < r \<and> r \<le> R \<and>
               a = (?to, wire_bytes (ackFor (ps ! i) ((start + int r) mod QUEUE_LEN)))"
    by (auto simp: stalled_def)
  from listenForDataStep_acks [OF r'] obtain new where new: "acks r' = acks (receiver s) @ new"
    "listenForDataStep sa bytes ((receiver s)\<lparr>acks := as\<rparr>) = Some (r'\<lparr>acks := as @ new\<rparr>)" by blast
  from sysInv_packet [OF i, of sdn dst bytes] x mo new(2) obtain k where k: "k < length ps"
    "bytes = wire_bytes (withPort (listenPort (sender s)) (ps ! k))"
    "sysInv sa start mid ps B (recvOne (length ps) R k) (withAcks (as @ new) (s\<lparr>receiver := r'\<rparr>))" by auto
  let ?R = "recvOne (length ps) R k"
  have R: "R \<le> ?R" "?R \<noteq> 0" using E(3) by (auto simp: recvOne_def)
  have c: "message_packets start mid ps" "catching sa (listenPort (sender s)) start ps R ((receiver s)\<lparr>acks := as\<rparr>)"
    using i by (simp_all add: sysInv_def)
  moreover from c(2) mo have "R < length ps" by (auto simp: catching_def)
  ultimately have "new = [(?to, wire_bytes (ackFor (ps ! k) ((start + int ?R) mod QUEUE_LEN)))]"
    using listenForDataStep_packet [OF c k(1)] new(2) k(2) R(2) by auto
  then have "acks r' = acks (receiver s) @ [(?to, wire_bytes (ackFor (ps ! k) ((start + int ?R) mod QUEUE_LEN)))]"
    using new(1) by simp
  moreover have "E < ?R" using E(3) R(1) by simp
  moreover have "\<exists>i<length ps. \<exists>r. E < r \<and> r \<le> ?R \<and>
      a = (?to, wire_bytes (ackFor (ps ! i) ((start + int r) mod QUEUE_LEN)))" if "a \<in> set (acks (receiver s))" for a
    using as that R(1) by (meson order_trans)
  ultimately have "\<forall>a\<in>set (acks r'). \<exists>i<length ps. \<exists>r. E < r \<and> r \<le> ?R \<and>
               a = (?to, wire_bytes (ackFor (ps ! i) ((start + int r) mod QUEUE_LEN)))"
    using k(1) by (metis (no_types, lifting) in_set_conv_decomp Un_iff empty_iff insert_iff list.set order_refl set_append)
  then show ?thesis
    unfolding stalled_def using E k(3) R(1) by (intro conjI exI [of _ "as @ new"] exI [of _ ?R]) auto
qed

lemma stalled_step:
  assumes st: "stalled sa start mid ps B E s" and step: "sysStep ok sa s s'"
  shows "stalled sa start mid ps B E s'"
proof -
  from st obtain as R where E: "start + int E = QUEUE_LEN" "B < E" "E < R" and i: "sysInv sa start mid ps B R (withAcks as s)"
    and as: "\<forall>a\<in>set (acks (receiver s)). \<exists>i<length ps. \<exists>r. E < r \<and> r \<le> R \<and>
               a = (sa\<lparr>sin_port := listenPort (sender s)\<rparr>, wire_bytes (ackFor (ps ! i) ((start + int r) mod QUEUE_LEN)))"
    by (auto simp: stalled_def)
  have sender: "stalled sa start mid ps B E (s\<lparr>sender := l\<rparr>)"
    if "sysInv sa start mid ps B R (withAcks as (s\<lparr>sender := l\<rparr>))" "listenPort l = listenPort (sender s)" for l
    unfolding stalled_def using E that as by (intro conjI exI [of _ as] exI [of _ R]) auto
  have s: "senderInv start ps B (sender s)" using i by (simp add: sysInv_def)
  from step show ?thesis
  proof (cases rule: sysStep.cases)
    case (signal sig env l')
    then show ?thesis using sysInv_signal [OF i, of sig env l'] senderInv_signal(2) [OF s signal(2,5)] sender by simp
  next
    case (timer r t' l')
    then show ?thesis using sysInv_timer [OF i, of r t' l'] senderInv_timer(3) [OF s timer(2-4)] sender by simp
  next
    case (packet sdn dst bytes r')
    then show ?thesis using stalled_packet [OF st packet(2,3,5)] by simp
  next
    case (ack bytes now l')
    from as ack(2) obtain k r where k: "k < length ps" "E < r" "r \<le> R"
      "bytes = wire_bytes (ackFor (ps ! k) ((start + int r) mod QUEUE_LEN))" by auto
    have "0 \<le> start" using i by (simp add: sysInv_def message_packets_def)
    then have "wbase (sender s) = start + int B" using s E by (simp add: senderInv_def)
    then have "\<not> (B < r \<and> wbase (sender s) + (int r - int B) \<le> QUEUE_LEN)" using E k(2) by simp
    with sysInv_ack [OF i k(1) _ k(3,4), of now] k(2) ack(4)
    have i': "sysInv sa start mid ps B R (withAcks as (s\<lparr>sender := l'\<rparr>))" by auto
    then have "Some (sa\<lparr>sin_port := listenPort l'\<rparr>) = Some (sa\<lparr>sin_port := listenPort (sender s)\<rparr>)"
      using i E(3) by (simp add: sysInv_def catching_def)
    from arg_cong [OF this, of "\<lambda>a. sin_port (the a)"] i'
    have "sysInv sa start mid ps B R (withAcks as (s\<lparr>sender := l'\<rparr>))" "listenPort l' = listenPort (sender s)" by simp_all
    then show ?thesis using ack(1) sender by simp
  qed
qed

lemma stalled_reachable:
  assumes "reachable ok sa s s'" "stalled sa start mid ps B E s"
  shows "stalled sa start mid ps B E s'"
  using assms(1) [unfolded reachable_def] assms(2)
  by (induction rule: rtranclp_induct) (auto intro: stalled_step)

lemma stalled_waiting:
  assumes "stalled sa start mid ps B E s"
  shows "waiting (sender s) = drop B (map core ps)" "waiting (sender s) \<noteq> []"
proof -
  from assms obtain as R where "B < E" "E < R" and i: "sysInv sa start mid ps B R (withAcks as s)"
    by (auto simp: stalled_def)
  moreover note sysInv_received(2,4) [OF i]
  ultimately show "waiting (sender s) = drop B (map core ps)" "waiting (sender s) \<noteq> []" by simp_all
qed

text \<open>The base has not passed the end of the ring when it is still at or after the start of the message;
  the receiver has when it expects an index after 0 and before the start.\<close>

lemma ring_passed:
  assumes "0 \<le> start" "start < QUEUE_LEN" "B < QUEUE_LEN" "0 \<le> B" "0 \<le> R" "R \<le> QUEUE_LEN"
    and "start \<le> (start + B) mod QUEUE_LEN" "0 < (start + R) mod QUEUE_LEN" "(start + R) mod QUEUE_LEN < start"
  shows "B < QUEUE_LEN - start" "QUEUE_LEN - start < R"
proof -
  show "B < QUEUE_LEN - start"
  proof (rule ccontr)
    assume "\<not> B < QUEUE_LEN - start"
    then have "0 \<le> start + B - QUEUE_LEN" "start + B - QUEUE_LEN < QUEUE_LEN" using assms(2,3) by linarith+
    then have "(start + B - QUEUE_LEN) mod QUEUE_LEN = start + B - QUEUE_LEN" by (rule mod_pos_pos_trivial)
    then have "(start + B) mod QUEUE_LEN = start + B - QUEUE_LEN" by simp
    then show False using assms(3,7) by linarith
  qed
  show "QUEUE_LEN - start < R"
  proof (rule ccontr)
    assume "\<not> QUEUE_LEN - start < R"
    then have "start + R = QUEUE_LEN \<or> start + R < QUEUE_LEN" by auto
    then show False
    proof
      assume "start + R = QUEUE_LEN"
      then show False using assms(8) by simp
    next
      assume "start + R < QUEUE_LEN"
      then have "(start + R) mod QUEUE_LEN = start + R" using assms(1,5) by (intro mod_pos_pos_trivial) auto
      then show False using assms(5,9) by linarith
    qed
  qed
qed

lemma lost_stalled:
  assumes st: "started msg g s0" and r: "reachable ok sa s0 s"
    and base: "wbase (launch g) \<le> wbase (sender s)"
    and beyond: "0 < expectedSeqNum (receiver s)" "expectedSeqNum (receiver s) < wbase (launch g)"
  shows "\<exists>B E. stalled sa (wbase (launch g)) (lastMsgId g)
    (stampedPackets (wbase (launch g)) (lastMsgId g) msg) B E (lostAcks s)"
proof -
  let ?ps = "stampedPackets (wbase (launch g)) (lastMsgId g) msg" and ?b = "wbase (launch g)"
  from started_reachable [OF st r] obtain B R where i: "sysInv sa ?b (lastMsgId g) ?ps B R s" by blast
  have c: "catching sa (listenPort (sender s)) ?b ?ps R (receiver s)" and s: "senderInv ?b ?ps B (sender s)"
    and b: "0 \<le> ?b" "?b < QUEUE_LEN"
    using i by (simp_all add: sysInv_def message_packets_def)
  note S = senderInv_D [OF s]
  have R: "expectedSeqNum (receiver s) = (?b + int R) mod QUEUE_LEN" "R \<le> length ?ps"
    using c beyond(1) by (auto simp: catching_def split: if_splits)
  have len: "int (length ?ps) < QUEUE_LEN" using S(7) launcher_inv_D(8) [OF S(1)] by linarith
  have "int B < QUEUE_LEN" "int R \<le> QUEUE_LEN" using len S(8) R(2) by linarith+
  from ring_passed [OF b this(1) _ _ this(2)] base beyond R(1) S(9)
  have E: "int B < QUEUE_LEN - ?b" "QUEUE_LEN - ?b < int R" by simp_all
  have "\<lparr>sender = sender s, receiver = receiver s\<rparr> = s" by (cases s) simp
  then have i': "sysInv sa ?b (lastMsgId g) ?ps B R \<lparr>sender = sender s, receiver = receiver s\<rparr>"
    using i by (rule ssubst)
  have "stalled sa ?b (lastMsgId g) ?ps B (nat (QUEUE_LEN - ?b)) (lostAcks s)"
    unfolding stalled_def using i' E b
    by (intro conjI exI [of _ "acks (receiver s)"] exI [of _ R]) (auto simp: lostAcks_def)
  then show ?thesis by blast
qed

subsection \<open>A stalled transfer\<close>

text \<open>Two packets, the first at the last index of the ring, with a window of two: both are launched
  and received before any acknowledgement arrives.\<close>

lemma two_received:
  assumes st: "started msg g s0" and n: "numOfPackets msg = 2" and w: "winsize (bs (launch g)) = 2"
  shows "\<exists>s. reachable True sa s0 s \<and> sysInv sa (wbase (launch g)) (lastMsgId g)
    (stampedPackets (wbase (launch g)) (lastMsgId g) msg) 0 2 s"
proof -
  let ?ps = "stampedPackets (wbase (launch g)) (lastMsgId g) msg" and ?b = "wbase (launch g)" and ?m = "lastMsgId g"
  note I = started_sysInv [OF st]
  have s: "senderInv ?b ?ps 0 (sender s0)" and m: "message_packets ?b ?m ?ps"
    using I(1) by (simp_all add: sysInv_def)
  have p: "status (padOf (sender s0) 0) = READY" "status (padOf (sender s0) 1) = READY"
    using started_pads [OF st] n by simp_all
  have sig: "newSig (sender s0) \<in> set (pending (sender s0))" using I(2) p(1) n by (simp add: liveInv_def)
  from fire_window [OF s m sig] p(1) obtain L where
    h: "launcherSigHandler goodEnv (newSig (sender s0)) ((sender s0)\<lparr>pending := remove1 (newSig (sender s0)) (pending (sender s0))\<rparr>) = Some L"
    and on: "\<And>k. k < 2 \<Longrightarrow> status (padOf (sender s0) (int k)) = READY \<Longrightarrow>
      \<exists>sdn dst. (sdn, dst, wire_bytes (withPort (listenPort L) (?ps ! k))) \<in> set (wire L)"
    using n w started_registers(2) [OF st] by auto
  have s1: "sysStep True sa s0 (s0\<lparr>sender := L\<rparr>)"
    using sysStep.signal [OF sig senderInv_D(4) [OF s] _ h, of True] by simp
  have i1: "sysInv sa ?b ?m ?ps 0 0 (s0\<lparr>sender := L\<rparr>)" by (rule sysInv_signal [OF I(1) sig h])
  from on [of 0] on [of 1] p obtain a b c d where
    x: "(a, b, wire_bytes (withPort (listenPort L) (?ps ! 0))) \<in> set (wire L)"
      "(c, d, wire_bytes (withPort (listenPort L) (?ps ! 1))) \<in> set (wire L)" by auto
  from next_received [OF i1, of a b True] x(1) n obtain r1 where
    s2: "sysStep True sa (s0\<lparr>sender := L\<rparr>) (s0\<lparr>sender := L, receiver := r1\<rparr>)"
    and i2: "sysInv sa ?b ?m ?ps 0 1 (s0\<lparr>sender := L, receiver := r1\<rparr>)" by auto
  from next_received [OF i2, of c d True] x(2) n obtain r2 where
    s3: "sysStep True sa (s0\<lparr>sender := L, receiver := r1\<rparr>) (s0\<lparr>sender := L, receiver := r2\<rparr>)"
    and i3: "sysInv sa ?b ?m ?ps 0 2 (s0\<lparr>sender := L, receiver := r2\<rparr>)" by (auto simp: numeral_2_eq_2)
  from s1 s2 s3 have "reachable True sa s0 (s0\<lparr>sender := L, receiver := r2\<rparr>)"
    unfolding reachable_def by (meson r_into_rtranclp rtranclp.rtrancl_into_rtrancl)
  then show ?thesis using i3 by blast
qed

lemma exampleWrap_ready: "ready \<lparr>launch = exampleWrap, lastMsgId = 0\<rparr>"
proof -
  have "busy exampleWrap = 0" by (simp add: exampleWrap_def used_def newLaunchBattery_def QUEUE_LEN_def)
  moreover have "tableOf exampleWrap = Map.empty"
    using send_table.lookup_empty by (auto simp: exampleWrap_def initLauncher_def)
  ultimately show ?thesis
    using exampleWrap_inv(1) unfolding ready_def idle_def fresh_def msg_id_inv_def signals_ok_def
    by (simp add: exampleWrap_def initLauncher_def newTimer_def)
qed

lemma example_stall:
  "\<exists>msg s0 s. started msg \<lparr>launch = exampleWrap, lastMsgId = 0\<rparr> s0 \<and> reachable True sa s0 s
     \<and> wbase (sender s) = 1023 \<and> expectedSeqNum (receiver s) = 1"
proof -
  let ?g = "\<lparr>launch = exampleWrap, lastMsgId = 0\<rparr>" and ?msg = "replicate 2000 (0 :: byte)"
  have n: "numOfPackets ?msg = 2" by (simp add: numOfPackets_eq)
  obtain s0 where st: "started ?msg ?g s0"
    using ready_starts [OF exampleWrap_ready, of ?msg] n exampleWrap_inv(3) by (auto simp: QUEUE_LEN_def)
  from two_received [OF st n] exampleWrap_inv(3) obtain s where s: "reachable True sa s0 s"
    "sysInv sa 1023 0 (stampedPackets 1023 0 ?msg) 0 2 s" using exampleWrap_inv(2) by auto
  then have "wbase (sender s) = 1023" "expectedSeqNum (receiver s) = 1"
    by (simp_all add: sysInv_def senderInv_def catching_def QUEUE_LEN_def)
  then show ?thesis using st s(1) by blast
qed

end
