(* ===== verification/Strays.thy ===== *)
theory Strays
  imports Catcher
begin

text \<open>
  The receiver among datagrams that are not of the message it receives: late packets of earlier
  messages, acknowledgements, packets of other senders. Such a datagram is harmless unless it is a first
  packet or carries an index that the receiver expects. It may be acknowledged, with an
  index that the receiver has reached.
\<close>

text \<open>A stray datagram, from any address, while \<open>n\<close> packets from ring position \<open>start\<close> on are expected.\<close>

definition stray :: "int \<Rightarrow> nat \<Rightarrow> sockaddr_in \<times> byte list \<Rightarrow> bool" where
  "stray start n x \<longleftrightarrow> (\<exists>q. wf_packet q \<and> snd x = wire_bytes q \<and> length (wire_bytes q) \<le> nat MTU
     \<and> (isAck (hdr q) \<or> \<not> isFirst (hdr q) \<and> index (hdr q) \<noteq> - 1
          \<and> (\<forall>k<n. index (hdr q) \<noteq> (start + int k) mod QUEUE_LEN)))"

text \<open>An acknowledgement of what was received so far, whatever packet it answers.\<close>

definition acksUpTo :: "sockaddr_in \<Rightarrow> port \<Rightarrow> int \<Rightarrow> nat \<Rightarrow> sockaddr_in \<times> byte list \<Rightarrow> bool" where
  "acksUpTo from prt start k a \<longleftrightarrow> (\<exists>q r. 0 < r \<and> r \<le> k
     \<and> a = (from\<lparr>sin_port := prt\<rparr>, wire_bytes (ackFor q ((start + int r) mod QUEUE_LEN))))"

lemma acksUpTo_mono: "acksUpTo from prt start k a \<Longrightarrow> k \<le> k' \<Longrightarrow> acksUpTo from prt start k' a"
  unfolding acksUpTo_def using le_trans by blast

lemma listenForDataStep_stray:
  assumes c: "catching from prt start ps k st" and k: "k < length ps"
    and x: "stray start (length ps) (src, d)" and dl: "delivered st src"
  shows "\<exists>st'. listenForDataStep src d st = Some st' \<and> catching from prt start ps k st'
    \<and> (\<exists>new. acks st' = acks st @ new \<and> (\<forall>a\<in>set new. acksUpTo from prt start k a))"
proof -
  from x obtain q where wf: "wf_packet q" and d: "d = wire_bytes q" "length (wire_bytes q) \<le> nat MTU"
    and q: "isAck (hdr q) \<or> \<not> isFirst (hdr q) \<and> index (hdr q) \<noteq> - 1
          \<and> (\<forall>k<length ps. index (hdr q) \<noteq> (start + int k) mod QUEUE_LEN)"
    by (auto simp: stray_def)
  let ?st0 = "taken src d st"
  have t: "take (nat MTU) d = d" using d by simp
  have p: "deserializePacket (overwrite (byteBuf st) d) = Some q"
    using deserialize_overwrite [OF wf serialize_wire [OF wf]] d c by (simp add: catching_def)
  have "src = from" if "k \<noteq> 0" using dl c that by (simp add: delivered_def catching_def)
  then have c0: "catching from prt start ps k ?st0" using c by (simp add: catching_def)
  show ?thesis
  proof (cases "isAck (hdr q)")
    case True
    then have "listenForDataStep src d st = Some ?st0" using p t by (simp add: listenForDataStep_def Let_def)
    then show ?thesis using c0 by (intro exI [of _ ?st0]) simp
  next
    case False
    then have no: "\<not> (expectedSeqNum st = - 1 \<and> isFirst (hdr q) \<or> index (hdr q) = expectedSeqNum st)"
      using q c k by (auto simp: catching_def)
    have step: "listenForDataStep src d st = (if expectedSeqNum st \<noteq> - 1 then sendAck q ?st0 else Some ?st0)"
      using p t False no q by (simp add: listenForDataStep_def Let_def)
    show ?thesis
    proof (cases "k = 0")
      case True
      then show ?thesis using step c c0 by (intro exI [of _ ?st0]) (simp add: catching_def)
    next
      case pos: False
      let ?e = "(start + int k) mod QUEUE_LEN"
      let ?a = "(from\<lparr>sin_port := prt\<rparr>, wire_bytes (ackFor q ?e))"
      have "serializePacket (ackFor q ?e) = Some (wire_bytes (ackFor q ?e))"
        using serialize_wire [OF wf_ackFor [OF wf]] by (simp add: c_int_ring)
      then have "listenForDataStep src d st = Some (?st0\<lparr>acks := acks st @ [?a]\<rparr>)"
        using step pos c by (simp add: sendAck_def catching_def)
      moreover have "acksUpTo from prt start k ?a" unfolding acksUpTo_def using pos by blast
      ultimately show ?thesis using c0
        by (intro exI [of _ "?st0\<lparr>acks := acks st @ [?a]\<rparr>"]) (simp add: catching_def)
    qed
  qed
qed

text \<open>What arrives: strays on the left; on the right a packet of the message, or an error of \<open>recvfrom\<close>.\<close>

type_synonym mixed = "(sockaddr_in \<times> byte list) + nat option"

definition mixedArrival :: "sockaddr_in \<Rightarrow> port \<Rightarrow> packet list \<Rightarrow> mixed \<Rightarrow> (sockaddr_in \<times> byte list) option" where
  "mixedArrival from prt ps = case_sum Some (arrival from prt ps)"

fun own :: "mixed list \<Rightarrow> nat list" where
  "own [] = []"
| "own (Inr (Some i) # xs) = i # own xs"
| "own (x # xs) = own xs"

definition mixedOk :: "int \<Rightarrow> nat \<Rightarrow> mixed \<Rightarrow> bool" where
  "mixedOk start n x = (case x of Inl d \<Rightarrow> stray start n d | Inr None \<Rightarrow> True | Inr (Some i) \<Rightarrow> i < n)"

lemma own_Cons: "own (x # xs) = own [x] @ own xs"
  by (cases x; cases "projr x") (auto simp: sum.case_eq_if)

text \<open>What one datagram that is delivered does.\<close>

lemma listenForDataStep_mixed:
  assumes m: "message_packets start mid ps" and c: "catching from prt start ps k st" and k: "k < length ps"
    and x: "mixedOk start (length ps) x" "mixedArrival from prt ps x = Some (src, d)" and dl: "delivered st src"
    and k': "k' = recvSpec (length ps) (own [x]) k"
  shows "\<exists>st'. listenForDataStep src d st = Some st' \<and> catching from prt start ps k' st'
    \<and> (\<exists>new. acks st' = acks st @ new \<and> (\<forall>a\<in>set new. acksUpTo from prt start k' a))"
proof (cases x)
  case (Inl y)
  then have "stray start (length ps) (src, d)" "k' = k" using x k' by (simp_all add: mixedOk_def mixedArrival_def)
  then show ?thesis using listenForDataStep_stray [OF c k _ dl] by simp
next
  case (Inr y)
  then obtain i where y: "y = Some i" and i: "i < length ps" and e: "src = from" "d = wire_bytes (withPort prt (ps ! i))"
    using x by (cases y) (auto simp: mixedOk_def mixedArrival_def arrival_def)
  have kk: "k' = recvOne (length ps) k i" using k' Inr y by simp
  have "acksUpTo from prt start k' (from\<lparr>sin_port := prt\<rparr>,
      wire_bytes (ackFor (ps ! i) ((start + int k') mod QUEUE_LEN)))" if "k' \<noteq> 0"
    using that unfolding acksUpTo_def by blast
  with listenForDataStep_packet [OF m c i k] show ?thesis unfolding e kk by (auto split: if_splits)
qed

lemma listenLoop_strays:
  assumes m: "message_packets start mid ps"
  shows "catching from prt start ps k st \<Longrightarrow> \<forall>x\<in>set xs. mixedOk start (length ps) x \<Longrightarrow>
    \<forall>a\<in>set (acks st). acksUpTo from prt start k a \<Longrightarrow>
    \<exists>st' rest. listenLoop (map (mixedArrival from prt ps) xs) st = Some (st', rest)
      \<and> catching from prt start ps (recvSpec (length ps) (own xs) k) st'
      \<and> (\<forall>a\<in>set (acks st'). acksUpTo from prt start (recvSpec (length ps) (own xs) k) a)"
proof (induction xs arbitrary: k st)
  case Nil
  then show ?case by simp
next
  case (Cons x xs)
  let ?k = "recvSpec (length ps) (own [x]) k"
  have spec: "recvSpec (length ps) (own (x # xs)) k = recvSpec (length ps) (own xs) ?k"
    by (subst own_Cons) (simp add: recvSpec_def)
  show ?case
  proof (cases "k = length ps")
    case True
    then have "\<not> morePackets st" using Cons.prems(1) by (simp add: catching_def)
    then show ?thesis using Cons.prems True by simp
  next
    case False
    with Cons.prems(1) have k: "k < length ps" and more: "morePackets st" by (auto simp: catching_def)
    consider (err) "x = Inr None" | (dropped) src d where "x = Inl (src, d)" "\<not> delivered st src"
      | (taken) src d where "mixedArrival from prt ps x = Some (src, d)" "delivered st src"
      using Cons.prems(1) by (cases x; cases "projr x")
        (force simp: mixedArrival_def arrival_def delivered_def catching_def)+
    then show ?thesis
    proof cases
      case taken
      from listenForDataStep_mixed [OF m Cons.prems(1) k _ taken refl] Cons.prems(2) obtain st1 new where
        st1: "listenForDataStep src d st = Some st1" "catching from prt start ps ?k st1"
        "acks st1 = acks st @ new" "\<forall>a\<in>set new. acksUpTo from prt start ?k a" by auto
      have "k \<le> ?k" using recvSpec_bounds k by simp
      then have "\<forall>a\<in>set (acks st1). acksUpTo from prt start ?k a"
        using Cons.prems(3) st1(3,4) acksUpTo_mono by auto
      from Cons.IH [OF st1(2) _ this] Cons.prems(2) show ?thesis
        using st1(1) taken more unfolding spec by simp
    qed (use Cons more in \<open>simp_all add: mixedArrival_def arrival_def\<close>)
  qed
qed

lemma listenForData_strays:
  assumes m: "message_packets start mid ps" and xs: "\<forall>x\<in>set xs. mixedOk start (length ps) x"
  shows "if subseq [0..<length ps] (own xs)
    then \<exists>as rest. listenForData True (map (mixedArrival from prt ps) xs)
        = Some (Inr (0, from, concat (map data ps), as, rest))
      \<and> (\<forall>a\<in>set as. acksUpTo from prt start (length ps) a)
    else \<exists>st k. listenForData True (map (mixedArrival from prt ps) xs) = Some (Inl st)
      \<and> k = recvSpec (length ps) (own xs) 0 \<and> k < length ps
      \<and> msgBuf st = concat (map data (take k ps))
      \<and> (\<forall>a\<in>set (acks st). acksUpTo from prt start k a)"
proof -
  let ?k = "recvSpec (length ps) (own xs) 0"
  have ne: "ps \<noteq> []" using m by (simp add: message_packets_def)
  have "acks listenForDataInit = []" by (simp add: listenForDataInit_def)
  with listenLoop_strays [OF m _ xs, of "from" prt 0 listenForDataInit] catching_init [of "from" prt start ps] ne
  obtain st rest where l: "listenLoop (map (mixedArrival from prt ps) xs) listenForDataInit = Some (st, rest)"
    and c: "catching from prt start ps ?k st" and a: "\<forall>a\<in>set (acks st). acksUpTo from prt start ?k a"
    by auto
  have s: "(?k = length ps) = subseq [0..<length ps] (own xs)" by (rule recvSpec_subseq) simp
  have k: "?k \<le> length ps" using recvSpec_bounds [of 0 "length ps"] by simp
  show ?thesis
  proof (cases "?k = length ps")
    case True
    then show ?thesis using l c a s ne by (simp add: listenForData_def catching_def)
  next
    case False
    then show ?thesis using l c a s k by (simp add: listenForData_def catching_def)
  qed
qed

text \<open>All packets but the first of an earlier message are strays for the next ones, within one turn of
  the ring.\<close>

lemma earlier_message_stray:
  assumes m: "message_packets start' mid' ps'" and j: "0 < j" "j < length ps'"
    and next_start: "start = (start' + int (length ps') + e) mod QUEUE_LEN" "0 \<le> e"
    and turn: "int (length ps') + e + int n \<le> QUEUE_LEN"
  shows "stray start n (src, wire_bytes (withPort prt (ps' ! j)))"
proof -
  note P = packet_at [OF m j(2)]
  have "(start' + int j) mod QUEUE_LEN \<noteq> (start + int k) mod QUEUE_LEN" if k: "k < n" for k
  proof
    let ?d = "int (length ps') + e + int k - int j"
    assume "(start' + int j) mod QUEUE_LEN = (start + int k) mod QUEUE_LEN"
    also have "\<dots> = (start' + int j + ?d) mod QUEUE_LEN"
      unfolding next_start(1) mod_add_left_eq by (simp add: algebra_simps)
    finally have "QUEUE_LEN dvd ?d" by (metis add_diff_cancel_left' mod_eq_dvd_iff)
    moreover have "0 < ?d" "?d < QUEUE_LEN" using k j next_start(2) turn by linarith+
    ultimately show False by (meson not_le zdvd_imp_le)
  qed
  moreover have "length (wire_bytes (withPort prt (ps' ! j))) \<le> nat MTU"
    using P(8) by (simp add: wire_bytes_def MTU_def)
  ultimately show ?thesis
    unfolding stray_def using P j(1) by (intro exI [of _ "withPort prt (ps' ! j)"]) (simp add: withPort_hdr)
qed

end
