(* ===== verification/LauncherLife.thy ===== *)
theory LauncherLife
  imports Launcher
begin

text \<open>
  The life of the launcher (gbn/launcher.c): the signal dispositions that \<open>initLauncher\<close> sets, the
  start of the thread, its loop, and \<open>launcherCleanup\<close>. The loop is driven by what ends each
  \<open>recvfrom\<close>: a datagram, a signal whose handler then runs, or another error. \<open>sigaction\<close> is that
  of the C library: it fails on a number that is no signal, and with a null action it changes
  nothing.
\<close>

datatype disposition = DefaultAction | LauncherHandler (blocked: "int list") | OtherHandler nat

record launcherProcess =
  lstate :: launcherState
  disp :: "int \<Rightarrow> disposition"
  oldAct :: disposition
  isOldActSet :: bool
  onceDone :: bool
  ackSocketOpen :: bool

definition sigaction ::
  "int \<Rightarrow> int \<Rightarrow> disposition option \<Rightarrow> (int \<Rightarrow> disposition) \<Rightarrow> (int \<times> (int \<Rightarrow> disposition)) \<times> disposition"
where
  "sigaction rtmax sig act d =
     (if sig < 1 \<or> rtmax < sig then ((- 1, d), DefaultAction)
      else ((0, case act of None \<Rightarrow> d | Some a \<Rightarrow> d(sig := a)), d sig))"

definition allEvents :: "launcherEvent list" where
  "allEvents = [LAUNCHER_EVENT_NEW_PACKETS_IN_SEND_WINDOW, LAUNCHER_EVENT_PACKET_TIMED_OUT,
     LAUNCHER_EVENT_SHUTDOWN]"

definition maskFor :: "launcherState \<Rightarrow> launcherEvent \<Rightarrow> int list" where
  "maskFor st e = map (signalOf st) (filter (\<lambda>be. be \<noteq> e) allEvents)"

fun installHandlers :: "launcherEvent list \<Rightarrow> launcherProcess \<Rightarrow> int \<times> launcherProcess" where
  "installHandlers [] p = (0, p)"
| "installHandlers (e # es) p =
     (let ((r, d), old) = sigaction (sigrtmax (lstate p)) (signalOf (lstate p) e)
            (Some (LauncherHandler (maskFor (lstate p) e))) (disp p)
      in if r \<noteq> 0 then (- 1, p)
         else installHandlers es (p\<lparr>disp := d, oldAct := (if isOldActSet p then oldAct p else old),
                isOldActSet := True\<rparr>))"

text \<open>The first lines of the thread: its socket, bound to a port that the system chooses.\<close>

definition launcherStart :: "port \<Rightarrow> launcherProcess \<Rightarrow> launcherProcess" where
  "launcherStart lport p = p\<lparr>ackSocketOpen := True,
     lstate := (lstate p)\<lparr>listenPort := lport, isLauncherAvailable := True\<rparr>\<rparr>"

definition initLauncherThread :: "bool \<Rightarrow> port \<Rightarrow> launcherProcess \<Rightarrow> launcherProcess" where
  "initLauncherThread createOk lport p =
     (let (r, p1) = installHandlers allEvents p in
      if r \<noteq> 0 then p1
      else if \<not> createOk then p1
      else launcherStart lport p1)"

text \<open>\<open>getLauncherId\<close> with the initialisation that \<open>pthread_once\<close> runs.\<close>

definition requireLauncher :: "bool \<Rightarrow> port \<Rightarrow> launcherProcess \<Rightarrow> int \<times> launcherProcess" where
  "requireLauncher createOk lport p =
     (if isLauncherAvailable (lstate p) then (0, p)
      else let p1 = (if onceDone p then p else (initLauncherThread createOk lport p)\<lparr>onceDone := True\<rparr>) in
        if isLauncherAvailable (lstate p1) then (0, p1) else (- 1, p1))"

datatype wakeup =
    Datagram "byte list" "int \<Rightarrow> timespec"
  | Interrupted int "int \<Rightarrow> launchEnv"
  | RecvError

fun listenForAcks :: "wakeup list \<Rightarrow> launcherState \<Rightarrow> (launcherState \<times> wakeup list) option" where
  "listenForAcks [] st = Some (st, [])"
| "listenForAcks (u # us) st =
     (if \<not> isLauncherAvailable st then Some (st, u # us)
      else case u of
        Datagram dgram now \<Rightarrow> do { st' \<leftarrow> listenForAcksStep now dgram st; listenForAcks us st' }
      | Interrupted sig env \<Rightarrow> do { st' \<leftarrow> launcherSigHandler env sig st; listenForAcks us st' }
      | RecvError \<Rightarrow> listenForAcks us st)"

fun restoreHandlers :: "launcherEvent list \<Rightarrow> launcherProcess \<Rightarrow> launcherProcess" where
  "restoreHandlers [] p = p"
| "restoreHandlers (e # es) p =
     (let ((r, d), old) = sigaction (sigrtmax (lstate p)) (signalOf (lstate p) e)
            (if isOldActSet p then None else Some (oldAct p)) (disp p)
      in restoreHandlers es (p\<lparr>disp := d\<rparr>))"

text \<open>A timer that runs is told to shut down and its thread is awaited.\<close>

definition launcherCleanup :: "launcherProcess \<Rightarrow> launcherProcess" where
  "launcherCleanup p =
     (let p1 = (if isOldActSet p then restoreHandlers allEvents p else p);
          t = ltimer (lstate p1);
          t' = (if isAlive t then stopTimer t else t)
      in p1\<lparr>lstate := (lstate p1)\<lparr>ltimer := t'\<rparr>, ackSocketOpen := False\<rparr>)"

text \<open>The thread: it listens, and once the shutdown event has ended the loop it cleans up.\<close>

definition launcherThread :: "wakeup list \<Rightarrow> launcherProcess \<Rightarrow> launcherProcess option" where
  "launcherThread us p = do {
     (st, rest) \<leftarrow> listenForAcks us (lstate p);
     Some (if isLauncherAvailable st then p\<lparr>lstate := st\<rparr> else launcherCleanup (p\<lparr>lstate := st\<rparr>)) }"

subsection \<open>Dispositions\<close>

lemma sigaction_ok:
  "1 \<le> sig \<Longrightarrow> sig \<le> rtmax \<Longrightarrow> sigaction rtmax sig act d =
     ((0, case act of None \<Rightarrow> d | Some a \<Rightarrow> d(sig := a)), d sig)"
  by (simp add: sigaction_def)

lemma signalOf_range:
  "signals_ok st \<Longrightarrow> 1 \<le> signalOf st e \<and> signalOf st e \<le> sigrtmax st"
  by (cases e) (simp_all add: signalOf_eq signals_ok_def)

lemma allEvents_all [simp]: "e \<in> set allEvents"
  by (cases e) (simp_all add: allEvents_def)

text \<open>With its signals valid each event gets the handler that blocks the other two; the other
  signals keep theirs.\<close>

lemma installHandlers_ok:
  assumes "signals_ok (lstate p)"
  shows "\<exists>p'. installHandlers es p = (0, p') \<and> lstate p' = lstate p \<and> onceDone p' = onceDone p
    \<and> ackSocketOpen p' = ackSocketOpen p
    \<and> (\<forall>e\<in>set es. disp p' (signalOf (lstate p) e) = LauncherHandler (maskFor (lstate p) e))
    \<and> (\<forall>sig. sig \<notin> signalOf (lstate p) ` set es \<longrightarrow> disp p' sig = disp p sig)"
  using assms
proof (induction es arbitrary: p)
  case (Cons e es)
  let ?s = "signalOf (lstate p) e" and ?h = "LauncherHandler (maskFor (lstate p) e)"
  let ?p = "p\<lparr>disp := (disp p)(?s := ?h), oldAct := (if isOldActSet p then oldAct p else disp p ?s),
    isOldActSet := True\<rparr>"
  have st: "installHandlers (e # es) p = installHandlers es ?p"
    using signalOf_range [OF Cons.prems, of e] by (simp add: sigaction_ok)
  from Cons.IH [of ?p] Cons.prems obtain p' where p': "installHandlers es ?p = (0, p')"
    "lstate p' = lstate p" "onceDone p' = onceDone p" "ackSocketOpen p' = ackSocketOpen p"
    "\<forall>e\<in>set es. disp p' (signalOf (lstate p) e) = LauncherHandler (maskFor (lstate p) e)"
    "\<forall>sig. sig \<notin> signalOf (lstate p) ` set es \<longrightarrow> disp p' sig = ((disp p)(?s := ?h)) sig" by auto
  have "disp p' ?s = ?h"
  proof (cases "?s \<in> signalOf (lstate p) ` set es")
    case True
    then obtain f where "f \<in> set es" "?s = signalOf (lstate p) f" by auto
    then show ?thesis using p'(5) signalOf_inject [OF Cons.prems, of e f] by auto
  qed (use p'(6) in simp)
  with p' st show ?case by (intro exI [of _ p']) auto
qed simp

lemma restoreHandlers_keeps: "isOldActSet p \<Longrightarrow> restoreHandlers es p = p"
proof (induction es)
  case (Cons e es)
  have "snd (fst (sigaction (sigrtmax (lstate p)) (signalOf (lstate p) e) None (disp p))) = disp p"
    by (simp add: sigaction_def)
  with Cons show ?case by (simp add: case_prod_beta Let_def)
qed simp

lemma launcherCleanup_keeps: "disp (launcherCleanup p) = disp p"
  by (simp add: launcherCleanup_def restoreHandlers_keeps Let_def)

subsection \<open>Starting and stopping\<close>

lemma requireLauncher_starts:
  assumes "signals_ok (lstate p)" "\<not> isLauncherAvailable (lstate p)" "\<not> onceDone p"
  shows "\<exists>p'. requireLauncher True lport p = (0, p')
    \<and> lstate p' = (lstate p)\<lparr>listenPort := lport, isLauncherAvailable := True\<rparr>
    \<and> onceDone p' \<and> ackSocketOpen p'
    \<and> (\<forall>e. disp p' (signalOf (lstate p) e) = LauncherHandler (maskFor (lstate p) e))
    \<and> (\<forall>sig. sig \<notin> range (signalOf (lstate p)) \<longrightarrow> disp p' sig = disp p sig)"
proof -
  from installHandlers_ok [OF assms(1), of allEvents] obtain p1 where
    p1: "installHandlers allEvents p = (0, p1)" "lstate p1 = lstate p"
    "\<forall>e. disp p1 (signalOf (lstate p) e) = LauncherHandler (maskFor (lstate p) e)"
    "\<forall>sig. sig \<notin> signalOf (lstate p) ` set allEvents \<longrightarrow> disp p1 sig = disp p sig" by auto
  have "set allEvents = UNIV" by auto
  with p1 assms(2,3) show ?thesis
    by (intro exI [of _ "(launcherStart lport p1)\<lparr>onceDone := True\<rparr>"])
      (simp add: requireLauncher_def initLauncherThread_def launcherStart_def)
qed

text \<open>The initial state of the launcher is what the start makes of a fresh process.\<close>

lemma initLauncher_started:
  "(initLauncher rtmin rtmax 0)\<lparr>listenPort := lport, isLauncherAvailable := True\<rparr> = initLauncher rtmin rtmax lport"
  by (simp add: initLauncher_def)

lemma listenForAcks_stopped: "\<not> isLauncherAvailable st \<Longrightarrow> listenForAcks us st = Some (st, us)"
  by (cases us) simp_all

lemma shutdown_handled:
  assumes "signals_ok st"
  shows "launcherSigHandler env (signalOf st LAUNCHER_EVENT_SHUTDOWN) st = Some (st\<lparr>isLauncherAvailable := False\<rparr>)"
  using assms by (simp add: launcherSigHandler_def signalOf_inject)

lemma signals_ok_available [simp]: "signals_ok (st\<lparr>isLauncherAvailable := b, ltimer := t\<rparr>) = signals_ok st"
  by (simp add: signals_ok_def)

lemma launcherThread_shutdown:
  assumes "signals_ok (lstate p)" "isLauncherAvailable (lstate p)" "onceDone p"
  shows "\<exists>p'. launcherThread (Interrupted (signalOf (lstate p) LAUNCHER_EVENT_SHUTDOWN) env # us) p = Some p'
    \<and> disp p' = disp p \<and> \<not> isLauncherAvailable (lstate p') \<and> \<not> isAlive (ltimer (lstate p'))
    \<and> \<not> ackSocketOpen p' \<and> (\<forall>createOk lport. requireLauncher createOk lport p' = (- 1, p'))"
  using assms
  by (auto simp: launcherThread_def shutdown_handled listenForAcks_stopped launcherCleanup_def
      restoreHandlers_keeps requireLauncher_def Let_def stopTimer_def timerRound_def timeout_def)

text \<open>The loop survives every event and every failed receive.\<close>

definition noDatagram :: "wakeup \<Rightarrow> bool" where
  "noDatagram u = (case u of Datagram _ _ \<Rightarrow> False | _ \<Rightarrow> True)"

lemma listenForAcks_events:
  assumes "launcher_inv st" "\<forall>u\<in>set us. noDatagram u"
  shows "\<exists>st' rest. listenForAcks us st = Some (st', rest) \<and> launcher_inv st'
    \<and> (isLauncherAvailable st' \<longrightarrow> rest = [])"
  using assms
proof (induction us arbitrary: st)
  case (Cons u us)
  show ?case
  proof (cases "isLauncherAvailable st")
    case True
    show ?thesis
    proof (cases u)
      case (Interrupted sig env)
      from launcherSigHandler_inv [OF Cons.prems(1), of env sig] obtain st1 where
        "launcherSigHandler env sig st = Some st1" "launcher_inv st1" by blast
      with Cons.IH [of st1] Cons.prems(2) True Interrupted show ?thesis by simp
    qed (use Cons True in \<open>auto simp: noDatagram_def\<close>)
  qed (use Cons in simp)
qed simp

end
