(* ===== verification/Threads.thy ===== *)
theory Threads
  imports Timer
begin

text \<open>
  The threads of one process and the mutexes they share (gbn/gbn.c, gbn/launcher.c, gbn/timer.c,
  gbn/launchBattery.c, gbn/networkSampler.c): any number of threads that call \<open>sendMessageGbn\<close>,
  the launcher, which the first call creates, with the handler of its events, and the timer. The
  other theories take a handler or the treatment of a datagram as one step; here a routine is the
  list of the instructions it shares with the other threads, and the threads interleave between any
  two of them. What a routine finds in the data (a send that succeeds, the number of packets an
  acknowledgement covers) is a parameter.

  A mutex is not recursive: a thread that locks one it holds waits forever. A signal handler runs
  on the launcher, on top of what the launcher was doing, whenever the launcher events are not
  masked; it runs with them masked. \<open>sigaction\<close> and \<open>pthread_create\<close> are taken to succeed, and the
  shutdown event, which no code sends, is left out.
\<close>

subsection \<open>Instructions\<close>

text \<open>The singletons, each created under a \<open>pthread_once\<close> control.\<close>

datatype once = BatteryOnce | WindowOnce | TableOnce | LauncherOnce | NetworkOnce

datatype lock =
    launchBatteryLock | sendWindowLock | sendTableLock | networkSamplerLock
  | atTimeoutLock | isAliveLock | launcherInitializerLock | OnceLock once

text \<open>\<open>Made c\<close>: the reference of \<open>c\<close> is not null, for the launcher \<open>isLauncherAvailable\<close>;
  \<open>Done c\<close>: its once routine has run; \<open>Rings\<close>: the timer, at its time-out, is to ring.\<close>

datatype flag = Alive | Rings | Made once | Done once

datatype shared = LaunchPads | Window | Table | NetworkEstimates | LastMsgId

datatype thread = App nat | LauncherThread | TimerThread

datatype instr =
    Acquire lock
  | Release lock
  | Access shared
  | SetAtTimeout atTimeout_action
  | SetRing
  | SetFlag flag
  | IfFlag flag bool "instr list"
  | Spawn thread
  | Await flag lock
  | Asleep flag
  | SignalFlag flag
  | JoinTimer
  | TimedWait lock
  | TimedOut lock
  | TimerRound
  | TimerLoop
  | KillLauncher
  | MaskEvents
  | UnmaskEvents

subsection \<open>The singletons\<close>

text \<open>A getter looks at the reference without a lock; \<open>pthread_once\<close> lets one thread at a time run
  the routine, and only once.\<close>

definition once_code :: "once \<Rightarrow> instr list \<Rightarrow> instr list" where
  "once_code c routine = [IfFlag (Made c) False
     [Acquire (OnceLock c), IfFlag (Done c) False (routine @ [SetFlag (Done c)]), Release (OnceLock c)]]"

definition getSendWindow_code :: "instr list" where
  "getSendWindow_code = once_code WindowOnce [SetFlag (Made WindowOnce)]"

definition getSendTable_code :: "instr list" where
  "getSendTable_code = once_code TableOnce [SetFlag (Made TableOnce)]"

definition getNetworkParams_code :: "instr list" where
  "getNetworkParams_code = once_code NetworkOnce [SetFlag (Made NetworkOnce)]"

definition initLauncher_code :: "instr list" where
  "initLauncher_code = [Acquire launcherInitializerLock, Spawn LauncherThread,
     Await (Made LauncherOnce) launcherInitializerLock, Release launcherInitializerLock]"

definition getLauncherId_code :: "instr list" where
  "getLauncherId_code = once_code LauncherOnce initLauncher_code"

definition initLaunchBattery_code :: "instr list" where
  "initLaunchBattery_code =
     SetFlag (Made BatteryOnce) # getSendTable_code @ getSendWindow_code @ getLauncherId_code"

definition getLaunchBattery_code :: "instr list" where
  "getLaunchBattery_code = once_code BatteryOnce initLaunchBattery_code"

definition notifyLauncher_code :: "instr list" where
  "notifyLauncher_code = getLauncherId_code @ [KillLauncher]"

subsection \<open>The routines\<close>

definition sendMessageGbn_code :: "bool \<Rightarrow> instr list" where
  "sendMessageGbn_code fits =
     [Access LastMsgId, Acquire launchBatteryLock] @ getLaunchBattery_code @ [Access LaunchPads]
     @ (if fits then [Acquire sendTableLock] @ getSendTable_code
          @ [Access Table, Release sendTableLock, Release launchBatteryLock] @ notifyLauncher_code
        else [Release launchBatteryLock])"

definition fireLaunchPad_code :: "bool \<Rightarrow> instr list" where
  "fireLaunchPad_code sent =
     [Access LaunchPads, Acquire sendTableLock] @ getSendTable_code @ [Access Table, Release sendTableLock]
     @ (if sent then [Access LaunchPads] else [])"

definition sendAllPacketsInWindow_code :: "bool list \<Rightarrow> instr list" where
  "sendAllPacketsInWindow_code fired = getLaunchBattery_code @ getSendWindow_code
     @ [Access Window, Access LaunchPads] @ concat (map fireLaunchPad_code fired)"

definition timeout_code :: "atTimeout_action \<Rightarrow> instr list" where
  "timeout_code a = [Acquire atTimeoutLock, SetAtTimeout a, Release atTimeoutLock]"

definition startTimer_code :: "instr list" where
  "startTimer_code = SetRing # timeout_code AT_TIMEOUT_RING_THEN_RESTART
     @ [Acquire isAliveLock, Spawn TimerThread, Await Alive isAliveLock, Release isAliveLock]"

text \<open>A launcher event: the new packets, or the packets timed out; \<open>fired\<close> lists the launches
  and whether each succeeded.\<close>

definition newPackets_code :: "bool list \<Rightarrow> instr list" where
  "newPackets_code fired =
     [Acquire launchBatteryLock, Acquire sendWindowLock] @ sendAllPacketsInWindow_code fired
     @ [Release sendWindowLock, Release launchBatteryLock]
     @ (if True \<in> set fired then [IfFlag Alive False startTimer_code] else [])"

definition timedOut_code :: "bool list \<Rightarrow> instr list" where
  "timedOut_code fired =
     [Acquire launchBatteryLock, Acquire sendWindowLock] @ sendAllPacketsInWindow_code fired
     @ [Release sendWindowLock, Release launchBatteryLock]
     @ (if True \<in> set fired then []
        else [IfFlag Alive True (timeout_code AT_TIMEOUT_SHUTDOWN @ [JoinTimer])])"

text \<open>The delivery of a signal masks the events, the return from its handler unmasks them.\<close>

definition delivered_code :: "instr list \<Rightarrow> instr list" where
  "delivered_code handler = handler @ [UnmaskEvents]"

text \<open>A datagram at \<open>listenForAcks\<close>: an acknowledgement of \<open>acked\<close> packets, the last of its message
  or not, or something else. The samples are taken one by one.\<close>

definition rttSample_code :: "instr list" where
  "rttSample_code = [Access LaunchPads, Acquire networkSamplerLock] @ getNetworkParams_code
     @ [Access NetworkEstimates, Release networkSamplerLock]"

definition acked_code :: "nat \<Rightarrow> bool \<Rightarrow> instr list" where
  "acked_code acked endOfMessage =
     getLaunchBattery_code @ concat (replicate acked rttSample_code)
     @ (if 0 < acked then
          (if endOfMessage
           then [Acquire sendTableLock] @ getSendTable_code @ [Access Table, Release sendTableLock] else [])
          @ [IfFlag Alive True (timeout_code AT_TIMEOUT_RESTART), Access Window] @ notifyLauncher_code
        else [])"

definition listenForAcks_code :: "bool \<Rightarrow> nat \<Rightarrow> bool \<Rightarrow> instr list" where
  "listenForAcks_code isAck acked endOfMessage = MaskEvents #
     (if isAck then
        [Acquire sendWindowLock] @ getSendWindow_code @ [Access Window, Acquire launchBatteryLock]
        @ acked_code acked endOfMessage
        @ [Release launchBatteryLock, Release sendWindowLock, UnmaskEvents]
      else [])"

text \<open>What the thread does before it listens.\<close>

definition launcher_code :: "instr list" where
  "launcher_code = [Acquire launcherInitializerLock, SetFlag (Made LauncherOnce),
     Release launcherInitializerLock, SignalFlag (Made LauncherOnce)]"

text \<open>The timer thread. A build without \<open>TIMEOUT_ADAPTIVE\<close> does not read the estimates. The wait
  releases \<open>atTimeoutLock\<close> and locks it again when it is over.\<close>

definition calcTimeout_code :: "bool \<Rightarrow> instr list" where
  "calcTimeout_code adaptive =
     (if adaptive then [Acquire networkSamplerLock] @ getNetworkParams_code
        @ [Access NetworkEstimates, Release networkSamplerLock]
      else [])"

definition timerRound_code :: "bool \<Rightarrow> instr list" where
  "timerRound_code adaptive = Acquire atTimeoutLock # calcTimeout_code adaptive
     @ [TimedWait atTimeoutLock, IfFlag Rings True notifyLauncher_code, TimerRound, Release atTimeoutLock]"

definition timer_code :: "instr list" where
  "timer_code = [Acquire isAliveLock, SetFlag Alive, Release isAliveLock, SignalFlag Alive, TimerLoop]"

definition thread_code :: "thread \<Rightarrow> instr list" where
  "thread_code t = (case t of LauncherThread \<Rightarrow> launcher_code | TimerThread \<Rightarrow> timer_code | App _ \<Rightarrow> [])"

subsection \<open>Steps\<close>

record threads =
  todo :: "thread \<Rightarrow> instr list"
  mutex :: "lock \<Rightarrow> thread option"
  made :: "once \<Rightarrow> bool"
  onceRun :: "once \<Rightarrow> bool"
  theTimer :: timer
  evMasked :: bool
  notified :: bool
  adaptiveBuild :: bool

abbreviation resume :: "thread \<Rightarrow> instr list \<Rightarrow> threads \<Rightarrow> threads" where
  "resume t p s \<equiv> s\<lparr>todo := (todo s)(t := p)\<rparr>"

fun flagOf :: "flag \<Rightarrow> threads \<Rightarrow> bool" where
  "flagOf Alive s = isAlive (theTimer s)"
| "flagOf Rings s = fst (timerRound (theTimer s))"
| "flagOf (Made c) s = made s c"
| "flagOf (Done c) s = onceRun s c"

text \<open>No code assigns what \<open>Rings\<close> stands for.\<close>

fun setFlag :: "flag \<Rightarrow> threads \<Rightarrow> threads" where
  "setFlag Alive s = s\<lparr>theTimer := (theTimer s)\<lparr>isAlive := True\<rparr>\<rparr>"
| "setFlag Rings s = s"
| "setFlag (Made c) s = s\<lparr>made := (made s)(c := True)\<rparr>"
| "setFlag (Done c) s = s\<lparr>onceRun := (onceRun s)(c := True)\<rparr>"

fun woken :: "flag \<Rightarrow> instr list \<Rightarrow> instr list" where
  "woken f (Asleep g # p) = (if g = f then p else Asleep g # p)"
| "woken f p = p"

text \<open>\<open>perform t i p s\<close>: thread \<open>t\<close> carries out \<open>i\<close> and has \<open>p\<close> left; \<open>None\<close> while it must wait.\<close>

fun perform :: "thread \<Rightarrow> instr \<Rightarrow> instr list \<Rightarrow> threads \<Rightarrow> threads option" where
  "perform t (Acquire l) p s =
     (if mutex s l = None then Some ((resume t p s)\<lparr>mutex := (mutex s)(l := Some t)\<rparr>) else None)"
| "perform t (Release l) p s = Some ((resume t p s)\<lparr>mutex := (mutex s)(l := None)\<rparr>)"
| "perform t (Access d) p s = Some (resume t p s)"
| "perform t (SetAtTimeout a) p s = Some ((resume t p s)\<lparr>theTimer := timeout (theTimer s) a\<rparr>)"
| "perform t SetRing p s = Some ((resume t p s)\<lparr>theTimer := (theTimer s)\<lparr>ring := True\<rparr>\<rparr>)"
| "perform t (SetFlag f) p s = Some (setFlag f (resume t p s))"
| "perform t (IfFlag f b q) p s = Some (resume t (if flagOf f s = b then q @ p else p) s)"
| "perform t (Spawn u) p s =
     (if todo s u = [] then Some (resume u (thread_code u) (resume t p s)) else None)"
| "perform t (Await f l) p s =
     (if flagOf f s then Some (resume t p s)
      else Some ((resume t (Asleep f # Acquire l # Await f l # p) s)\<lparr>mutex := (mutex s)(l := None)\<rparr>))"
| "perform t (Asleep f) p s = None"
| "perform t (SignalFlag f) p s = Some ((resume t p s)\<lparr>todo := (\<lambda>u. woken f (((todo s)(t := p)) u))\<rparr>)"
| "perform t JoinTimer p s = (if todo s TimerThread = [] then Some (resume t p s) else None)"
| "perform t (TimedWait l) p s =
     Some ((resume t (TimedOut l # p) s)\<lparr>mutex := (mutex s)(l := None)\<rparr>)"
| "perform t (TimedOut l) p s = None"
| "perform t TimerRound p s = Some ((resume t p s)\<lparr>theTimer := snd (timerRound (theTimer s))\<rparr>)"
| "perform t TimerLoop p s =
     Some (resume t (if isAlive (theTimer s) then timerRound_code (adaptiveBuild s) @ TimerLoop # p else p) s)"
| "perform t KillLauncher p s = Some ((resume t p s)\<lparr>notified := True\<rparr>)"
| "perform t MaskEvents p s = Some ((resume t p s)\<lparr>evMasked := True\<rparr>)"
| "perform t UnmaskEvents p s = Some ((resume t p s)\<lparr>evMasked := False\<rparr>)"

definition advance :: "thread \<Rightarrow> threads \<Rightarrow> threads option" where
  "advance t s = (case todo s t of [] \<Rightarrow> None | i # p \<Rightarrow> perform t i p s)"

definition moves :: "threads \<Rightarrow> threads \<Rightarrow> bool" where
  "moves s s' \<longleftrightarrow> (\<exists>t. advance t s = Some s')"

text \<open>The end of a timed wait, by its deadline or by a signal.\<close>

inductive wakes :: "threads \<Rightarrow> threads \<Rightarrow> bool" where
  "todo s TimerThread = TimedOut l # p \<Longrightarrow> wakes s (resume TimerThread (Acquire l # p) s)"

inductive_cases wakesE: "wakes s s'"

text \<open>What comes from outside: a call, a datagram for a launcher that listens, a signal once one
  was sent, a spurious wakeup.\<close>

inductive arrives :: "threads \<Rightarrow> threads \<Rightarrow> bool" where
  call: "todo s (App k) = [] \<Longrightarrow> arrives s (resume (App k) (sendMessageGbn_code fits) s)"
| datagram: "todo s LauncherThread = [] \<Longrightarrow> made s LauncherOnce \<Longrightarrow>
    arrives s (resume LauncherThread (listenForAcks_code isAck acked endOfMessage) s)"
| signal: "notified s \<Longrightarrow> \<not> evMasked s \<Longrightarrow> handler \<in> {newPackets_code fired, timedOut_code fired} \<Longrightarrow>
    arrives s ((resume LauncherThread (delivered_code handler @ todo s LauncherThread) s)\<lparr>evMasked := True\<rparr>)"
| spurious: "todo s t = Asleep f # p \<Longrightarrow> arrives s (resume t p s)"

definition threadStep :: "threads \<Rightarrow> threads \<Rightarrow> bool" where
  "threadStep s s' \<longleftrightarrow> moves s s' \<or> wakes s s' \<or> arrives s s'"

definition initialThreads :: "bool \<Rightarrow> threads" where
  "initialThreads adaptive = \<lparr>todo = (\<lambda>_. []), mutex = (\<lambda>_. None), made = (\<lambda>_. False),
     onceRun = (\<lambda>_. False), theTimer = newTimer, evMasked = False, notified = False,
     adaptiveBuild = adaptive\<rparr>"

abbreviation threadsReach :: "bool \<Rightarrow> threads \<Rightarrow> bool" where
  "threadsReach adaptive s \<equiv> threadStep\<^sup>*\<^sup>* (initialThreads adaptive) s"

lemmas codes = once_code_def getSendWindow_code_def getSendTable_code_def getNetworkParams_code_def
  initLauncher_code_def getLauncherId_code_def initLaunchBattery_code_def getLaunchBattery_code_def
  notifyLauncher_code_def sendMessageGbn_code_def fireLaunchPad_code_def sendAllPacketsInWindow_code_def
  timeout_code_def startTimer_code_def newPackets_code_def timedOut_code_def delivered_code_def
  rttSample_code_def acked_code_def listenForAcks_code_def launcher_code_def calcTimeout_code_def
  timerRound_code_def timer_code_def thread_code_def

lemma movesE:
  assumes "moves s s'"
  obtains t i p where "todo s t = i # p" "perform t i p s = Some s'"
proof -
  from assms obtain t where a: "advance t s = Some s'" by (auto simp: moves_def)
  then obtain i p where "todo s t = i # p" by (cases "todo s t") (simp_all add: advance_def)
  with a that show thesis by (simp add: advance_def)
qed

lemma moves_perform: "todo s t = i # p \<Longrightarrow> perform t i p s = Some s' \<Longrightarrow> moves s s'"
  by (auto simp: moves_def advance_def intro!: exI [of _ t])

lemma setFlag_simps [simp]:
  "todo (setFlag f s) = todo s" "mutex (setFlag f s) = mutex s" "evMasked (setFlag f s) = evMasked s"
  "notified (setFlag f s) = notified s" "adaptiveBuild (setFlag f s) = adaptiveBuild s"
  by (cases f; simp)+

end
