(* ===== verification/LockOrder.thy ===== *)
theory LockOrder
  imports Threads
begin

text \<open>
  The order in which the threads take their locks. The locks are made a linear order; \<open>orderly\<close>
  checks a list of instructions against it, on every branch, and \<open>orderInv\<close> says of a state that
  what every thread has left to do is orderly. All routines are, and every instruction keeps it.
\<close>

subsection \<open>The order\<close>

fun rank :: "lock \<Rightarrow> nat" where
  "rank isAliveLock = 0"
| "rank launchBatteryLock = 1"
| "rank atTimeoutLock = 2"
| "rank networkSamplerLock = 3"
| "rank (OnceLock NetworkOnce) = 4"
| "rank (OnceLock BatteryOnce) = 5"
| "rank sendTableLock = 6"
| "rank (OnceLock TableOnce) = 7"
| "rank (OnceLock WindowOnce) = 8"
| "rank (OnceLock LauncherOnce) = 9"
| "rank launcherInitializerLock = 10"
| "rank sendWindowLock = 11"

lemma rank_bound: "rank l \<le> 11"
  by (cases l rule: rank.cases) simp_all

lemma rank_inject [simp]: "rank l = rank l' \<longleftrightarrow> l = l'"
  by (cases l rule: rank.cases; cases l' rule: rank.cases) simp_all

instantiation lock :: linorder
begin

definition less_eq_lock :: "lock \<Rightarrow> lock \<Rightarrow> bool" where
  "less_eq_lock l l' \<longleftrightarrow> rank l \<le> rank l'"

definition less_lock :: "lock \<Rightarrow> lock \<Rightarrow> bool" where
  "less_lock l l' \<longleftrightarrow> rank l < rank l'"

instance
  by standard (auto simp: less_eq_lock_def less_lock_def)

end

text \<open>Locks are taken in this order, but for \<open>sendWindowLock\<close>: the handlers take it after
  \<open>launchBatteryLock\<close> and \<open>listenForAcks\<close> before it. Only the launcher takes it.\<close>

definition mayTake :: "thread \<Rightarrow> lock set \<Rightarrow> lock \<Rightarrow> bool" where
  "mayTake t H l \<longleftrightarrow> l \<notin> H
     \<and> (if l = sendWindowLock then t = LauncherThread else \<forall>h\<in>H. h \<noteq> sendWindowLock \<longrightarrow> h < l)"

lemma mayTake_simps:
  "mayTake t {} l = (l = sendWindowLock \<longrightarrow> t = LauncherThread)"
  "mayTake t (insert h H) l = (l \<noteq> h \<and> mayTake t H l \<and> (l \<noteq> sendWindowLock \<longrightarrow> h \<noteq> sendWindowLock \<longrightarrow> rank h < rank l))"
  by (auto simp: mayTake_def less_lock_def)

lemma insert_released: "l \<notin> H \<Longrightarrow> insert l H - {l} = H"
  by simp

text \<open>The locks of the data. The send table has its own, and is used inside \<open>launchBatteryLock\<close> besides.\<close>

fun guardsOf :: "shared \<Rightarrow> lock set" where
  "guardsOf LaunchPads = {launchBatteryLock}"
| "guardsOf Window = {sendWindowLock}"
| "guardsOf Table = {launchBatteryLock, sendTableLock}"
| "guardsOf NetworkEstimates = {networkSamplerLock}"
| "guardsOf LastMsgId = {}"

fun settable :: "flag \<Rightarrow> lock set \<Rightarrow> bool" where
  "settable Alive H = (isAliveLock \<in> H)"
| "settable Rings H = False"
| "settable (Made c) H = ((if c = LauncherOnce then launcherInitializerLock else OnceLock c) \<in> H)"
| "settable (Done c) H = (OnceLock c \<in> H)"

text \<open>\<open>orderly t m H p\<close>: thread \<open>t\<close> holds \<open>H\<close>, has the events masked if \<open>m\<close>, and runs \<open>p\<close> to its end
  taking each lock in order, releasing what it holds, waiting with nothing that the thread it waits
  for needs, and, the start of the launcher apart, never holding a lock with the events unmasked.\<close>

function (sequential) orderly :: "thread \<Rightarrow> bool \<Rightarrow> lock set \<Rightarrow> instr list \<Rightarrow> bool" where
  "orderly t m H [] = (H = {})"
| "orderly t m H (Acquire l # p) =
     ((m \<or> l = launcherInitializerLock) \<and> mayTake t H l \<and> orderly t m (insert l H) p)"
| "orderly t m H (Release l # p) = (l \<in> H \<and> orderly t m (H - {l}) p)"
| "orderly t m H (Access d # p) = (guardsOf d \<subseteq> H \<and> orderly t m H p)"
| "orderly t m H (SetAtTimeout a # p) = (atTimeoutLock \<in> H \<and> orderly t m H p)"
| "orderly t m H (SetFlag f # p) = (settable f H \<and> orderly t m H p)"
| "orderly t m H (IfFlag f b q # p) =
     ((\<forall>c. f = Done c \<longrightarrow> OnceLock c \<in> H) \<and> orderly t m H (q @ p) \<and> orderly t m H p)"
| "orderly t m H (Await f l # p) = (m \<and> l \<in> H \<and> (if f = Alive then H = {l} else mayTake t (H - {l}) l)
     \<and> l \<noteq> sendWindowLock \<and> orderly t m H p)"
| "orderly t m H (Asleep f # p) = ((f = Alive \<longrightarrow> H = {}) \<and> orderly t m H p)"
| "orderly t m H (JoinTimer # p) = (H = {} \<and> orderly t m H p)"
| "orderly t m H (TimedWait l # p) = (m \<and> H = {l} \<and> l \<noteq> sendWindowLock \<and> orderly t m H p)"
| "orderly t m H (TimedOut l # p) = (m \<and> H = {} \<and> l \<noteq> sendWindowLock \<and> orderly t m {l} p)"
| "orderly t m H (TimerRound # p) = (atTimeoutLock \<in> H \<and> orderly t m H p)"
| "orderly t m H (TimerLoop # p) = (t = TimerThread \<and> m \<and> H = {} \<and> orderly t m H p)"
| "orderly t m H (KillLauncher # p) = ((t = LauncherThread \<longrightarrow> launchBatteryLock \<in> H) \<and> orderly t m H p)"
| "orderly t m H (MaskEvents # p) = (t = LauncherThread \<and> orderly t True H p)"
| "orderly t m H (UnmaskEvents # p) = (t = LauncherThread \<and> H = {} \<and> orderly t False H p)"
| "orderly t m H (i # p) = orderly t m H p"
  by pat_completeness auto
termination by (relation "measure (\<lambda>(t, m, H, p). size_list size p)") auto

subsection \<open>The routines are orderly\<close>

lemma orderly_once:
  assumes "mayTake t H (OnceLock c)" "orderly t True H p"
    and "\<And>q. orderly t True (insert (OnceLock c) H) q \<Longrightarrow> orderly t True (insert (OnceLock c) H) (routine @ q)"
  shows "orderly t True H (once_code c routine @ p)"
proof -
  have "OnceLock c \<notin> H" using assms(1) by (simp add: mayTake_def)
  then have "orderly t True (insert (OnceLock c) H) (SetFlag (Done c) # Release (OnceLock c) # p)"
    using assms(2) by (simp add: insert_released)
  from assms(3) [OF this] \<open>OnceLock c \<notin> H\<close> assms(1,2) show ?thesis
    by (simp add: once_code_def insert_released)
qed

lemma orderly_simple_once:
  assumes "mayTake t H (OnceLock c)" "c \<noteq> LauncherOnce" "orderly t True H p"
  shows "orderly t True H (once_code c [SetFlag (Made c)] @ p)"
  using assms by (intro orderly_once) auto

lemma orderly_getters:
  "mayTake t H (OnceLock TableOnce) \<Longrightarrow> orderly t True H p \<Longrightarrow> orderly t True H (getSendTable_code @ p)"
  "mayTake t H (OnceLock WindowOnce) \<Longrightarrow> orderly t True H p \<Longrightarrow> orderly t True H (getSendWindow_code @ p)"
  "mayTake t H (OnceLock NetworkOnce) \<Longrightarrow> orderly t True H p \<Longrightarrow> orderly t True H (getNetworkParams_code @ p)"
  unfolding getSendTable_code_def getSendWindow_code_def getNetworkParams_code_def
  by (intro orderly_simple_once; simp)+

lemma orderly_getLauncherId:
  assumes "mayTake t H (OnceLock LauncherOnce)" "mayTake t H launcherInitializerLock" "orderly t True H p"
  shows "orderly t True H (getLauncherId_code @ p)"
  unfolding getLauncherId_code_def
proof (rule orderly_once [OF assms(1,3)])
  let ?H = "insert (OnceLock LauncherOnce) H"
  fix q assume "orderly t True ?H q"
  moreover have "mayTake t ?H launcherInitializerLock" using assms(2) by (simp add: mayTake_simps)
  moreover from this have "insert launcherInitializerLock ?H - {launcherInitializerLock} = ?H"
    by (auto simp: mayTake_def)
  ultimately show "orderly t True ?H (initLauncher_code @ q)"
    by (simp add: initLauncher_code_def)
qed

text \<open>In the critical sections of the battery.\<close>

definition batteryLocks :: "thread \<Rightarrow> lock set \<Rightarrow> bool" where
  "batteryLocks t H \<longleftrightarrow> launchBatteryLock \<in> H \<and> H \<subseteq> {launchBatteryLock, sendWindowLock}"

lemma batteryLocks_mayTake:
  assumes "batteryLocks t H" "launchBatteryLock < l" "l \<noteq> sendWindowLock"
  shows "mayTake t H l"
  using assms by (auto simp: batteryLocks_def mayTake_def)

lemma orderly_getLaunchBattery:
  assumes "batteryLocks t H" "orderly t True H p"
  shows "orderly t True H (getLaunchBattery_code @ p)"
  unfolding getLaunchBattery_code_def
proof (rule orderly_once)
  let ?H = "insert (OnceLock BatteryOnce) H"
  fix q assume q: "orderly t True ?H q"
  have m: "mayTake t H (OnceLock c)" "mayTake t H launcherInitializerLock" for c
    using assms(1) by (cases c; auto intro!: batteryLocks_mayTake simp: less_lock_def)+
  then show "orderly t True ?H (initLaunchBattery_code @ q)"
    using q by (auto simp: initLaunchBattery_code_def mayTake_simps intro!: orderly_getters orderly_getLauncherId)
qed (use assms in \<open>auto intro!: batteryLocks_mayTake simp: less_lock_def\<close>)

lemma orderly_notify:
  assumes "mayTake t H (OnceLock LauncherOnce)" "mayTake t H launcherInitializerLock"
    "t = LauncherThread \<longrightarrow> launchBatteryLock \<in> H" "orderly t True H p"
  shows "orderly t True H (notifyLauncher_code @ p)"
  using orderly_getLauncherId [OF assms(1,2), of "KillLauncher # p"] assms(3,4)
  by (simp add: notifyLauncher_code_def)

lemma orderly_table:
  assumes "batteryLocks t H" "orderly t True H p"
  shows "orderly t True H (Acquire sendTableLock # getSendTable_code @ Access Table # Release sendTableLock # p)"
proof -
  have "mayTake t H sendTableLock" "mayTake t (insert sendTableLock H) (OnceLock TableOnce)"
    using assms(1) by (auto intro!: batteryLocks_mayTake simp: less_lock_def mayTake_simps)
  moreover from this have "sendTableLock \<notin> H" by (simp add: mayTake_def)
  ultimately show ?thesis using assms
    by (auto simp: batteryLocks_def insert_released intro!: orderly_getters)
qed

lemma orderly_fires:
  assumes "batteryLocks t H" "orderly t True H q"
  shows "orderly t True H (concat (map fireLaunchPad_code fired) @ q)"
proof (induction fired)
  case (Cons b fired)
  with orderly_table [OF assms(1)] assms(1) show ?case
    by (simp add: fireLaunchPad_code_def batteryLocks_def)
qed (use assms(2) in simp)

lemma orderly_samples:
  assumes "batteryLocks t H" "orderly t True H q"
  shows "orderly t True H (concat (replicate n rttSample_code) @ q)"
proof (induction n)
  case (Suc n)
  have m: "mayTake t H networkSamplerLock" "mayTake t (insert networkSamplerLock H) (OnceLock NetworkOnce)"
    using assms(1) by (auto intro!: batteryLocks_mayTake simp: less_lock_def mayTake_simps)
  moreover from this have "networkSamplerLock \<notin> H" by (simp add: mayTake_def)
  ultimately show ?case using Suc assms(1)
    by (auto simp: rttSample_code_def batteryLocks_def insert_released intro!: orderly_getters)
qed (use assms(2) in simp)

lemma orderly_send: "orderly (App k) True {} (sendMessageGbn_code fits)"
proof -
  have b: "batteryLocks (App k) {launchBatteryLock}" by (simp add: batteryLocks_def)
  have "orderly (App k) True {} (notifyLauncher_code @ [])" by (rule orderly_notify) (simp_all add: mayTake_simps)
  then show ?thesis using orderly_table [OF b]
    by (auto simp: sendMessageGbn_code_def mayTake_simps intro!: orderly_getLaunchBattery [OF b])
qed

lemma orderly_handler:
  assumes "handler \<in> {newPackets_code fired, timedOut_code fired}"
    and "orderly LauncherThread False {} p"
  shows "orderly LauncherThread True {} (delivered_code handler @ p)"
proof -
  let ?H = "{sendWindowLock, launchBatteryLock}"
  have b: "batteryLocks LauncherThread ?H" by (simp add: batteryLocks_def)
  have d: "?H - {sendWindowLock} = {launchBatteryLock}" by auto
  have "orderly LauncherThread True ?H (sendAllPacketsInWindow_code fired @ Release sendWindowLock # Release launchBatteryLock # r)"
    if "orderly LauncherThread True {} r" for r
    unfolding sendAllPacketsInWindow_code_def append_assoc
  proof (intro orderly_getLaunchBattery [OF b] orderly_getters)
    show "orderly LauncherThread True ?H ([Access Window, Access LaunchPads] @ concat (map fireLaunchPad_code fired)
        @ Release sendWindowLock # Release launchBatteryLock # r)"
      using that d orderly_fires [OF b] by simp
  qed (simp add: mayTake_simps)
  then show ?thesis using assms
    by (auto simp: delivered_code_def newPackets_code_def timedOut_code_def
        startTimer_code_def timeout_code_def mayTake_simps)
qed

lemma orderly_ack: "orderly LauncherThread m {} (listenForAcks_code isAck acked endOfMessage)"
proof -
  let ?H = "{launchBatteryLock, sendWindowLock}"
  have b: "batteryLocks LauncherThread ?H" by (simp add: batteryLocks_def)
  have d: "?H - {launchBatteryLock} = {sendWindowLock}" by auto
  let ?e = "[Release launchBatteryLock, Release sendWindowLock, UnmaskEvents]"
  have e: "orderly LauncherThread True ?H ?e" using d by simp
  have n: "orderly LauncherThread True ?H (notifyLauncher_code @ ?e)"
    by (rule orderly_notify [OF _ _ _ e]) (simp_all add: mayTake_simps)
  have t: "orderly LauncherThread True ?H (timeout_code AT_TIMEOUT_RESTART @ r)"
    if "orderly LauncherThread True ?H r" for r
    using that by (simp add: timeout_code_def mayTake_simps insert_Diff_if)
  have "orderly LauncherThread True ?H (acked_code acked endOfMessage @ ?e)"
    unfolding acked_code_def append_assoc
    using n t e orderly_table [OF b]
    by (intro orderly_getLaunchBattery [OF b] orderly_samples [OF b]) auto
  then have "orderly LauncherThread True {sendWindowLock}
      (getSendWindow_code @ Access Window # Acquire launchBatteryLock # acked_code acked endOfMessage @ ?e)"
    by (intro orderly_getters) (simp_all add: mayTake_simps)
  then show ?thesis by (simp add: listenForAcks_code_def mayTake_simps)
qed

lemma orderly_launcher: "orderly LauncherThread m {} launcher_code"
  by (simp add: launcher_code_def mayTake_simps)

lemma orderly_timer: "orderly TimerThread True {} timer_code"
  by (simp add: timer_code_def mayTake_simps)

lemma orderly_round:
  assumes "orderly TimerThread True {} (TimerLoop # p)"
  shows "orderly TimerThread True {} (timerRound_code adaptive @ TimerLoop # p)"
proof -
  let ?H = "{atTimeoutLock}"
  let ?r = "TimerRound # Release atTimeoutLock # TimerLoop # p"
  let ?w = "TimedWait atTimeoutLock # IfFlag Rings True notifyLauncher_code # ?r"
  have r: "orderly TimerThread True ?H ?r" using assms by simp
  have "orderly TimerThread True ?H (notifyLauncher_code @ ?r)"
    by (rule orderly_notify [OF _ _ _ r]) (simp_all add: mayTake_simps)
  with r have w: "orderly TimerThread True ?H ?w" by simp
  have "orderly TimerThread True (insert networkSamplerLock ?H)
      (getNetworkParams_code @ Access NetworkEstimates # Release networkSamplerLock # ?w)"
    using w by (intro orderly_getters) (simp_all add: mayTake_simps insert_released)
  with w show ?thesis by (simp add: timerRound_code_def calcTimeout_code_def mayTake_simps)
qed

subsection \<open>The order is kept\<close>

definition held :: "threads \<Rightarrow> thread \<Rightarrow> lock set" where
  "held s t = {l. mutex s l = Some t}"

definition maskOf :: "threads \<Rightarrow> thread \<Rightarrow> bool" where
  "maskOf s t \<longleftrightarrow> (t = LauncherThread \<longrightarrow> evMasked s)"

definition orderInv :: "threads \<Rightarrow> bool" where
  "orderInv s \<longleftrightarrow> (\<forall>t. orderly t (maskOf s t) (held s t) (todo s t))
     \<and> (\<not> evMasked s \<longrightarrow> held s LauncherThread \<subseteq> {launcherInitializerLock})
     \<and> mutex s sendWindowLock \<in> {None, Some LauncherThread}
     \<and> finite {t. todo s t \<noteq> []}"

lemma orderInv_D:
  assumes "orderInv s"
  shows "orderly t (maskOf s t) (held s t) (todo s t)"
    and "\<not> evMasked s \<Longrightarrow> held s LauncherThread \<subseteq> {launcherInitializerLock}"
    and "mutex s sendWindowLock = Some t \<Longrightarrow> t = LauncherThread"
    and "finite {t. todo s t \<noteq> []}"
  using assms by (auto simp: orderInv_def)

lemma held_setFlag [simp]: "held (setFlag f s) t = held s t"
  by (simp add: held_def)

lemma maskOf_setFlag [simp]: "maskOf (setFlag f s) t = maskOf s t"
  by (simp add: maskOf_def)

lemma orderInv_cong:
  assumes "orderInv s" "todo s' = todo s" "mutex s' = mutex s" "evMasked s' = evMasked s"
  shows "orderInv s'"
  using assms by (simp add: orderInv_def held_def maskOf_def)

lemma held_simps [simp]:
  "held (s\<lparr>todo := td\<rparr>) t = held s t"
  "held (s\<lparr>theTimer := tm\<rparr>) t = held s t"
  "held (s\<lparr>evMasked := b\<rparr>) t = held s t"
  "held (s\<lparr>notified := b\<rparr>) t = held s t"
  "maskOf (s\<lparr>todo := td\<rparr>) t = maskOf s t"
  "maskOf (s\<lparr>theTimer := tm\<rparr>) t = maskOf s t"
  "maskOf (s\<lparr>mutex := mx\<rparr>) t = maskOf s t"
  "maskOf (s\<lparr>notified := b\<rparr>) t = maskOf s t"
  by (simp_all add: held_def maskOf_def)

text \<open>Only the code of the thread that acts and what it holds change.\<close>

lemma orderInv_local:
  assumes "orderInv s" "\<And>u. u \<noteq> t \<Longrightarrow> todo s' u = todo s u \<and> held s' u = held s u"
    and "evMasked s' = evMasked s \<or> t = LauncherThread"
    and "orderly t (maskOf s' t) (held s' t) (todo s' t)"
    and "\<not> evMasked s' \<Longrightarrow> held s' LauncherThread \<subseteq> {launcherInitializerLock}"
    and "mutex s' sendWindowLock \<in> {None, Some LauncherThread}"
  shows "orderInv s'"
proof -
  have "orderly u (maskOf s' u) (held s' u) (todo s' u)" for u
  proof (cases "u = t")
    case False
    then have "maskOf s' u = maskOf s u" using assms(3) by (auto simp: maskOf_def)
    with False assms(2) orderInv_D(1) [OF assms(1), of u] show ?thesis by simp
  qed (use assms(4) in simp)
  moreover have "{u. todo s' u \<noteq> []} \<subseteq> insert t {u. todo s u \<noteq> []}"
    using assms(2) by auto
  then have "finite {u. todo s' u \<noteq> []}"
    using assms(1) by (auto simp: orderInv_def intro: finite_subset)
  ultimately show ?thesis using assms(5,6) by (auto simp: orderInv_def)
qed

lemma held_stepping:
  "mutex s l = None \<Longrightarrow> held ((resume t p s)\<lparr>mutex := (mutex s)(l := Some t)\<rparr>) u
     = (if u = t then insert l (held s u) else held s u)"
  "l \<in> held s t \<Longrightarrow> held ((resume t p s)\<lparr>mutex := (mutex s)(l := None)\<rparr>) u
     = (if u = t then held s u - {l} else held s u)"
  by (auto simp: held_def)

lemma orderInv_resume:
  assumes "orderInv s" "orderly t (maskOf s t) (held s t) p"
  shows "orderInv (resume t p s)"
  by (rule orderInv_local [OF assms(1), of t]) (use assms in \<open>auto simp: orderInv_def\<close>)

lemma orderly_woken: "orderly t m H p \<Longrightarrow> orderly t m H (woken f p)"
  by (cases p rule: list.exhaust; cases "(f, p)" rule: woken.cases) auto

lemma orderInv_woken:
  assumes "orderInv s"
  shows "orderInv (s\<lparr>todo := (\<lambda>u. woken f (todo s u))\<rparr>)"
proof -
  have "woken f p \<noteq> [] \<Longrightarrow> p \<noteq> []" for p by auto
  then have "{t. woken f (todo s t) \<noteq> []} \<subseteq> {t. todo s t \<noteq> []}" by auto
  then have "finite {t. woken f (todo s t) \<noteq> []}"
    using assms by (auto simp: orderInv_def intro: finite_subset)
  then show ?thesis using assms orderly_woken by (auto simp: orderInv_def)
qed

lemma orderInv_spawn:
  assumes "orderInv s" "todo s u = []"
  shows "orderInv (resume u (thread_code u) s)"
proof (rule orderInv_resume [OF assms(1)])
  have "held s u = {}" using orderInv_D(1) [OF assms(1), of u] assms(2) by simp
  then show "orderly u (maskOf s u) (held s u) (thread_code u)"
    using orderly_launcher orderly_timer by (cases u) (simp_all add: thread_code_def maskOf_def)
qed

text \<open>A lock is locked or unlocked; the events are masked or unmasked.\<close>

lemma orderInv_locks:
  assumes "orderInv s" "mutex s l = None" "mayTake t (held s t) l" "maskOf s t \<or> l = launcherInitializerLock"
    "orderly t (maskOf s t) (insert l (held s t)) q"
  shows "orderInv ((resume t q s)\<lparr>mutex := (mutex s)(l := Some t)\<rparr>)" (is "orderInv ?s'")
proof (rule orderInv_local [OF assms(1), of t])
  show "todo ?s' u = todo s u \<and> held ?s' u = held s u" if "u \<noteq> t" for u using that by (auto simp: held_def assms(2))
  show "orderly t (maskOf ?s' t) (held ?s' t) (todo ?s' t)" using assms(5) by (simp add: held_stepping(1) [OF assms(2)])
  show "held ?s' LauncherThread \<subseteq> {launcherInitializerLock}" if "\<not> evMasked ?s'"
    using that orderInv_D(2) [OF assms(1)] assms(4) by (auto simp: held_def maskOf_def)
  show "mutex ?s' sendWindowLock \<in> {None, Some LauncherThread}"
    using assms(1,3) by (auto simp: orderInv_def mayTake_def)
qed simp

lemma orderInv_unlocks:
  assumes "orderInv s" "l \<in> held s t" "orderly t (maskOf s t) (held s t - {l}) q"
  shows "orderInv ((resume t q s)\<lparr>mutex := (mutex s)(l := None)\<rparr>)" (is "orderInv ?s'")
proof (rule orderInv_local [OF assms(1), of t])
  show "todo ?s' u = todo s u \<and> held ?s' u = held s u" if "u \<noteq> t" for u
    using that assms(2) by (auto simp: held_def)
  show "orderly t (maskOf ?s' t) (held ?s' t) (todo ?s' t)" using assms(3) by (simp add: held_stepping(2) [OF assms(2)])
  show "held ?s' LauncherThread \<subseteq> {launcherInitializerLock}" if "\<not> evMasked ?s'"
    using that orderInv_D(2) [OF assms(1)] by (auto simp: held_def)
  show "mutex ?s' sendWindowLock \<in> {None, Some LauncherThread}"
    using assms(1) by (auto simp: orderInv_def)
qed simp

lemma orderInv_masks:
  assumes "orderInv s" "orderly LauncherThread b (held s LauncherThread) p" "b \<or> held s LauncherThread = {}"
  shows "orderInv ((resume LauncherThread p s)\<lparr>evMasked := b\<rparr>)"
  by (rule orderInv_local [OF assms(1), of LauncherThread])
    (use assms in \<open>auto simp: orderInv_def maskOf_def\<close>)

lemma orderInv_awaits:
  assumes "orderInv s" "orderly t (maskOf s t) (held s t) (Await f l # p)" "perform t (Await f l) p s = Some s'"
  shows "orderInv s'"
proof (cases "flagOf f s")
  case True
  with assms(3) have "s' = resume t p s" by simp
  moreover have "orderly t (maskOf s t) (held s t) p" using assms(2) unfolding orderly.simps by blast
  ultimately show ?thesis using orderInv_resume [OF assms(1)] by blast
next
  case False
  let ?q = "Asleep f # Acquire l # Await f l # p"
  from assms(2) have o: "maskOf s t" "l \<in> held s t" "orderly t (maskOf s t) (held s t) p"
    "if f = Alive then held s t = {l} else mayTake t (held s t - {l}) l" "l \<noteq> sendWindowLock"
    unfolding orderly.simps by blast+
  then have m: "mayTake t (held s t - {l}) l" by (auto simp: mayTake_simps split: if_splits)
  moreover have "insert l (held s t - {l}) = held s t" using o(2) by auto
  ultimately have "orderly t (maskOf s t) (held s t - {l}) ?q" using o by (auto split: if_splits)
  from orderInv_unlocks [OF assms(1) o(2) this] False assms(3) show ?thesis by simp
qed

lemma orderInv_spawns:
  assumes "orderInv s" "todo s t \<noteq> []" "orderly t (maskOf s t) (held s t) p" "perform t (Spawn u) p s = Some s'"
  shows "orderInv s'"
proof -
  have u: "todo s u = []" "s' = resume u (thread_code u) (resume t p s)" using assms(4) by (auto split: if_splits)
  with assms(2) have "u \<noteq> t" by auto
  with u(1) orderInv_resume [OF assms(1,3)] have "orderInv (resume u (thread_code u) (resume t p s))"
    by (intro orderInv_spawn) simp_all
  with u(2) show ?thesis by simp
qed

text \<open>Each instruction keeps the order.\<close>

lemma orderInv_perform:
  assumes "orderInv s" "todo s t = i # p" "perform t i p s = Some s'"
  shows "orderInv s'"
proof -
  note O = orderInv_D(1) [OF assms(1), of t, unfolded assms(2)]
  note rest = orderInv_resume [OF assms(1), of t p]
  note locked = orderInv_unlocks [OF assms(1), of _ t] orderInv_masks [OF assms(1)]
  show ?thesis
  proof (cases i)
    case (Acquire l)
    with assms(3) have "mutex s l = None" "s' = (resume t p s)\<lparr>mutex := (mutex s)(l := Some t)\<rparr>"
      by (auto split: if_splits)
    with O Acquire show ?thesis by (auto intro!: orderInv_locks [OF assms(1)])
  next
    case (SetFlag f)
    with O rest have "orderInv (resume t p s)" by simp
    with SetFlag assms(3) show ?thesis by (auto intro: orderInv_cong)
  next
    case (Spawn u)
    with O assms show ?thesis by (auto intro: orderInv_spawns [of s t p u])
  next
    case (Await f l)
    with O assms show ?thesis by (blast intro: orderInv_awaits)
  next
    case (SignalFlag f)
    with O rest have "orderInv (resume t p s)" by simp
    from orderInv_woken [OF this, of f] SignalFlag assms(3) show ?thesis by simp
  next
    case TimerLoop
    with O have "t = TimerThread" "maskOf s t" "held s t = {}" "orderly t True {} (TimerLoop # p)" by auto
    with TimerLoop assms(3) orderly_round [of p] show ?thesis
      by (auto intro!: orderInv_resume assms(1) split: if_splits)
  qed (use assms O rest in \<open>auto intro: locked orderInv_cong orderInv_resume split: if_splits\<close>)
qed

lemma orderInv_moves: "moves s s' \<Longrightarrow> orderInv s \<Longrightarrow> orderInv s'"
  by (elim movesE) (rule orderInv_perform)

lemma orderInv_wakes:
  assumes "wakes s s'" "orderInv s"
  shows "orderInv s'"
proof -
  from assms(1) obtain l p where w: "todo s TimerThread = TimedOut l # p"
    "s' = resume TimerThread (Acquire l # p) s" by cases
  with orderInv_D(1) [OF assms(2), of TimerThread]
  have "orderly TimerThread (maskOf s TimerThread) (held s TimerThread) (Acquire l # p)"
    by (auto simp: mayTake_simps)
  then show ?thesis unfolding w(2) by (rule orderInv_resume [OF assms(2)])
qed

text \<open>A signal finds the launcher past its start.\<close>

lemma orderInv_arrives:
  assumes "arrives s s'" "orderInv s" "notified s \<Longrightarrow> mutex s launcherInitializerLock \<noteq> Some LauncherThread"
  shows "orderInv s'"
  using assms(1)
proof cases
  case (call k fits)
  then have "held s (App k) = {}" using orderInv_D(1) [OF assms(2), of "App k"] by simp
  with call show ?thesis using orderly_send
    by (auto intro!: orderInv_resume assms(2) simp: maskOf_def)
next
  case (datagram isAck acked endOfMessage)
  then have "held s LauncherThread = {}" using orderInv_D(1) [OF assms(2), of LauncherThread] by simp
  with datagram show ?thesis using orderly_ack
    by (auto intro!: orderInv_resume assms(2))
next
  case (signal handler fired)
  then have "held s LauncherThread = {}"
    using orderInv_D(2) [OF assms(2)] assms(3) by (auto simp: held_def)
  moreover from this signal have "orderly LauncherThread False {} (todo s LauncherThread)"
    using orderInv_D(1) [OF assms(2), of LauncherThread] by (simp add: maskOf_def)
  ultimately show ?thesis
    by (intro orderInv_local [OF assms(2), of LauncherThread])
      (use signal orderly_handler assms(2) in \<open>auto simp: orderInv_def maskOf_def\<close>)
next
  case (spurious t f p)
  then show ?thesis using orderInv_D(1) [OF assms(2), of t]
    by (auto intro!: orderInv_resume assms(2))
qed

lemma orderInv_initial: "orderInv (initialThreads adaptive)"
  by (simp add: orderInv_def initialThreads_def held_def)

text \<open>What is accessed is guarded by locks that only one thread holds.\<close>

lemma access_guarded:
  assumes "orderInv s" "todo s t = Access d # p" "l \<in> guardsOf d"
  shows "mutex s l = Some t"
  using orderInv_D(1) [OF assms(1), of t] assms(2,3) by (auto simp: held_def)

end
