(* ===== verification/Handshake.thy ===== *)
theory Handshake
  imports LockOrder
begin

text \<open>
  What the threads know of one another. \<open>protocolInv\<close>: the launcher creates its timer only when
  there is none, awaits that it is alive, and joins it only after it was told to stop. \<open>startInv\<close>: the
  first call creates the battery and the launcher, under \<open>launchBatteryLock\<close>; until the launcher
  has started no other thread does anything but wait for that lock.
\<close>

subsection \<open>The timer\<close>

definition simpleOnce :: "once \<Rightarrow> bool" where
  "simpleOnce c \<longleftrightarrow> c \<in> {WindowOnce, TableOnce, NetworkOnce}"

lemma simpleOnce_simps [simp]:
  "simpleOnce WindowOnce" "simpleOnce TableOnce" "simpleOnce NetworkOnce"
  "\<not> simpleOnce BatteryOnce" "\<not> simpleOnce LauncherOnce"
  by (simp_all add: simpleOnce_def)

text \<open>Code that takes locks, accesses what they guard and creates simple singletons.\<close>

function (sequential) mere :: "instr list \<Rightarrow> bool" where
  "mere [] = True"
| "mere (Acquire l # p) = (l \<noteq> launcherInitializerLock \<and> mere p)"
| "mere (Release l # p) = (l \<noteq> launcherInitializerLock \<and> mere p)"
| "mere (Access d # p) = mere p"
| "mere (SetFlag (Made c) # p) = (simpleOnce c \<and> mere p)"
| "mere (SetFlag (Done c) # p) = (simpleOnce c \<and> mere p)"
| "mere (IfFlag (Made c) b q # p) = (simpleOnce c \<and> mere (q @ p) \<and> mere p)"
| "mere (IfFlag (Done c) b q # p) = (simpleOnce c \<and> mere (q @ p) \<and> mere p)"
| "mere (i # p) = False"
  by pat_completeness auto
termination by (relation "measure (size_list size)") auto

definition afterWait :: "instr list" where
  "afterWait = [IfFlag Rings True notifyLauncher_code, TimerRound, Release atTimeoutLock, TimerLoop]"

text \<open>\<open>timerAt p alive stop\<close>: what the timer thread has left to do when \<open>isAlive\<close> is
  \<open>alive\<close> and, if \<open>stop\<close>, it was told to shut down.\<close>

inductive timerAt :: "instr list \<Rightarrow> bool \<Rightarrow> bool \<Rightarrow> bool" where
  absent: "timerAt [] False stop"
| created: "timerAt timer_code False stop"
| starting: "timerAt [SetFlag Alive, Release isAliveLock, SignalFlag Alive, TimerLoop] False stop"
| started: "timerAt [Release isAliveLock, SignalFlag Alive, TimerLoop] True stop"
| signalling: "timerAt [SignalFlag Alive, TimerLoop] True stop"
| looping: "alive \<or> stop \<Longrightarrow> timerAt [TimerLoop] alive stop"
| computing: "mere p \<Longrightarrow> timerAt (p @ TimedWait atTimeoutLock # afterWait) True stop"
| asleep: "timerAt (TimedOut atTimeoutLock # afterWait) True stop"
| relocking: "timerAt (Acquire atTimeoutLock # afterWait) True stop"
| ringing: "timerAt afterWait True stop"
| notifying: "timerAt (notifyLauncher_code @ drop 1 afterWait) True stop"
| killing: "timerAt (KillLauncher # drop 1 afterWait) True stop"
| timingOut: "timerAt (drop 1 afterWait) True stop"
| unlocking: "alive \<or> stop \<Longrightarrow> timerAt [Release atTimeoutLock, TimerLoop] alive stop"

abbreviation stopping :: "timer \<Rightarrow> bool" where
  "stopping tm \<equiv> atTimeout tm = AT_TIMEOUT_SHUTDOWN"

definition timerPlace :: "instr list \<Rightarrow> timer \<Rightarrow> bool" where
  "timerPlace p tm \<longleftrightarrow> timerAt p (isAlive tm) (stopping tm) \<and> atTimeout tm \<noteq> AT_TIMEOUT_RING_THEN_SHUTDOWN"

definition notYetAlive :: "instr list \<Rightarrow> bool" where
  "notYetAlive p \<longleftrightarrow> p \<in> {timer_code, drop 1 timer_code}"

definition signalPending :: "instr list \<Rightarrow> bool" where
  "signalPending p \<longleftrightarrow> p \<in> {timer_code, drop 1 timer_code, drop 2 timer_code, drop 3 timer_code}"

lemmas places = notYetAlive_def signalPending_def timer_code_def afterWait_def

text \<open>What the launcher knows of the timer thread: there is none; there is none and the next one
  will ring; it was created; it runs; it is to stop, or has stopped.\<close>

datatype phase = Off | Ready | Started | On | Stopping

fun inPhase :: "phase \<Rightarrow> instr list \<Rightarrow> timer \<Rightarrow> bool" where
  "inPhase Off p tm = (p = [])"
| "inPhase Ready p tm = (p = [] \<and> atTimeout tm \<noteq> AT_TIMEOUT_SHUTDOWN)"
| "inPhase Started p tm = (p \<noteq> [] \<and> atTimeout tm \<noteq> AT_TIMEOUT_SHUTDOWN)"
| "inPhase On p tm = (p \<noteq> [] \<and> \<not> notYetAlive p \<and> atTimeout tm \<noteq> AT_TIMEOUT_SHUTDOWN)"
| "inPhase Stopping p tm = (\<not> notYetAlive p \<and> atTimeout tm = AT_TIMEOUT_SHUTDOWN)"

text \<open>What a handler can interrupt: the rest of the start, or a datagram not yet treated.\<close>

definition idleCode :: "instr list \<Rightarrow> bool" where
  "idleCode p \<longleftrightarrow> (\<exists>n. p = drop n launcher_code)
     \<or> (\<exists>isAck acked endOfMessage. p = listenForAcks_code isAck acked endOfMessage)"

text \<open>A launcher that creates the thread only when there is none, and awaits its end only after it
  has told it to stop. The battery and the launcher itself exist when it runs.\<close>

function (sequential) heeds :: "phase \<Rightarrow> instr list \<Rightarrow> bool" where
  "heeds ph [] = (ph \<in> {Off, On})"
| "heeds ph (Acquire l # p) = (l \<noteq> launcherInitializerLock \<and> heeds ph p)"
| "heeds ph (Release l # p) = heeds ph p"
| "heeds ph (Access d # p) = heeds ph p"
| "heeds ph (SetRing # p) = heeds ph p"
| "heeds ph (MaskEvents # p) = heeds ph p"
| "heeds ph (KillLauncher # p) = heeds ph p"
| "heeds ph (SignalFlag f # p) = (f = Made LauncherOnce \<and> heeds ph p)"
| "heeds ph (UnmaskEvents # p) = (ph \<in> {Off, On} \<and> idleCode p \<and> p \<notin> {launcher_code, drop 1 launcher_code, drop 2 launcher_code})"
| "heeds ph (SetAtTimeout a # p) = (a \<noteq> AT_TIMEOUT_RING_THEN_SHUTDOWN \<and>
     (if ph = Off then a \<noteq> AT_TIMEOUT_SHUTDOWN \<and> heeds Ready p
      else ph = On \<and> heeds (if a = AT_TIMEOUT_SHUTDOWN then Stopping else On) p))"
| "heeds ph (SetFlag (Made c) # p) = (simpleOnce c \<and> heeds ph p)"
| "heeds ph (SetFlag (Done c) # p) = (simpleOnce c \<and> heeds ph p)"
| "heeds ph (IfFlag Alive b q # p) = (ph \<in> {Off, On} \<and> heeds ph (if (ph = On) = b then q @ p else p))"
| "heeds ph (IfFlag (Made c) b q # p) =
     ((if simpleOnce c then heeds ph (q @ p) else \<not> b) \<and> heeds ph p)"
| "heeds ph (IfFlag (Done c) b q # p) = (simpleOnce c \<and> heeds ph (q @ p) \<and> heeds ph p)"
| "heeds ph (Spawn u # p) = (u = TimerThread \<and> ph = Ready \<and> heeds Started p)"
| "heeds ph (Await f l # p) = (f = Alive \<and> l = isAliveLock \<and> ph = Started \<and> heeds On p)"
| "heeds ph (JoinTimer # p) = (ph = Stopping \<and> heeds Off p)"
| "heeds ph (i # p) = False"
  by pat_completeness auto
termination by (relation "measure (\<lambda>(ph, p). size_list size p)") auto

fun awake :: "instr list \<Rightarrow> instr list" where
  "awake (Asleep f # p) = p"
| "awake p = p"

text \<open>The start of the launcher up to its announcement.\<close>

definition starting :: "instr list \<Rightarrow> bool" where
  "starting p \<longleftrightarrow> p \<in> {launcher_code, drop 1 launcher_code, drop 2 launcher_code}"

definition settled :: "instr list \<Rightarrow> instr list" where
  "settled p = (if starting p then drop 3 launcher_code else awake p)"

text \<open>What a caller of \<open>sendMessageGbn\<close> does not do.\<close>

function (sequential) quiet :: "instr list \<Rightarrow> bool" where
  "quiet [] = True"
| "quiet (Acquire l # p) = quiet p"
| "quiet (Release l # p) = quiet p"
| "quiet (Access d # p) = quiet p"
| "quiet (KillLauncher # p) = quiet p"
| "quiet (SetFlag f # p) = (f \<notin> {Alive, Rings} \<and> quiet p)"
| "quiet (IfFlag f b q # p) = (f \<notin> {Alive, Rings} \<and> quiet (q @ p) \<and> quiet p)"
| "quiet (Spawn u # p) = (u = LauncherThread \<and> quiet p)"
| "quiet (Await f l # p) = (f = Made LauncherOnce \<and> l = launcherInitializerLock \<and> quiet p)"
| "quiet (Asleep f # p) = (f = Made LauncherOnce \<and> quiet p)"
| "quiet (i # p) = False"
  by pat_completeness auto
termination by (relation "measure (size_list size)") auto

definition protocolInv :: "threads \<Rightarrow> bool" where
  "protocolInv s \<longleftrightarrow> timerPlace (todo s TimerThread) (theTimer s)
     \<and> (\<not> evMasked s \<longrightarrow> idleCode (todo s LauncherThread))
     \<and> (\<exists>ph. inPhase ph (todo s TimerThread) (theTimer s) \<and> heeds ph (settled (todo s LauncherThread)))
     \<and> (\<forall>f p. todo s LauncherThread = Asleep f # p \<longrightarrow> f = Alive \<and> signalPending (todo s TimerThread))
     \<and> (\<forall>k. quiet (todo s (App k)))"

lemma protocol_D:
  assumes "protocolInv s"
  shows "timerPlace (todo s TimerThread) (theTimer s)"
    and "\<not> evMasked s \<Longrightarrow> idleCode (todo s LauncherThread)"
    and "\<exists>ph. inPhase ph (todo s TimerThread) (theTimer s) \<and> heeds ph (settled (todo s LauncherThread))"
    and "todo s LauncherThread = Asleep f # p \<Longrightarrow> f = Alive \<and> signalPending (todo s TimerThread)"
    and "quiet (todo s (App k))"
  using assms by (auto simp: protocolInv_def)

lemma heeds_mere [simp]: "mere q \<Longrightarrow> heeds ph (q @ p) = heeds ph p"
  by (induction q rule: mere.induct) auto

lemma mere_append [simp]: "mere q \<Longrightarrow> mere (q @ p) = mere p"
  by (induction q rule: mere.induct) auto

lemma mere_codes [simp]:
  "mere getSendWindow_code" "mere getSendTable_code" "mere getNetworkParams_code"
  "mere rttSample_code" "mere (fireLaunchPad_code b)" "mere (calcTimeout_code adaptive)"
  by (simp_all add: getSendWindow_code_def getSendTable_code_def getNetworkParams_code_def once_code_def
      rttSample_code_def fireLaunchPad_code_def calcTimeout_code_def)

lemma mere_repeated [simp]:
  "mere (concat (map fireLaunchPad_code fired))" "mere (concat (replicate n rttSample_code))"
  by (induction fired) (auto simp: mere.simps(1), induction n, auto)

lemma heeds_getters [simp]:
  "heeds ph (getLaunchBattery_code @ p) = heeds ph p"
  "heeds ph (getLauncherId_code @ p) = heeds ph p"
  "heeds ph (notifyLauncher_code @ p) = heeds ph p"
  by (simp_all add: getLaunchBattery_code_def getLauncherId_code_def notifyLauncher_code_def once_code_def)

text \<open>The code that a handler can interrupt heeds the protocol whatever the handler has done.\<close>

lemma heeds_idle: "idleCode p \<Longrightarrow> \<not> starting p \<Longrightarrow> ph \<in> {Off, On} \<Longrightarrow> heeds ph p"
proof -
  assume i: "idleCode p" "\<not> starting p" "ph \<in> {Off, On}"
  have "heeds ph (drop n launcher_code)" if "\<not> starting (drop n launcher_code)" for n
    using that i(3) by (cases "n = 0 \<or> n = 1 \<or> n = 2"; cases "n = 3")
      (auto simp: starting_def launcher_code_def drop_Cons')
  moreover have "heeds ph (listenForAcks_code isAck acked endOfMessage)" for isAck acked endOfMessage
    using i(3) by (auto simp: listenForAcks_code_def acked_code_def timeout_code_def idleCode_def launcher_code_def)
  ultimately show ?thesis using i by (auto simp: idleCode_def)
qed

lemma heeds_handler:
  assumes "handler \<in> {newPackets_code fired, timedOut_code fired}" "idleCode p" "\<not> starting p" "ph \<in> {Off, On}"
  shows "heeds ph (delivered_code handler @ p)"
  using assms
  by (auto simp: delivered_code_def newPackets_code_def timedOut_code_def sendAllPacketsInWindow_code_def
      startTimer_code_def timeout_code_def starting_def)

lemma quiet_append [simp]: "quiet q \<Longrightarrow> quiet (q @ p) = quiet p"
  by (induction q rule: quiet.induct) auto

lemma quiet_send: "quiet (sendMessageGbn_code fits)"
proof -
  have t: "quiet getSendTable_code" "quiet getSendWindow_code" "quiet getLauncherId_code"
    by (simp_all add: getSendTable_code_def getSendWindow_code_def getLauncherId_code_def initLauncher_code_def
        once_code_def)
  then have "quiet getLaunchBattery_code"
    by (simp add: getLaunchBattery_code_def initLaunchBattery_code_def once_code_def)
  with t show ?thesis by (simp add: sendMessageGbn_code_def notifyLauncher_code_def)
qed

subsection \<open>The steps of the timer thread\<close>

lemma perform_fields:
  "perform t i p s = Some s' \<Longrightarrow> adaptiveBuild s' = adaptiveBuild s"
  by (cases i) (auto split: if_splits)

lemma timerRound_loop: "timerRound_code adaptive @ [TimerLoop]
    = (Acquire atTimeoutLock # calcTimeout_code adaptive) @ TimedWait atTimeoutLock # afterWait"
  by (simp add: timerRound_code_def afterWait_def)

text \<open>A mere instruction changes nothing but locks and simple singletons.\<close>

lemma mere_perform:
  assumes "mere (i # q)" "perform t i (q @ r) s = Some s'"
  shows "\<exists>q'. mere q' \<and> todo s' = (todo s)(t := q' @ r) \<and> theTimer s' = theTimer s
    \<and> evMasked s' = evMasked s \<and> notified s' = notified s
    \<and> (\<forall>c. \<not> simpleOnce c \<longrightarrow> made s' c = made s c \<and> onceRun s' c = onceRun s c)
    \<and> (\<forall>l. mutex s' l \<noteq> mutex s l \<longrightarrow> i = Acquire l \<or> i = Release l)"
proof (cases i)
  case (IfFlag f b q0)
  with assms show ?thesis
    by (cases f) (auto intro!: exI [of _ "if flagOf f s = b then q0 @ q else q"])
next
  case (SetFlag f)
  with assms show ?thesis by (cases f) (auto intro!: exI [of _ q] simp: fun_upd_apply split: if_splits)
qed (use assms in \<open>auto intro!: exI [of _ q] split: if_splits\<close>)

lemma timer_perform_place:
  assumes "timerAt (i # p) (isAlive (theTimer s)) (stopping (theTimer s))"
    "atTimeout (theTimer s) \<noteq> AT_TIMEOUT_RING_THEN_SHUTDOWN" "made s LauncherOnce"
    "perform TimerThread i p s = Some s'"
  shows "timerPlace (todo s' TimerThread) (theTimer s')"
  using assms(1)
proof (cases rule: timerAt.cases)
  case created
  then show ?thesis using assms(2,4)
    by (auto simp: timer_code_def timerPlace_def intro: timerAt.intros split: if_splits)
next
  case looping
  moreover have "timerAt (timerRound_code a @ [TimerLoop]) True st" for a st
    unfolding timerRound_loop by (rule timerAt.computing) simp
  ultimately show ?thesis using assms(2,4)
    by (auto simp: timerPlace_def intro: timerAt.intros split: if_splits)
next
  case (computing q)
  show ?thesis
  proof (cases q)
    case Nil
    with computing assms(2,4) show ?thesis by (auto simp: timerPlace_def intro: timerAt.intros)
  next
    case (Cons j q')
    with computing have "i = j" "p = q' @ TimedWait atTimeoutLock # afterWait" by auto
    with Cons computing mere_perform [of i q' TimerThread "TimedWait atTimeoutLock # afterWait" s s'] assms(2,4)
    show ?thesis by (auto simp: timerPlace_def intro: timerAt.computing)
  qed
next
  case ringing
  have "timerAt (notifyLauncher_code @ drop 1 afterWait) True (stopping (theTimer s))"
    "timerAt (drop 1 afterWait) True (stopping (theTimer s))" by (rule timerAt.intros)+
  with ringing show ?thesis using assms(2,4)
    by (auto simp: timerPlace_def afterWait_def split: if_splits)
next
  case notifying
  then have "i = hd notifyLauncher_code" "p = KillLauncher # drop 1 afterWait"
    by (simp_all add: notifyLauncher_code_def getLauncherId_code_def once_code_def)
  then show ?thesis using assms(2-4) notifying(2)
    by (auto simp: timerPlace_def notifyLauncher_code_def getLauncherId_code_def once_code_def
        intro: timerAt.killing [simplified])
next
  case timingOut
  then show ?thesis using assms(2,4)
    by (auto simp: afterWait_def timerRound_def timerPlace_def intro: timerAt.intros split: atTimeout_action.splits)
qed (use assms(2,4) in \<open>auto simp: timerPlace_def afterWait_def split: if_splits
  intro: timerAt.intros [unfolded afterWait_def] timerAt.timingOut [unfolded afterWait_def, simplified]\<close>)

lemma timer_perform_rest:
  assumes "timerAt (i # p) (isAlive (theTimer s)) (stopping (theTimer s))" "made s LauncherOnce"
    "perform TimerThread i p s = Some s'"
  shows "stopping (theTimer s') = stopping (theTimer s)
    \<and> (todo s' TimerThread = [] \<longrightarrow> stopping (theTimer s))
    \<and> (notYetAlive (todo s' TimerThread) \<longrightarrow> notYetAlive (i # p))
    \<and> evMasked s' = evMasked s
    \<and> (\<forall>u. u \<noteq> TimerThread \<longrightarrow> todo s' u = (if i = SignalFlag Alive then woken Alive (todo s u) else todo s u))
    \<and> (i \<noteq> SignalFlag Alive \<longrightarrow> signalPending (i # p) \<longrightarrow> signalPending (todo s' TimerThread))"
  using assms(1)
proof (cases rule: timerAt.cases)
  case created
  then show ?thesis using assms(2,3) by (auto simp: places split: if_splits)
next
  case looping
  then show ?thesis using assms(2,3) by (auto simp: timerRound_code_def places split: if_splits)
next
  case (computing q)
  show ?thesis
  proof (cases q)
    case Nil
    with computing assms(3) show ?thesis by (auto simp: places)
  next
    case (Cons j q')
    with computing have e: "i = j" "p = q' @ TimedWait atTimeoutLock # afterWait" by auto
    with Cons computing mere_perform [of i q' TimerThread "TimedWait atTimeoutLock # afterWait" s s'] assms(3)
    obtain q'' where q'': "mere q''" "todo s' = (todo s)(TimerThread := q'' @ TimedWait atTimeoutLock # afterWait)"
      "theTimer s' = theTimer s" "evMasked s' = evMasked s" by auto
    have "\<not> notYetAlive (r @ TimedWait atTimeoutLock # afterWait)"
      "\<not> signalPending (r @ TimedWait atTimeoutLock # afterWait)" for r
      by (auto simp: places append_eq_Cons_conv)
    moreover have "i \<noteq> SignalFlag Alive" using computing Cons e by auto
    moreover have "\<not> signalPending (i # p)" using \<open>\<not> signalPending _\<close> [of "j # q'"] e by simp
    ultimately show ?thesis using q'' by auto
  qed
next
  case notifying
  then show ?thesis using assms(2,3)
    by (auto simp: places notifyLauncher_code_def getLauncherId_code_def once_code_def split: if_splits)
next
  case timingOut
  then show ?thesis using assms(2,3) by (auto simp: places timerRound_def split: atTimeout_action.splits)
qed (use assms(2,3) in \<open>auto simp: places notifyLauncher_code_def getLauncherId_code_def once_code_def split: if_splits\<close>)

lemma timerAt_alive: "timerAt p alive stop \<Longrightarrow> p \<noteq> [] \<Longrightarrow> \<not> notYetAlive p \<Longrightarrow> \<not> stop \<Longrightarrow> alive"
  by (induction rule: timerAt.induct) (auto simp: places)

lemma timerAt_dead: "timerAt p alive stop \<Longrightarrow> p = [] \<or> notYetAlive p \<Longrightarrow> \<not> alive"
  by (induction rule: timerAt.induct)
    (auto simp: places notifyLauncher_code_def getLauncherId_code_def once_code_def append_eq_Cons_conv)

lemma timerAt_told: "timerAt p alive stop \<Longrightarrow> timerAt p alive True"
  by (induction rule: timerAt.induct) (auto intro: timerAt.intros simp del: One_nat_def)

lemma timerPlace_D:
  assumes "timerPlace p tm"
  shows "timerAt p (isAlive tm) (stopping tm)" "atTimeout tm \<noteq> AT_TIMEOUT_RING_THEN_SHUTDOWN"
  using assms by (simp_all add: timerPlace_def)

lemma heeds_awake: "heeds ph p \<Longrightarrow> awake p = p \<and> p \<noteq> Asleep f # q"
  by (cases "(ph, p)" rule: heeds.cases) auto


lemma protocolInv_I:
  assumes "timerPlace (todo s TimerThread) (theTimer s)" "evMasked s \<or> idleCode (todo s LauncherThread)"
    "inPhase ph (todo s TimerThread) (theTimer s)" "heeds ph (settled (todo s LauncherThread))"
    "\<And>f p. todo s LauncherThread = Asleep f # p \<Longrightarrow> f = Alive \<and> signalPending (todo s TimerThread)"
    "\<And>k. quiet (todo s (App k))"
  shows "protocolInv s"
  using assms by (auto simp: protocolInv_def)

text \<open>An idle launcher does not sleep, and a sleeping one is not starting.\<close>

lemma idle_awake: "idleCode p \<Longrightarrow> awake p = p \<and> p \<noteq> Asleep f # q"
  by (auto simp: idleCode_def listenForAcks_code_def launcher_code_def drop_Cons' split: if_splits)

lemma starting_awake: "starting p \<Longrightarrow> awake p = p \<and> p \<noteq> Asleep f # q"
  by (auto simp: starting_def launcher_code_def)

lemma settled_asleep [simp]: "settled (Asleep f # p) = p"
  by (simp add: settled_def starting_awake launcher_code_def starting_def)

lemma settled_heeds: "heeds ph p \<Longrightarrow> \<not> starting p \<Longrightarrow> settled p = p"
  by (simp add: settled_def heeds_awake)

lemma woken_settled:
  "settled (woken f p) = settled p \<or> (\<exists>q. p = Asleep f # q \<and> woken f p = q)"
  by (cases p rule: list.exhaust; cases "(f, p)" rule: woken.cases) auto

lemma woken_quiet: "quiet p \<Longrightarrow> woken f p = p \<or> p = Asleep f # woken f p \<and> f = Made LauncherOnce"
  by (cases p rule: list.exhaust; cases "(f, p)" rule: woken.cases) auto


lemma heeds_settled: "heeds ph p \<Longrightarrow> heeds ph (settled p)"
  by (auto simp: settled_def starting_def launcher_code_def heeds_awake)

lemma timer_protocol:
  assumes "protocolInv s" "made s LauncherOnce" "todo s TimerThread = i # p" "perform TimerThread i p s = Some s'"
  shows "protocolInv s'"
proof -
  note P = protocol_D [OF assms(1)]
  note T = timerPlace_D [OF P(1), unfolded assms(3)]
  note R = timer_perform_rest [OF T(1) assms(2,4)]
  let ?l = "todo s LauncherThread" and ?l' = "todo s' LauncherThread"
  obtain ph where ph: "inPhase ph (i # p) (theTimer s)" "heeds ph (settled ?l)"
    using P(3) assms(3) by auto
  have l: "?l' = (if i = SignalFlag Alive then woken Alive ?l else ?l)" using R by simp
  have a: "?l' = ?l \<and> ?l \<noteq> Asleep Alive # q \<or> ?l = Asleep Alive # ?l' \<and> i = SignalFlag Alive
    \<or> i \<noteq> SignalFlag Alive \<and> ?l' = ?l" for q
    unfolding l by (cases ?l rule: list.exhaust; cases "(Alive, ?l)" rule: woken.cases) auto
  have place: "timerPlace (todo s' TimerThread) (theTimer s')"
    using timer_perform_place [OF T assms(2,4)] .
  have phase: "inPhase ph (todo s' TimerThread) (theTimer s')"
    using ph(1) R by (cases ph) auto
  have idle: "evMasked s' \<or> idleCode ?l'"
  proof (cases "evMasked s'")
    case False
    then have "idleCode ?l" using P(2) R by simp
    with a idle_awake show ?thesis by metis
  qed simp
  have h: "heeds ph (settled ?l')"
    using a ph(2) heeds_settled settled_asleep by metis
  show ?thesis
  proof (rule protocolInv_I [OF place idle phase h])
    fix f q assume q: "?l' = Asleep f # q"
    with a heeds_awake ph(2) settled_asleep have "?l = Asleep f # q" by metis
    with P(4) have f: "f = Alive \<and> signalPending (i # p)" using assms(3) by simp
    with \<open>?l = _\<close> have "woken Alive ?l = q" by simp
    with l q have "i \<noteq> SignalFlag Alive" by auto
    with R f show "f = Alive \<and> signalPending (todo s' TimerThread)" by simp
  next
    fix k
    have "woken Alive (todo s (App k)) = todo s (App k)" using woken_quiet [OF P(5), of Alive k] by auto
    with R P(5) [of k] show "quiet (todo s' (App k))" by simp
  qed
qed

lemma inPhase_ring [simp]: "inPhase ph p (tm\<lparr>ring := b\<rparr>) = inPhase ph p tm"
  by (cases ph) auto

lemma launcher_protocolI:
  assumes "protocolInv s" "heeds ph (settled p)" "\<And>f q. p \<noteq> Asleep f # q"
    "todo s' LauncherThread = p" "todo s' TimerThread = todo s TimerThread" "\<And>k. quiet (todo s' (App k))"
    "evMasked s' \<or> idleCode p" "timerPlace (todo s TimerThread) (theTimer s')"
    "inPhase ph (todo s TimerThread) (theTimer s')"
  shows "protocolInv s'"
  using assms by (intro protocolInv_I [of s' ph]) auto


lemma timer_awake: "timerAt p alive stop \<Longrightarrow> woken f p = p"
proof (induction rule: timerAt.induct)
  case (computing q)
  then show ?case by (cases q rule: mere.cases) simp_all
qed (simp_all add: places notifyLauncher_code_def getLauncherId_code_def once_code_def)

text \<open>The start of the launcher.\<close>

lemma launcher_starting:
  assumes "protocolInv s" "todo s LauncherThread = i # p" "starting (i # p)" "perform LauncherThread i p s = Some s'"
  shows "protocolInv s'"
proof -
  note P = protocol_D [OF assms(1)]
  obtain ph where ph: "inPhase ph (todo s TimerThread) (theTimer s)" "heeds ph (settled (i # p))"
    using P(3) assms(2) by auto
  have "i # p = drop 0 launcher_code \<or> i # p = drop 1 launcher_code \<or> i # p = drop 2 launcher_code"
    using assms(3) by (simp add: starting_def)
  then obtain n where "drop n launcher_code = i # p" by metis
  then have "p = drop (Suc n) launcher_code" by (metis drop_Suc list.sel(3) tl_drop)
  then have idle: "idleCode p" by (auto simp: idleCode_def)
  have s: "settled p = settled (i # p)"
    using assms(3) by (auto simp: settled_def starting_def launcher_code_def)
  have "todo s' = (todo s)(LauncherThread := p) \<and> theTimer s' = theTimer s"
    using assms(3,4) by (auto simp: starting_def launcher_code_def split: if_splits)
  then show ?thesis
    using ph s idle idle_awake [OF idle] P(1,5) by (intro launcher_protocolI [OF assms(1), of ph p]) auto
qed

text \<open>After it, the launcher knows the phase, and its events are masked but at two places.\<close>

lemma launcher_past:
  assumes "protocolInv s" "todo s LauncherThread = i # p" "\<not> starting (i # p)" "\<And>f. i \<noteq> Asleep f"
  obtains ph where "inPhase ph (todo s TimerThread) (theTimer s)" "heeds ph (i # p)"
    "evMasked s \<or> i = MaskEvents \<or> i = SignalFlag (Made LauncherOnce) \<and> p = []"
proof -
  note P = protocol_D [OF assms(1)]
  have "awake (i # p) = i # p" using assms(4) by (cases i) auto
  with P(3) assms(2,3) obtain ph where "inPhase ph (todo s TimerThread) (theTimer s)" "heeds ph (i # p)"
    by (auto simp: settled_def)
  moreover have "evMasked s \<or> i = MaskEvents \<or> i = SignalFlag (Made LauncherOnce) \<and> p = []"
    using P(2) assms(2,3)
    by (auto simp: idleCode_def listenForAcks_code_def starting_def launcher_code_def drop_Cons' split: if_splits)
  ultimately show thesis by (rule that)
qed

lemma launcher_goes:
  assumes "protocolInv s" "heeds ph q" "todo r = (todo s)(LauncherThread := q)" "evMasked r \<or> idleCode q"
    "timerPlace (todo s TimerThread) (theTimer r)" "inPhase ph (todo s TimerThread) (theTimer r)"
  shows "protocolInv r"
  using assms heeds_awake [OF assms(2)] protocol_D(5) [OF assms(1)]
  by (intro launcher_protocolI [OF assms(1) heeds_settled [OF assms(2)]]) auto

lemma setAtTimeout_place:
  assumes "timerPlace p tm" "inPhase ph p tm" "heeds ph (SetAtTimeout a # q)"
  shows "timerPlace p (timeout tm a) \<and> (\<exists>ph'. heeds ph' q \<and> inPhase ph' p (timeout tm a))"
proof -
  note T = timerPlace_D [OF assms(1)]
  have "timerAt p (isAlive tm) (a = AT_TIMEOUT_SHUTDOWN)"
  proof (cases "ph = Off")
    case True
    with assms(2) T(1) timerAt_dead [OF T(1)] show ?thesis by (auto intro: timerAt.absent)
  next
    case False
    with assms(2,3) have "\<not> stopping tm" by auto
    with T(1) timerAt_told [OF T(1)] show ?thesis by (cases "a = AT_TIMEOUT_SHUTDOWN") auto
  qed
  then have "timerPlace p (timeout tm a)" using assms(3) by (auto simp: timerPlace_def timeout_def)
  moreover have "\<exists>ph'. heeds ph' q \<and> inPhase ph' p (timeout tm a)"
    using assms(2,3) by (cases "ph = Off") (auto simp: timeout_def split: if_splits)
  ultimately show ?thesis ..
qed

lemma heeds_ifFlag:
  assumes "timerPlace (todo s TimerThread) (theTimer s)" "inPhase ph (todo s TimerThread) (theTimer s)"
    "made s LauncherOnce" "made s BatteryOnce" "heeds ph (IfFlag f b q # p)"
  shows "heeds ph (if flagOf f s = b then q @ p else p)"
proof (cases f)
  case Alive
  note T = timerPlace_D(1) [OF assms(1)]
  from Alive have "isAlive (theTimer s) = (ph = On)"
    using assms(2,5) timerAt_alive [OF T] timerAt_dead [OF T] by auto
  with Alive assms(5) show ?thesis by auto
next
  case (Made c)
  have "simpleOnce c \<or> made s c" using assms(3,4) by (cases c) simp_all
  with Made assms(5) show ?thesis by (auto split: if_splits)
qed (use assms(5) in auto)

lemma launcher_spawns:
  assumes "protocolInv s" "inPhase ph (todo s TimerThread) (theTimer s)" "heeds ph (Spawn u # p)" "evMasked s"
  shows "protocolInv (resume u (thread_code u) (resume LauncherThread p s))"
proof -
  note P = protocol_D [OF assms(1)]
  from assms(3) have h: "u = TimerThread" "ph = Ready" "heeds Started p" by auto
  with assms(2) have T: "todo s TimerThread = []" "\<not> stopping (theTimer s)" by auto
  moreover have "timerPlace timer_code (theTimer s)"
    using timerPlace_D [OF P(1)] timerAt_dead [OF timerPlace_D(1) [OF P(1)]] T(1)
    by (simp add: timerPlace_def timerAt.created)
  moreover have "timer_code \<noteq> []" by (simp add: timer_code_def)
  ultimately show ?thesis using assms(4) h(1) P(5) heeds_awake [OF h(3)] heeds_settled [OF h(3)]
    by (intro protocolInv_I [of _ Started]) (auto simp: thread_code_def)
qed

lemma launcher_awaits:
  assumes "protocolInv s" "inPhase ph (todo s TimerThread) (theTimer s)" "heeds ph (Await f l # p)" "evMasked s"
    "perform LauncherThread (Await f l) p s = Some s'"
  shows "protocolInv s'"
proof -
  note P = protocol_D [OF assms(1)]
  note T = timerPlace_D(1) [OF P(1)]
  from assms(3) have h: "ph = Started" "heeds On p" "f = Alive" by auto
  show ?thesis
  proof (cases "isAlive (theTimer s)")
    case True
    with h assms(2) timerAt_dead [OF T] have "inPhase On (todo s TimerThread) (theTimer s)" by auto
    with True assms h P(1) show ?thesis by (intro launcher_goes [OF assms(1), of On p]) auto
  next
    case False
    with h assms(2) timerAt_alive [OF T] have "signalPending (todo s TimerThread)"
      by (auto simp: notYetAlive_def signalPending_def)
    moreover have "heeds Started (Acquire l # Await f l # p)" using assms(3) h by simp
    ultimately show ?thesis using False assms(2,4,5) h P(1,5)
      by (intro protocolInv_I [of s' Started]) auto
  qed
qed

lemma launcher_signals:
  assumes "protocolInv s" "inPhase ph (todo s TimerThread) (theTimer s)" "heeds ph (SignalFlag f # p)"
    "evMasked s \<or> idleCode p" "perform LauncherThread (SignalFlag f) p s = Some s'"
  shows "protocolInv s'"
proof -
  note P = protocol_D [OF assms(1)]
  from assms(3) have h: "f = Made LauncherOnce" "heeds ph p" by auto
  have "woken f p = p" using heeds_awake [OF h(2)]
    by (cases p rule: list.exhaust; cases "(f, p)" rule: woken.cases) auto
  moreover have "quiet (woken f (todo s (App k)))" for k
    using P(5) [of k] by (cases "(f, todo s (App k))" rule: woken.cases) auto
  ultimately show ?thesis
    using assms(2,4,5) h P(1) timer_awake [OF timerPlace_D(1) [OF P(1)], of f] heeds_awake [OF h(2)] heeds_settled [OF h(2)]
    by (intro protocolInv_I [of s' ph]) auto
qed

lemma launcher_protocol:
  assumes "protocolInv s" "starting (todo s LauncherThread) \<or> made s LauncherOnce \<and> made s BatteryOnce"
    "todo s LauncherThread = i # p" "perform LauncherThread i p s = Some s'"
  shows "protocolInv s'"
proof (cases "starting (i # p)")
  case True
  with assms launcher_starting show ?thesis by blast
next
  case False
  note P = protocol_D(1) [OF assms(1)]
  have mk: "made s LauncherOnce" "made s BatteryOnce" using assms(2,3) False by auto
  have "i \<noteq> Asleep f" for f using assms(4) by auto
  from launcher_past [OF assms(1,3) False this] obtain ph where ph: "inPhase ph (todo s TimerThread) (theTimer s)"
    "heeds ph (i # p)" and idle: "evMasked s \<or> i = MaskEvents \<or> i = SignalFlag (Made LauncherOnce) \<and> p = []" by blast
  have "idleCode []" by (auto simp: idleCode_def intro: exI [of _ 4] simp: launcher_code_def)
  then have m: "evMasked s \<or> idleCode p" if "i \<noteq> MaskEvents" using idle that by auto
  note I = launcher_goes [OF assms(1)]
  show ?thesis
  proof (cases i)
    case (SetAtTimeout a)
    with setAtTimeout_place [OF P ph(1)] ph(2) obtain ph' where
      "timerPlace (todo s TimerThread) (timeout (theTimer s) a)" "heeds ph' p"
      "inPhase ph' (todo s TimerThread) (timeout (theTimer s) a)" by auto
    with SetAtTimeout assms(4) m show ?thesis by (intro I [of ph' p]) auto
  next
    case (IfFlag f b q)
    with heeds_ifFlag [OF P ph(1) mk] ph(2) assms(4) idle P ph(1) show ?thesis
      by (intro I [of ph "if flagOf f s = b then q @ p else p"]) auto
  next
    case (Spawn u)
    with launcher_spawns [OF assms(1) ph(1)] ph(2) idle assms(4) show ?thesis by (auto split: if_splits)
  next
    case (Await f l)
    with launcher_awaits [OF assms(1) ph(1)] ph(2) idle assms(4) show ?thesis by auto
  next
    case (SignalFlag f)
    with launcher_signals [OF assms(1) ph(1)] ph(2) m assms(4) show ?thesis by blast
  next
    case JoinTimer
    then show ?thesis using assms m ph P by (intro I [of Off p]) (auto split: if_splits)
  next
    case UnmaskEvents
    then have h: "ph \<in> {Off, On}" "idleCode p" "\<not> starting p" using ph by (auto simp: starting_def)
    then have "heeds ph p" by (intro heeds_idle)
    with UnmaskEvents assms ph P h show ?thesis by (intro I [of ph p]) auto
  next
    case (SetFlag f)
    moreover from this assms(3,4) ph
    have e: "heeds ph p" "todo s' = (todo s)(LauncherThread := p)" "theTimer s' = theTimer s" "evMasked s' = evMasked s"
      by (cases f; auto)+
    ultimately show ?thesis using ph(1) P idle by (intro I [OF e(1,2)]) auto
  qed (use assms m ph P in \<open>auto intro!: I [of ph p] simp: timerPlace_def split: if_splits\<close>)
qed

text \<open>What a caller does is quiet and stays so.\<close>

lemma app_quiet:
  assumes "quiet (i # p)" "perform (App k) i p s = Some s'"
  shows "quiet (todo s' (App k)) \<and> theTimer s' = theTimer s \<and> evMasked s' = evMasked s
    \<and> (\<forall>u. u \<noteq> App k \<longrightarrow> todo s' u = (if i = Spawn LauncherThread \<and> u = LauncherThread then launcher_code else todo s u))
    \<and> (i = Spawn LauncherThread \<longrightarrow> todo s LauncherThread = [])"
proof (cases i)
  case (SetFlag f)
  with assms show ?thesis by (cases f) auto
next
  case (Spawn u)
  with assms show ?thesis by (auto simp: thread_code_def split: if_splits)
qed (use assms in \<open>auto split: if_splits\<close>)

lemma app_protocol:
  assumes "protocolInv s" "todo s (App k) = i # p" "perform (App k) i p s = Some s'"
  shows "protocolInv s'"
proof -
  note P = protocol_D [OF assms(1)]
  note T = timerPlace_D [OF P(1)]
  note Q = app_quiet [OF P(5) [of k, unfolded assms(2)] assms(3)]
  obtain ph where ph: "inPhase ph (todo s TimerThread) (theTimer s)" "heeds ph (settled (todo s LauncherThread))"
    using P(3) by auto
  have "todo s' LauncherThread = todo s LauncherThread
    \<or> todo s LauncherThread = [] \<and> todo s' LauncherThread = launcher_code" using Q by auto
  then have "(evMasked s' \<or> idleCode (todo s' LauncherThread)) \<and> heeds ph (settled (todo s' LauncherThread))
    \<and> (\<forall>f p. todo s' LauncherThread = Asleep f # p \<longrightarrow> todo s LauncherThread = Asleep f # p)"
  proof
    assume "todo s' LauncherThread = todo s LauncherThread"
    then show ?thesis using Q P(2) ph by (cases "evMasked s") simp_all
  next
    assume l: "todo s LauncherThread = [] \<and> todo s' LauncherThread = launcher_code"
    have "idleCode launcher_code" by (auto simp: idleCode_def intro: exI [of _ 0])
    then show ?thesis using l ph idle_awake [of launcher_code]
      by (auto simp: settled_def starting_def launcher_code_def)
  qed
  moreover have "quiet (todo s' (App k'))" for k' using Q P(5) [of k'] by (cases "k' = k") auto
  ultimately show ?thesis using Q P(1,4) ph by (intro protocolInv_I [of s' ph]) auto
qed

text \<open>The launcher exists whenever the launcher or its timer run.\<close>

definition launcherUp :: "threads \<Rightarrow> bool" where
  "launcherUp s \<longleftrightarrow> made s LauncherOnce \<and> made s BatteryOnce"

lemma protocol_moves:
  assumes "moves s s'" "protocolInv s"
    "launcherUp s \<or> todo s TimerThread = [] \<and> (todo s LauncherThread = [] \<or> starting (todo s LauncherThread))"
  shows "protocolInv s'"
proof -
  from assms(1) obtain t i p where t: "todo s t = i # p" "perform t i p s = Some s'" by (rule movesE)
  show ?thesis
  proof (cases t)
    case (App k)
    with t assms(2) show ?thesis by (blast intro: app_protocol)
  next
    case LauncherThread
    with t assms(3) have "starting (todo s LauncherThread) \<or> made s LauncherOnce \<and> made s BatteryOnce"
      by (auto simp: launcherUp_def)
    with LauncherThread t assms(2) show ?thesis by (blast intro: launcher_protocol)
  next
    case TimerThread
    with t assms(3) have "made s LauncherOnce" by (auto simp: launcherUp_def)
    with TimerThread t assms(2) show ?thesis by (blast intro: timer_protocol)
  qed
qed

lemma wakes_asleep:
  assumes "wakes s s'" "protocolInv s"
  shows "todo s TimerThread = TimedOut atTimeoutLock # afterWait
    \<and> s' = resume TimerThread (Acquire atTimeoutLock # afterWait) s \<and> isAlive (theTimer s)"
proof -
  from assms(1) obtain l p where w: "todo s TimerThread = TimedOut l # p"
    "s' = resume TimerThread (Acquire l # p) s" by (rule wakesE)
  have "timerAt (TimedOut l # p) (isAlive (theTimer s)) (stopping (theTimer s))"
    using timerPlace_D(1) [OF protocol_D(1) [OF assms(2)]] w(1) by simp
  then have "l = atTimeoutLock \<and> p = afterWait \<and> isAlive (theTimer s)"
  proof (cases rule: timerAt.cases)
    case (computing q)
    then show ?thesis by (cases q rule: mere.cases) simp_all
  qed (simp_all add: places notifyLauncher_code_def getLauncherId_code_def once_code_def)
  then show ?thesis using w by simp
qed

lemma protocol_wakes:
  assumes "wakes s s'" "protocolInv s"
  shows "protocolInv s'"
proof -
  note w = wakes_asleep [OF assms]
  note P = protocol_D [OF assms(2)]
  obtain ph where ph: "inPhase ph (todo s TimerThread) (theTimer s)" "heeds ph (settled (todo s LauncherThread))"
    using P(3) by auto
  then have "inPhase ph (Acquire atTimeoutLock # afterWait) (theTimer s)"
    using w by (cases ph) (auto simp: places)
  moreover have "timerPlace (Acquire atTimeoutLock # afterWait) (theTimer s)"
    using w timerPlace_D(2) [OF P(1)] by (auto simp: timerPlace_def intro: timerAt.relocking)
  moreover have "todo s LauncherThread \<noteq> Asleep f # q" for f q
    using P(4) [of f q] w by (auto simp: places)
  ultimately show ?thesis using w ph P(2,5) by (intro protocolInv_I [of s' ph]) auto
qed


lemma idle_phase: "idleCode p \<Longrightarrow> heeds ph (settled p) \<Longrightarrow> ph \<in> {Off, On}"
  by (auto simp: idleCode_def settled_def starting_def listenForAcks_code_def acked_code_def
      launcher_code_def drop_Cons' split: if_splits)

lemma listen_notStarting: "\<not> starting (listenForAcks_code isAck acked endOfMessage)"
  by (simp add: starting_def listenForAcks_code_def launcher_code_def)

lemma protocol_arrives:
  assumes "arrives s s'" "protocolInv s" "notified s \<Longrightarrow> \<not> starting (todo s LauncherThread)"
  shows "protocolInv s'"
  using assms(1)
proof cases
  case (call k fits)
  with protocol_D [OF assms(2)] quiet_send show ?thesis by (auto simp: protocolInv_def)
next
  case (datagram isAck acked endOfMessage)
  let ?c = "listenForAcks_code isAck acked endOfMessage"
  have i: "idleCode ?c" unfolding idleCode_def by blast
  then have c: "idleCode ?c" "settled ?c = ?c" "?c \<noteq> Asleep f # q" for f q
    using idle_awake [OF i] listen_notStarting by (auto simp: settled_def)
  obtain ph where ph: "inPhase ph (todo s TimerThread) (theTimer s)" "heeds ph (settled [])"
    using protocol_D(3) [OF assms(2)] datagram by auto
  have "ph \<in> {Off, On}" using ph(2) by (simp add: settled_def starting_def launcher_code_def)
  with c have "heeds ph (settled ?c)" by (simp add: heeds_idle listen_notStarting)
  with c ph datagram protocol_D [OF assms(2)] show ?thesis
    by (intro launcher_protocolI [OF assms(2), of ph ?c]) auto
next
  case (signal handler fired)
  let ?l = "todo s LauncherThread"
  let ?c = "delivered_code handler @ ?l"
  obtain ph where ph: "inPhase ph (todo s TimerThread) (theTimer s)" "heeds ph (settled ?l)"
    using protocol_D(3) [OF assms(2)] by auto
  have i: "idleCode ?l" using protocol_D(2) [OF assms(2)] signal by simp
  with ph(2) have "ph \<in> {Off, On}" by (auto dest: idle_phase)
  then have h: "heeds ph ?c" using i assms(3) signal by (intro heeds_handler) auto
  with heeds_awake [OF h] ph signal protocol_D [OF assms(2)] show ?thesis
    by (intro launcher_protocolI [OF assms(2) heeds_settled [OF h]]) auto
next
  case (spurious t f p)
  note P = protocol_D [OF assms(2)]
  note T = timerPlace_D(1) [OF P(1)]
  show ?thesis
  proof (cases t)
    case (App k)
    have "quiet p" using P(5) [of k] spurious App by simp
    with spurious App P show ?thesis by (auto simp: protocolInv_def)
  next
    case LauncherThread
    obtain ph where ph: "inPhase ph (todo s TimerThread) (theTimer s)" "heeds ph p"
      using P(3) spurious LauncherThread by auto
    have "evMasked s" using P(2) spurious LauncherThread idle_awake by auto
    with ph heeds_awake [OF ph(2)] spurious LauncherThread P show ?thesis
      by (intro launcher_protocolI [OF assms(2) heeds_settled [OF ph(2)]]) auto
  next
    case TimerThread
    with timer_awake [OF T, of f] spurious show ?thesis by simp
  qed
qed

lemma protocol_initial: "protocolInv (initialThreads adaptive)"
  by (rule protocolInv_I [of _ Off])
    (auto simp: initialThreads_def newTimer_def timerPlace_def idleCode_def settled_def starting_def
      launcher_code_def intro: timerAt.absent exI [of _ 4])


end
