(* ===== verification/Startup.thy ===== *)
theory Startup
  imports Handshake
begin

text \<open>
  The start of the process (gbn/launchBattery.c, gbn/launcher.c). The first call creates the battery
  and, within it, the launcher, and awaits that the launcher is up, all under \<open>launchBatteryLock\<close>.
  \<open>startInv\<close> follows that call by phases, says that until it is over no other thread does more than
  wait for that lock, and that from then on nobody comes back to the start.
\<close>

text \<open>A mutex is locked only when it is free, and unlocked only by the thread that holds it.\<close>

lemma mutex_perform:
  assumes "orderInv s" "todo s t = i # p" "perform t i p s = Some s'"
  shows "mutex s' l = mutex s l \<or> mutex s l = None \<and> i = Acquire l \<and> mutex s' l = Some t
    \<or> mutex s l = Some t \<and> mutex s' l = None"
proof -
  have "orderly t (maskOf s t) (held s t) (i # p)" using orderInv_D(1) [OF assms(1), of t] assms(2) by simp
  then have h: "l \<in> held s t" if "i = Release l \<or> (\<exists>f. i = Await f l) \<or> i = TimedWait l"
    using that by auto
  have "mutex s' l = mutex s l \<or> mutex s l = None \<and> i = Acquire l \<and> mutex s' l = Some t
    \<or> mutex s' l = None \<and> (i = Release l \<or> (\<exists>f. i = Await f l) \<or> i = TimedWait l)"
    using assms(3) by (cases i) (auto split: if_splits)
  with h show ?thesis by (auto simp: held_def)
qed

subsection \<open>Code that runs when the launcher is up\<close>

text \<open>It neither creates the battery nor the launcher; \<open>late\<close> says whether
  the first call is over, so that it may create the timer.\<close>

function (sequential) running :: "bool \<Rightarrow> instr list \<Rightarrow> bool" where
  "running late [] = True"
| "running late (Acquire l # p) = (l \<noteq> launcherInitializerLock \<and> running late p)"
| "running late (Release l # p) = (l \<noteq> launcherInitializerLock \<and> running late p)"
| "running late (SetFlag f # p) = (f \<notin> {Made LauncherOnce, Made BatteryOnce, Done LauncherOnce}
     \<and> (f = Done BatteryOnce \<longrightarrow> late) \<and> running late p)"
| "running late (IfFlag f b q # p) =
     (if f \<in> {Made LauncherOnce, Made BatteryOnce} then running late (if b then q @ p else p)
      else f \<notin> {Done LauncherOnce, Done BatteryOnce} \<and> running late (q @ p) \<and> running late p)"
| "running late (Spawn u # p) = (late \<and> u = TimerThread \<and> running late p)"
| "running late (Await f l # p) = (f \<noteq> Made LauncherOnce \<and> l \<noteq> launcherInitializerLock \<and> running late p)"
| "running late (Asleep f # p) = (f \<noteq> Made LauncherOnce \<and> running late p)"
| "running late (TimedWait l # p) = (l \<noteq> launcherInitializerLock \<and> running late p)"
| "running late (i # p) = running late p"
  by pat_completeness auto
termination by (relation "measure (\<lambda>(b, p). size_list size p)") auto

lemma running_mono: "running False p \<Longrightarrow> running late p"
  by (induction False p rule: running.induct) (auto split: if_splits)

lemma running_mere [simp]: "mere q \<Longrightarrow> running late (q @ p) = running late p"
  by (induction q rule: mere.induct) auto

lemma running_getters [simp]:
  "running late (getLaunchBattery_code @ p) = running late p"
  "running late (getLauncherId_code @ p) = running late p"
  "running late (notifyLauncher_code @ p) = running late p"
  by (simp_all add: getLaunchBattery_code_def getLauncherId_code_def notifyLauncher_code_def once_code_def)

lemmas running_getter = running_getters [where p = "[]", simplified]

lemma running_routines [simp]:
  "running late (sendMessageGbn_code fits)" "running late (drop (Suc 0) (sendMessageGbn_code fits))"
  "running late (listenForAcks_code isAck acked endOfMessage)"
  "running late timer_code" "running late [SignalFlag (Made LauncherOnce)]"
  "running late (timerRound_code adaptive @ p) = running late p"
  using running_mere [of getSendTable_code]
  by (simp_all add: sendMessageGbn_code_def running_getter listenForAcks_code_def acked_code_def timeout_code_def
      timer_code_def timerRound_code_def)

lemma running_handler:
  assumes "handler \<in> {newPackets_code fired, timedOut_code fired}" "running True p"
  shows "running True (delivered_code handler @ p)"
  using assms by (auto simp: delivered_code_def newPackets_code_def timedOut_code_def sendAllPacketsInWindow_code_def
      startTimer_code_def timeout_code_def)

lemma running_notStarting: "running late p \<Longrightarrow> \<not> starting p"
  by (auto simp: starting_def launcher_code_def)

lemma running_woken: "running late p \<Longrightarrow> running late (woken f p)"
  by (cases p rule: list.exhaust; cases "(f, p)" rule: woken.cases) auto

definition sameStart :: "threads \<Rightarrow> threads \<Rightarrow> bool" where
  "sameStart s s' \<longleftrightarrow> made s' LauncherOnce = made s LauncherOnce \<and> made s' BatteryOnce = made s BatteryOnce
     \<and> onceRun s' LauncherOnce = onceRun s LauncherOnce"

text \<open>A step of running code. It may wake another thread, or create the timer.\<close>

lemma running_perform:
  assumes "launcherUp s" "running late (i # p)" "perform t i p s = Some s'" "todo s t = i # p"
  shows "running late (todo s' t) \<and> sameStart s s' \<and> (\<not> late \<longrightarrow> onceRun s' BatteryOnce = onceRun s BatteryOnce)
    \<and> mutex s' launcherInitializerLock = mutex s launcherInitializerLock
    \<and> (i \<noteq> KillLauncher \<longrightarrow> notified s' = notified s)
    \<and> (\<forall>u. u \<noteq> t \<longrightarrow> (if \<exists>f. i = SignalFlag f then \<exists>f. todo s' u = woken f (todo s u)
        else todo s' u = todo s u \<or> late \<and> u = TimerThread \<and> todo s' u = timer_code))"
proof (cases i)
  case (IfFlag f b q)
  then show ?thesis using assms by (cases f) (auto simp: sameStart_def launcherUp_def split: if_splits)
next
  case (SetFlag f)
  then show ?thesis using assms by (cases f) (auto simp: sameStart_def)
next
  case (SignalFlag f)
  then show ?thesis using assms by (auto simp: sameStart_def running_woken)
qed (use assms in \<open>auto simp: sameStart_def thread_code_def split: if_splits\<close>)

subsection \<open>The first call\<close>

text \<open>How far the start has come: nothing was created; the battery was; the launcher thread was; it
  has been seen to be up; the lock of its start was released.\<close>

datatype boot = Fresh | InBattery | Launched | Announced | Up

function (sequential) boots :: "boot \<Rightarrow> instr list \<Rightarrow> bool" where
  "boots ph [] = False"
| "boots ph (Acquire l # p) =
     (l \<noteq> launchBatteryLock \<and> (l = launcherInitializerLock \<longrightarrow> ph \<noteq> Up) \<and> boots ph p)"
| "boots ph (Release l # p) = (l \<noteq> launchBatteryLock
     \<and> boots (if l = launcherInitializerLock \<and> ph = Announced then Up else ph) p)"
| "boots ph (Access d # p) = boots ph p"
| "boots ph (SetFlag (Made BatteryOnce) # p) = (ph = Fresh \<and> boots InBattery p)"
| "boots ph (SetFlag (Done LauncherOnce) # p) = (ph = Up \<and> running True p)"
| "boots ph (SetFlag (Made c) # p) = (simpleOnce c \<and> boots ph p)"
| "boots ph (SetFlag (Done c) # p) = (simpleOnce c \<and> boots ph p)"
| "boots ph (IfFlag (Made BatteryOnce) b q # p) = boots ph (if b = (ph \<noteq> Fresh) then q @ p else p)"
| "boots ph (IfFlag (Made LauncherOnce) b q # p) = (ph \<in> {Fresh, InBattery} \<and> boots ph (if b then p else q @ p))"
| "boots ph (IfFlag (Made c) b q # p) = (simpleOnce c \<and> boots ph (q @ p) \<and> boots ph p)"
| "boots ph (IfFlag (Done c) b q # p) =
     (if simpleOnce c then boots ph (q @ p) \<and> boots ph p else boots ph (if b then p else q @ p))"
| "boots ph (Spawn u # p) = (ph = InBattery \<and> u = LauncherThread \<and> boots Launched p)"
| "boots ph (Await f l # p) =
     (ph = Launched \<and> f = Made LauncherOnce \<and> l = launcherInitializerLock \<and> boots Announced p)"
| "boots ph (i # p) = False"
  by pat_completeness auto
termination by (relation "measure (\<lambda>(ph, p). size_list size p)") auto


lemma boots_send: "boots Fresh (drop 2 (sendMessageGbn_code fits))"
  by (simp add: codes)

text \<open>A thread that has not entered the battery yet.\<close>

definition outside :: "instr list \<Rightarrow> bool" where
  "outside p \<longleftrightarrow> p = [] \<or> (\<exists>fits. p = sendMessageGbn_code fits \<or> p = drop 1 (sendMessageGbn_code fits))"

definition announcing :: "instr list \<Rightarrow> bool" where
  "announcing p \<longleftrightarrow> starting p \<or> p = drop 3 launcher_code"

fun phaseInv :: "boot \<Rightarrow> threads \<Rightarrow> bool" where
  "phaseInv Fresh s = (\<not> made s BatteryOnce \<and> \<not> made s LauncherOnce \<and> todo s LauncherThread = [])"
| "phaseInv InBattery s = (made s BatteryOnce \<and> \<not> made s LauncherOnce \<and> todo s LauncherThread = [])"
| "phaseInv Launched s = (made s BatteryOnce
     \<and> (if made s LauncherOnce then todo s LauncherThread = drop 2 launcher_code \<or> running False (todo s LauncherThread)
        else todo s LauncherThread \<in> {launcher_code, drop 1 launcher_code}))"
| "phaseInv Announced s = (launcherUp s \<and> running False (todo s LauncherThread))"
| "phaseInv Up s = (launcherUp s \<and> running False (todo s LauncherThread) \<and> mutex s launcherInitializerLock = None)"

text \<open>The thread \<open>k\<close> in the first call. It sleeps only while the launcher is to announce itself.\<close>

definition firstCall :: "boot \<Rightarrow> nat \<Rightarrow> threads \<Rightarrow> bool" where
  "firstCall ph k s \<longleftrightarrow> boots ph (awake (todo s (App k)))
     \<and> (\<forall>f p. todo s (App k) = Asleep f # p \<longrightarrow> ph = Launched \<and> f = Made LauncherOnce
       \<and> hd p = Acquire launcherInitializerLock \<and> p \<noteq> [] \<and> announcing (todo s LauncherThread))"

definition starts :: "threads \<Rightarrow> bool" where
  "starts s \<longleftrightarrow> \<not> notified s \<and> todo s TimerThread = [] \<and> \<not> onceRun s BatteryOnce
     \<and> (\<exists>ph. phaseInv ph s \<and> (case mutex s launchBatteryLock of
          None \<Rightarrow> ph = Fresh \<and> (\<forall>k. outside (todo s (App k)))
        | Some t \<Rightarrow> (\<exists>k. t = App k \<and> firstCall ph k s \<and> (\<forall>j. j \<noteq> k \<longrightarrow> outside (todo s (App j))))))"

definition startInv :: "threads \<Rightarrow> bool" where
  "startInv s \<longleftrightarrow> (if onceRun s LauncherOnce
     then launcherUp s \<and> mutex s launcherInitializerLock = None \<and> (\<forall>t. running True (todo s t))
     else starts s)"

text \<open>Each of its steps comes nearer to the end of the start, or ends it.\<close>

definition startedBy :: "nat \<Rightarrow> threads \<Rightarrow> bool" where
  "startedBy k s \<longleftrightarrow> onceRun s LauncherOnce \<and> launcherUp s \<and> mutex s launcherInitializerLock = None
     \<and> running True (todo s (App k))"

definition startingBy :: "boot \<Rightarrow> nat \<Rightarrow> threads \<Rightarrow> bool" where
  "startingBy ph k s \<longleftrightarrow> \<not> onceRun s LauncherOnce \<and> \<not> onceRun s BatteryOnce \<and> phaseInv ph s \<and> firstCall ph k s"

lemma phaseInv_cong:
  assumes "phaseInv ph s" "todo s' LauncherThread = todo s LauncherThread" "made s' BatteryOnce = made s BatteryOnce"
    "made s' LauncherOnce = made s LauncherOnce"
    "ph = Up \<Longrightarrow> mutex s launcherInitializerLock = None \<Longrightarrow> mutex s' launcherInitializerLock = None"
  shows "phaseInv ph s'"
  using assms by (cases ph) (auto simp: launcherUp_def)

lemma phaseInv_made:
  assumes "phaseInv ph s"
  shows "made s BatteryOnce \<longleftrightarrow> ph \<noteq> Fresh" "made s LauncherOnce \<Longrightarrow> ph \<notin> {Fresh, InBattery}"
    "ph \<notin> {Fresh, InBattery, Launched} \<Longrightarrow> made s LauncherOnce"
  using assms by (cases ph; auto simp: launcherUp_def)+

lemma boots_awake: "boots ph p \<Longrightarrow> awake p = p"
  by (cases "(ph, p)" rule: boots.cases) auto

lemma startingByI:
  assumes "phaseInv ph s" "boots ph (todo s (App k))" "\<not> onceRun s LauncherOnce" "\<not> onceRun s BatteryOnce"
  shows "startingBy ph k s"
proof -
  have "todo s (App k) \<noteq> Asleep f # p" for f p using assms(2) by auto
  with assms boots_awake [OF assms(2)] show ?thesis by (auto simp: startingBy_def firstCall_def)
qed

lemma startingBy_D:
  assumes "startingBy ph k s" "todo s (App k) = i # p" "\<And>f. i \<noteq> Asleep f"
  shows "\<not> onceRun s LauncherOnce" "\<not> onceRun s BatteryOnce" "phaseInv ph s" "boots ph (i # p)"
proof -
  show "\<not> onceRun s LauncherOnce" "\<not> onceRun s BatteryOnce" "phaseInv ph s" using assms(1) by (auto simp: startingBy_def)
  have "boots ph (awake (i # p))" using assms(1,2) by (auto simp: startingBy_def firstCall_def)
  moreover have "awake (i # p) = i # p" using assms(3) by (cases i) auto
  ultimately show "boots ph (i # p)" by simp
qed

text \<open>What a step of the caller leaves: a start that goes on, or that is over, and the others as they were.\<close>

definition callGoesOn :: "nat \<Rightarrow> threads \<Rightarrow> threads \<Rightarrow> bool" where
  "callGoesOn k s s' \<longleftrightarrow> (startedBy k s' \<and> running False (todo s' LauncherThread) \<or> (\<exists>ph. startingBy ph k s'))
     \<and> notified s' = notified s \<and> mutex s' launchBatteryLock = mutex s launchBatteryLock
     \<and> (\<forall>u. u \<noteq> App k \<longrightarrow> u \<noteq> LauncherThread \<longrightarrow> todo s' u = todo s u)"

lemma samePhase:
  assumes "orderInv s" "phaseInv ph s" "\<not> onceRun s LauncherOnce" "\<not> onceRun s BatteryOnce"
    "todo s (App k) = i # p" "perform (App k) i p s = Some s'"
    and "boots ph q" "todo s' = (todo s)(App k := q)" "notified s' = notified s"
    and "made s' BatteryOnce = made s BatteryOnce" "made s' LauncherOnce = made s LauncherOnce"
    and "onceRun s' LauncherOnce = onceRun s LauncherOnce" "onceRun s' BatteryOnce = onceRun s BatteryOnce"
    and "i = Acquire launcherInitializerLock \<Longrightarrow> ph \<noteq> Up" "mutex s' launchBatteryLock = mutex s launchBatteryLock"
  shows "callGoesOn k s s'"
proof -
  have "phaseInv ph s'"
  proof (rule phaseInv_cong [OF assms(2)])
    assume "ph = Up" "mutex s launcherInitializerLock = None"
    with assms(14) mutex_perform [OF assms(1,5,6), of launcherInitializerLock]
    show "mutex s' launcherInitializerLock = None" by auto
  qed (use assms in auto)
  with assms have "startingBy ph k s'" by (intro startingByI) auto
  with assms show ?thesis by (auto simp: callGoesOn_def)
qed

lemma firstCall_setFlag:
  assumes "orderInv s" "startingBy ph k s" "todo s (App k) = SetFlag f # p" "perform (App k) (SetFlag f) p s = Some s'"
  shows "callGoesOn k s s'"
proof -
  note s = startingBy_D [OF assms(2,3)]
  consider "f = Made BatteryOnce" | "f = Done LauncherOnce" | c where "f = Made c \<or> f = Done c" "simpleOnce c"
    using s(4) by (cases "(ph, SetFlag f # p)" rule: boots.cases) auto
  then show ?thesis
  proof cases
    case 1
    with s assms(4) have "startingBy InBattery k s'" by (intro startingByI) auto
    with 1 assms(4) show ?thesis by (auto simp: callGoesOn_def)
  next
    case 2
    with s assms(4) show ?thesis by (auto simp: callGoesOn_def startedBy_def launcherUp_def)
  next
    case 3
    then have "boots ph p" "BatteryOnce \<noteq> c" "LauncherOnce \<noteq> c" using s(4) by (cases c; auto)+
    with 3 s(1-3) assms(4) show ?thesis
      by (intro samePhase [OF assms(1) s(3,1,2) assms(3,4), of p]) auto
  qed
qed

lemma firstCall_ifFlag:
  assumes "phaseInv ph s" "\<not> onceRun s LauncherOnce" "\<not> onceRun s BatteryOnce" "boots ph (IfFlag f b q # p)"
  shows "boots ph (if flagOf f s = b then q @ p else p)"
proof (cases f)
  case (Made c)
  then show ?thesis using assms(4) phaseInv_made(1,2) [OF assms(1)] by (cases c) auto
next
  case (Done c)
  then show ?thesis using assms(2-4) by (cases c) auto
qed (use assms(4) in auto)

text \<open>The caller finds the launcher up, or sleeps until it is.\<close>

lemma firstCall_await:
  assumes "orderInv s" "startingBy ph k s" "todo s (App k) = Await f l # p" "perform (App k) (Await f l) p s = Some s'"
  shows "callGoesOn k s s'"
proof -
  note s = startingBy_D [OF assms(2,3)]
  from s(4) have a: "ph = Launched" "f = Made LauncherOnce" "l = launcherInitializerLock" "boots Announced p" by auto
  have "orderly (App k) (maskOf s (App k)) (held s (App k)) (Await f l # p)"
    using orderInv_D(1) [OF assms(1), of "App k"] unfolding assms(3) .
  then have "mutex s launcherInitializerLock = Some (App k)" using a(3) by (simp add: held_def)
  then have "launcherInitializerLock \<notin> held s LauncherThread" by (simp add: held_def)
  then have l: "todo s LauncherThread \<notin> {drop 1 launcher_code, drop 2 launcher_code}"
    using orderInv_D(1) [OF assms(1), of LauncherThread] by (auto simp: launcher_code_def)
  have "\<exists>ph'. startingBy ph' k s'"
  proof (cases "made s LauncherOnce")
    case True
    with a s l assms(4) have "startingBy Announced k s'" by (intro startingByI) (auto simp: launcherUp_def)
    then show ?thesis ..
  next
    case False
    with l s a have "todo s LauncherThread = launcher_code" by auto
    with False a s assms(4) have "startingBy Launched k s'"
      by (auto simp: startingBy_def firstCall_def announcing_def starting_def)
    then show ?thesis ..
  qed
  with a assms(4) show ?thesis by (auto simp: callGoesOn_def split: if_splits)
qed

lemma firstCall_perform:
  assumes "orderInv s" "startingBy ph k s" "todo s (App k) = i # p" "perform (App k) i p s = Some s'"
  shows "callGoesOn k s s'"
proof -
  have "i \<noteq> Asleep f" for f using assms(4) by auto
  note s = startingBy_D [OF assms(2,3) this]
  note same = samePhase [OF assms(1) s(3,1,2) assms(3,4)]
  show ?thesis
  proof (cases i)
    case (Acquire l)
    with s assms(4) show ?thesis by (intro same [of p]) (auto split: if_splits)
  next
    case (Release l)
    show ?thesis
    proof (cases "l = launcherInitializerLock \<and> ph = Announced")
      case True
      with Release s assms(4) have "startingBy Up k s'" by (intro startingByI) (auto simp: launcherUp_def)
      with True Release assms(4) show ?thesis by (auto simp: callGoesOn_def)
    next
      case False
      with Release s assms(4) show ?thesis by (intro same [of p]) auto
    qed
  next
    case (Access d)
    with s assms(4) show ?thesis by (intro same [of p]) auto
  next
    case (SetFlag f)
    with firstCall_setFlag assms show ?thesis by blast
  next
    case (IfFlag f b q)
    with firstCall_ifFlag [of ph s f b q p] s assms(4) show ?thesis
      by (intro same [of "if flagOf f s = b then q @ p else p"]) auto
  next
    case (Spawn u)
    then have u: "u = LauncherThread" "ph = InBattery" "boots Launched p" using s(4) by auto
    with Spawn s assms(4) have "startingBy Launched k s'"
      by (intro startingByI) (auto simp: thread_code_def split: if_splits)
    with Spawn u assms(4) show ?thesis by (auto simp: callGoesOn_def split: if_splits)
  next
    case (Await f l)
    with firstCall_await assms show ?thesis by blast
  qed (use s(4) in auto)
qed

subsection \<open>The start is kept\<close>

lemma startInv_started:
  assumes "onceRun s LauncherOnce" "launcherUp s" "mutex s launcherInitializerLock = None" "\<And>t. running True (todo s t)"
  shows "startInv s"
  using assms by (simp add: startInv_def)

lemma startsI:
  assumes "\<not> notified s" "todo s TimerThread = []" "mutex s launchBatteryLock = Some (App k)"
    "startingBy ph k s" "\<And>j. j \<noteq> k \<Longrightarrow> outside (todo s (App j))"
  shows "startInv s"
  using assms by (auto simp: startInv_def starts_def startingBy_def)

lemma startsE:
  assumes "startInv s" "\<not> onceRun s LauncherOnce"
  obtains (fresh) "mutex s launchBatteryLock = None" "\<not> notified s" "todo s TimerThread = []" "\<not> onceRun s BatteryOnce"
      "phaseInv Fresh s" "\<And>k. outside (todo s (App k))"
    | (first) k ph where "mutex s launchBatteryLock = Some (App k)" "\<not> notified s" "todo s TimerThread = []"
      "startingBy ph k s" "\<And>j. j \<noteq> k \<Longrightarrow> outside (todo s (App j))"
proof -
  from assms obtain ph where s: "\<not> notified s" "todo s TimerThread = []" "\<not> onceRun s BatteryOnce" "phaseInv ph s"
    and o: "case mutex s launchBatteryLock of None \<Rightarrow> ph = Fresh \<and> (\<forall>k. outside (todo s (App k)))
      | Some t \<Rightarrow> (\<exists>k. t = App k \<and> firstCall ph k s \<and> (\<forall>j. j \<noteq> k \<longrightarrow> outside (todo s (App j))))"
    by (auto simp: startInv_def starts_def)
  show thesis
  proof (cases "mutex s launchBatteryLock")
    case None
    with s o show ?thesis by (intro fresh) auto
  next
    case (Some t)
    with o obtain k where "t = App k" "firstCall ph k s" "\<forall>j. j \<noteq> k \<longrightarrow> outside (todo s (App j))" by auto
    with Some s assms(2) show ?thesis by (intro first [of k ph]) (auto simp: startingBy_def)
  qed
qed

lemma running_outside: "outside p \<Longrightarrow> running late p"
  by (auto simp: outside_def)

lemma outside_step:
  assumes "outside (i # p)" "perform t i p s = Some s'"
  shows "s' = resume t p s \<and> outside p \<or>
    i = Acquire launchBatteryLock \<and> mutex s launchBatteryLock = None \<and> boots Fresh p
      \<and> s' = (resume t p s)\<lparr>mutex := (mutex s)(launchBatteryLock := Some t)\<rparr>"
proof -
  from assms(1) obtain fits where f: "i # p = sendMessageGbn_code fits \<or> i # p = drop 1 (sendMessageGbn_code fits)"
    by (auto simp: outside_def)
  have c: "sendMessageGbn_code fits = Access LastMsgId # Acquire launchBatteryLock # drop 2 (sendMessageGbn_code fits)"
    by (simp add: sendMessageGbn_code_def)
  from f show ?thesis
  proof
    assume "i # p = sendMessageGbn_code fits"
    with c have "i = Access LastMsgId" "p = drop 1 (sendMessageGbn_code fits)" by (metis drop0 drop_Suc_Cons One_nat_def list.inject)+
    with assms(2) show ?thesis by (auto simp: outside_def)
  next
    assume "i # p = drop 1 (sendMessageGbn_code fits)"
    moreover have "drop 1 (sendMessageGbn_code fits) = Acquire launchBatteryLock # drop 2 (sendMessageGbn_code fits)"
      by (simp add: sendMessageGbn_code_def)
    ultimately have "i = Acquire launchBatteryLock" "p = drop 2 (sendMessageGbn_code fits)" by auto
    with assms(2) boots_send show ?thesis by (auto split: if_splits)
  qed
qed

lemma firstCall_woken:
  assumes "firstCall ph k s" "todo s' (App k) = woken f (todo s (App k))"
    "\<And>g q. todo s (App k) = Asleep g # q \<Longrightarrow> f \<noteq> g \<Longrightarrow> announcing (todo s' LauncherThread)"
  shows "firstCall ph k s'"
proof (cases "\<exists>q. todo s (App k) = Asleep f # q")
  case True
  then obtain q where q: "todo s (App k) = Asleep f # q" ..
  with assms(1) have "boots ph q" by (auto simp: firstCall_def)
  with boots_awake [OF this] q assms(2) show ?thesis
    by (cases "(ph, q)" rule: boots.cases) (auto simp: firstCall_def)
next
  case False
  then have "woken f (todo s (App k)) = todo s (App k)"
    by (cases "todo s (App k)" rule: list.exhaust; cases "(f, todo s (App k))" rule: woken.cases) auto
  with assms False show ?thesis by (fastforce simp: firstCall_def)
qed

lemma outside_woken: "outside p \<Longrightarrow> woken f p = p"
  by (auto simp: outside_def sendMessageGbn_code_def)

lemma phaseInv_running:
  assumes "phaseInv ph s" "todo s LauncherThread \<noteq> []" "\<not> starting (todo s LauncherThread)"
  shows "launcherUp s" "running False (todo s LauncherThread)"
  using assms by (cases ph; auto simp: launcherUp_def starting_def split: if_splits)+

lemma starting_perform:
  assumes "starting (i # p)" "perform LauncherThread i p s = Some s'"
  shows "(i # p = launcher_code \<and> p = drop 1 launcher_code \<and> made s' = made s
      \<or> i # p = drop 1 launcher_code \<and> p = drop 2 launcher_code \<and> made s' = (made s)(LauncherOnce := True)
      \<or> i # p = drop 2 launcher_code \<and> p = drop 3 launcher_code \<and> made s' = made s)
    \<and> todo s' = (todo s)(LauncherThread := p) \<and> onceRun s' = onceRun s \<and> notified s' = notified s
    \<and> mutex s' launchBatteryLock = mutex s launchBatteryLock"
  using assms by (auto simp: starting_def launcher_code_def split: if_splits)

lemma launcher_starts:
  assumes "orderInv s" "startInv s" "\<not> onceRun s LauncherOnce"
    "todo s LauncherThread = i # p" "perform LauncherThread i p s = Some s'"
  shows "startInv s'"
  using assms(2,3)
proof (cases rule: startsE)
  case fresh
  with assms(4) show ?thesis by simp
next
  case (first k ph)
  from first(4) have s: "phaseInv ph s" "firstCall ph k s" "\<not> onceRun s LauncherOnce" "\<not> onceRun s BatteryOnce"
    by (simp_all add: startingBy_def)
  show ?thesis
  proof (cases "starting (i # p)")
    case True
    then have "ph = Launched" using s(1) assms(4) running_notStarting by (cases ph) auto
    note q = starting_perform [OF True assms(5)]
    from q s(1) \<open>ph = Launched\<close> assms(4) have "phaseInv ph s'"
      by (auto simp: launcher_code_def split: if_splits)
    moreover have "announcing p" using q by (auto simp: announcing_def starting_def)
    with q s(2) have "firstCall ph k s'" by (auto simp: firstCall_def)
    ultimately show ?thesis using q first s by (intro startsI [of s' k ph]) (auto simp: startingBy_def)
  next
    case False
    note r = phaseInv_running [OF s(1), unfolded assms(4), OF list.distinct(2) False]
    note R = running_perform [OF r assms(5,4)]
    have o: "orderly LauncherThread (maskOf s LauncherThread) (held s LauncherThread) (i # p)"
      using orderInv_D(1) [OF assms(1), of LauncherThread] assms(4) by simp
    have "i \<noteq> KillLauncher" using o first(1) by (auto simp: held_def)
    with R first have n: "\<not> notified s'" by auto
    have m: "mutex s' launchBatteryLock = Some (App k)"
      using mutex_perform [OF assms(1,4,5), of launchBatteryLock] first(1) by auto
    have f: "\<not> onceRun s' LauncherOnce" "\<not> onceRun s' BatteryOnce" "phaseInv ph s'"
      using R r s by (cases ph; auto simp: sameStart_def launcherUp_def starting_def split: if_splits)+
    have a: "announcing (i # p) \<longleftrightarrow> i # p = drop 3 launcher_code" using False by (auto simp: announcing_def)
    have sleep: "i = SignalFlag (Made LauncherOnce) \<and> g = Made LauncherOnce" if "todo s (App k) = Asleep g # q" for g q
      using that s(2) assms(4) a by (auto simp: firstCall_def launcher_code_def)
    show ?thesis
    proof (cases "\<exists>f. i = SignalFlag f")
      case True
      then obtain f where i: "i = SignalFlag f" ..
      with assms(5) have w: "todo s' u = woken f (((todo s)(LauncherThread := p)) u)" for u by auto
      have "firstCall ph k s'"
        by (rule firstCall_woken [OF s(2), of s' f]) (use w sleep i in \<open>auto split: if_splits\<close>)
      moreover have "outside (todo s' (App j))" if "j \<noteq> k" for j
        using w outside_woken [OF first(5) [OF that]] first(5) [OF that] by simp
      ultimately show ?thesis using w first n m f by (intro startsI [of s' k ph]) (auto simp: startingBy_def)
    next
      case noSignal: False
      with R have w: "todo s' u = todo s u" if "u \<noteq> LauncherThread" for u using that by auto
      have "firstCall ph k s'" using s(2) sleep noSignal w by (auto simp: firstCall_def)
      with w first n m f show ?thesis by (intro startsI [of s' k ph]) (auto simp: startingBy_def)
    qed
  qed
qed

lemma app_starts:
  assumes "orderInv s" "startInv s" "\<not> onceRun s LauncherOnce"
    "todo s (App j) = i # p" "perform (App j) i p s = Some s'"
  shows "startInv s'"
  using assms(2,3)
proof (cases rule: startsE)
  case fresh
  from outside_step [OF fresh(6) [of j, unfolded assms(4)] assms(5)] show ?thesis
  proof (elim disjE conjE)
    assume s': "s' = resume (App j) p s" "outside p"
    with fresh have "\<forall>k. outside (todo s' (App k))" by auto
    with s' fresh assms(3) show ?thesis by (auto simp: startInv_def starts_def intro!: exI [of _ Fresh])
  next
    assume b: "boots Fresh p" "s' = (resume (App j) p s)\<lparr>mutex := (mutex s)(launchBatteryLock := Some (App j))\<rparr>"
    then have "startingBy Fresh j s'"
      using fresh assms(3) boots_awake [OF b(1)] by (cases "(Fresh, p)" rule: boots.cases)
        (auto simp: startingBy_def firstCall_def)
    with b fresh show ?thesis by (intro startsI [of s' j Fresh]) auto
  qed
next
  case (first k ph)
  show ?thesis
  proof (cases "j = k")
    case False
    from outside_step [OF first(5) [OF False, unfolded assms(4)] assms(5)] first(1)
    have s': "s' = resume (App j) p s" "outside p" by auto
    then have "startingBy ph k s'" using first(4) False phaseInv_cong [of ph s s']
      by (auto simp: startingBy_def firstCall_def)
    with s' first show ?thesis by (intro startsI [of s' k ph]) auto
  next
    case True
    have q: "startedBy k s' \<and> running False (todo s' LauncherThread) \<or> (\<exists>ph'. startingBy ph' k s')" "notified s' = notified s"
      "mutex s' launchBatteryLock = mutex s launchBatteryLock"
      "\<And>u. u \<noteq> App k \<Longrightarrow> u \<noteq> LauncherThread \<Longrightarrow> todo s' u = todo s u"
      using firstCall_perform [OF assms(1) first(4), of i p s'] assms(4,5) True by (auto simp: callGoesOn_def)
    from q(1) show ?thesis
    proof
      assume "startedBy k s' \<and> running False (todo s' LauncherThread)"
      then have st: "startedBy k s'" and l: "running False (todo s' LauncherThread)" by auto
      have "running True (todo s' (App n))" for n
        using st q(4) [of "App n"] running_outside [OF first(5)] by (cases "n = k") (auto simp: startedBy_def)
      then have "running True (todo s' t)" for t
        using q(4) [of t] running_mono [OF l, of True] first(3) by (cases t) auto
      with st show ?thesis by (auto simp: startedBy_def intro: startInv_started)
    next
      assume "\<exists>ph'. startingBy ph' k s'"
      then obtain ph' where "startingBy ph' k s'" ..
      with q(2-4) first show ?thesis by (intro startsI [of s' k ph']) auto
    qed
  qed
qed

lemma startInv_moves:
  assumes "moves s s'" "orderInv s" "startInv s"
  shows "startInv s'"
proof -
  from assms(1) obtain t i p where t: "todo s t = i # p" "perform t i p s = Some s'" by (rule movesE)
  show ?thesis
  proof (cases "onceRun s LauncherOnce")
    case True
    with assms(3) have s: "launcherUp s" "mutex s launcherInitializerLock = None" "\<And>u. running True (todo s u)"
      by (auto simp: startInv_def)
    note R = running_perform [OF s(1) s(3) [of t, unfolded t(1)] t(2,1)]
    have "running True (todo s' u)" for u
    proof (cases "u = t")
      case False
      with R s(3) [of u] running_woken show ?thesis by (cases "\<exists>f. i = SignalFlag f") auto
    qed (use R in simp)
    with R s True show ?thesis by (intro startInv_started) (auto simp: sameStart_def launcherUp_def)
  next
    case False
    show ?thesis
    proof (cases t)
      case (App k)
      with t assms False show ?thesis by (blast intro: app_starts)
    next
      case LauncherThread
      with t assms False show ?thesis by (blast intro: launcher_starts)
    next
      case TimerThread
      with t startsE [OF assms(3) False] show ?thesis by (metis list.distinct(1))
    qed
  qed
qed

lemma startInv_wakes:
  assumes "wakes s s'" "protocolInv s" "startInv s"
  shows "startInv s'"
proof -
  note w = wakes_asleep [OF assms(1,2)]
  then have T: "todo s TimerThread \<noteq> []" by simp
  have d: "onceRun s LauncherOnce"
  proof (rule ccontr)
    assume "\<not> onceRun s LauncherOnce"
    from startsE [OF assms(3) this] T show False by metis
  qed
  with assms(3) have s: "launcherUp s" "mutex s launcherInitializerLock = None" "\<And>u. running True (todo s u)"
    by (auto simp: startInv_def)
  have "running True (Acquire atTimeoutLock # afterWait)" using s(3) [of TimerThread] w by simp
  then have "running True (todo s' t)" for t using s(3) w by auto
  with w d s show ?thesis by (intro startInv_started) (auto simp: launcherUp_def)
qed

text \<open>What arrives once the launcher was created.\<close>

lemma arrives_late:
  assumes "arrives s s'" "startInv s" "onceRun s LauncherOnce"
  shows "startInv s'"
proof -
  from assms(2,3) have s: "launcherUp s" "mutex s launcherInitializerLock = None" "\<And>u. running True (todo s u)"
    by (auto simp: startInv_def)
  have r: "startInv (resume t p s)" "startInv ((resume t p s)\<lparr>evMasked := True\<rparr>)" if "running True p" for t p
    using that s assms(3) by (intro startInv_started; auto simp: launcherUp_def)+
  from assms(1) show ?thesis
  proof cases
    case (spurious t f p)
    with s(3) [of t] r show ?thesis by auto
  next
    case (signal handler fired)
    with running_handler [OF signal(4) s(3)] r show ?thesis by auto
  qed (use r in auto)
qed

lemma outside_send: "outside (sendMessageGbn_code fits)"
  by (auto simp: outside_def)

lemma outside_asleep: "\<not> outside (Asleep f # p)"
  using outside_woken [of "Asleep f # p" f] by auto

lemma arrives_fresh:
  assumes "arrives s s'" "\<not> onceRun s LauncherOnce" "mutex s launchBatteryLock = None" "\<not> notified s"
    "todo s TimerThread = []" "\<not> onceRun s BatteryOnce" "phaseInv Fresh s" "\<And>k. outside (todo s (App k))"
  shows "startInv s'"
  using assms(1)
proof cases
  case (call k fits)
  with assms outside_send show ?thesis by (auto simp: startInv_def starts_def intro!: exI [of _ Fresh])
next
  case (spurious t f p)
  have "t \<noteq> App k" for k using assms(8) [of k] spurious outside_asleep by auto
  with spurious assms(5,7) show ?thesis by (cases t) auto
qed (use assms in auto)

text \<open>During the first call nothing but the launcher's own datagrams and wakeups arrives.\<close>

lemma arrives_first:
  assumes "arrives s s'" "mutex s launchBatteryLock = Some (App k)" "\<not> notified s" "todo s TimerThread = []"
    "startingBy ph k s" "\<And>j. j \<noteq> k \<Longrightarrow> outside (todo s (App j))"
  shows "startInv s'"
proof -
  from assms(5) have s: "phaseInv ph s" "firstCall ph k s" "\<not> onceRun s LauncherOnce" "\<not> onceRun s BatteryOnce"
    by (auto simp: startingBy_def)
  have launcher: "startInv (resume LauncherThread p s)"
    if "phaseInv ph (resume LauncherThread p s)" "\<And>f q. todo s (App k) \<noteq> Asleep f # q" for p
    using that assms(2-4,6) s by (intro startsI [of _ k ph]) (auto simp: startingBy_def firstCall_def)
  have app: "startInv (resume (App j) p s)" if "firstCall ph k (resume (App j) p s)" "j = k \<or> outside p" for j p
    using that assms(2-4,6) s phaseInv_cong [OF s(1), of "resume (App j) p s"]
    by (intro startsI [of _ k ph]) (auto simp: startingBy_def)
  from assms(1) show ?thesis
  proof cases
    case (call j fits)
    then have "j \<noteq> k" using s(2) by (auto simp: firstCall_def)
    with call s(2) outside_send show ?thesis by (auto simp: firstCall_def intro!: app)
  next
    case (datagram isAck acked endOfMessage)
    then have "todo s (App k) \<noteq> Asleep f # q" for f q
      using s(2) by (auto simp: firstCall_def announcing_def starting_def launcher_code_def)
    moreover have "phaseInv ph s'" using datagram s(1) by (cases ph) (auto simp: launcherUp_def)
    ultimately show ?thesis using datagram launcher by blast
  next
    case (signal handler fired)
    with assms(3) show ?thesis by simp
  next
    case (spurious t f p)
    show ?thesis
    proof (cases t)
      case (App j)
      then have "j = k" using outside_asleep assms(6) spurious by metis
      moreover have "firstCall ph k s'"
        by (rule firstCall_woken [OF s(2), of s' f]) (use spurious App \<open>j = k\<close> s(2) in \<open>auto simp: firstCall_def\<close>)
      ultimately show ?thesis using spurious App app by blast
    next
      case LauncherThread
      with spurious have "todo s LauncherThread \<noteq> []" "\<not> starting (todo s LauncherThread)"
        by (auto simp: starting_def launcher_code_def)
      from phaseInv_running [OF s(1) this] spurious LauncherThread have r: "running False p" "launcherUp s" by auto
      have "todo s (App k) \<noteq> Asleep g # q" for g q
        using s(2) spurious LauncherThread by (auto simp: firstCall_def announcing_def starting_def launcher_code_def)
      moreover have "phaseInv ph s'" using spurious LauncherThread r s(1) by (cases ph) (auto simp: launcherUp_def)
      ultimately show ?thesis using spurious LauncherThread launcher by blast
    qed (use spurious assms(4) in simp)
  qed
qed

lemma startInv_arrives:
  assumes "arrives s s'" "startInv s"
  shows "startInv s'"
proof (cases "onceRun s LauncherOnce")
  case True
  with assms arrives_late show ?thesis by blast
next
  case False
  from assms(2) False show ?thesis
    by (cases rule: startsE) (blast intro: arrives_fresh [OF assms(1) False] arrives_first [OF assms(1)])+
qed

lemma startInv_initial: "startInv (initialThreads adaptive)"
  by (auto simp: startInv_def starts_def initialThreads_def outside_def intro!: exI [of _ Fresh])


subsection \<open>All together\<close>

lemma start_notified:
  assumes "startInv s" "notified s"
  shows "launcherUp s" "\<not> starting (todo s LauncherThread)" "mutex s launcherInitializerLock = None"
proof -
  have d: "onceRun s LauncherOnce"
  proof (rule ccontr)
    assume "\<not> onceRun s LauncherOnce"
    from startsE [OF assms(1) this] assms(2) show False by metis
  qed
  with assms(1) show "launcherUp s" "mutex s launcherInitializerLock = None" by (simp_all add: startInv_def)
  from d assms(1) have "running True (todo s LauncherThread)" by (simp add: startInv_def)
  then show "\<not> starting (todo s LauncherThread)" by (rule running_notStarting)
qed

lemma start_up:
  assumes "startInv s"
  shows "launcherUp s \<or> todo s TimerThread = [] \<and> (todo s LauncherThread = [] \<or> starting (todo s LauncherThread))"
proof (cases "onceRun s LauncherOnce")
  case True
  with assms show ?thesis by (simp add: startInv_def)
next
  case False
  from assms False show ?thesis
  proof (cases rule: startsE)
    case (first k ph)
    then show ?thesis using phaseInv_running(1) [of ph s] by (auto simp: startingBy_def)
  qed auto
qed

definition wellBehaved :: "threads \<Rightarrow> bool" where
  "wellBehaved s \<longleftrightarrow> orderInv s \<and> protocolInv s \<and> startInv s"

lemma wellBehaved_D:
  assumes "wellBehaved s"
  shows "orderInv s" "protocolInv s" "startInv s"
  using assms by (simp_all add: wellBehaved_def)

lemma wellBehaved_moves: "moves s s' \<Longrightarrow> wellBehaved s \<Longrightarrow> wellBehaved s'"
  using orderInv_moves protocol_moves startInv_moves start_up by (simp add: wellBehaved_def)

lemma wellBehaved_wakes: "wakes s s' \<Longrightarrow> wellBehaved s \<Longrightarrow> wellBehaved s'"
  using orderInv_wakes protocol_wakes startInv_wakes by (simp add: wellBehaved_def)

lemma wellBehaved_arrives:
  assumes "arrives s s'" "wellBehaved s"
  shows "wellBehaved s'"
proof -
  note W = wellBehaved_D [OF assms(2)]
  have "orderInv s'" using start_notified(3) [OF W(3)] by (intro orderInv_arrives [OF assms(1) W(1)]) simp
  moreover have "protocolInv s'" using start_notified(2) [OF W(3)] by (intro protocol_arrives [OF assms(1) W(2)])
  ultimately show ?thesis using startInv_arrives [OF assms(1) W(3)] by (simp add: wellBehaved_def)
qed

lemma wellBehaved_step: "threadStep s s' \<Longrightarrow> wellBehaved s \<Longrightarrow> wellBehaved s'"
  by (auto simp: threadStep_def intro: wellBehaved_moves wellBehaved_wakes wellBehaved_arrives)

lemma wellBehaved_reach: "threadsReach adaptive s \<Longrightarrow> wellBehaved s"
proof (induction rule: rtranclp_induct)
  case base
  show ?case by (simp add: wellBehaved_def orderInv_initial protocol_initial startInv_initial)
qed (rule wellBehaved_step)

text \<open>A caller that sleeps awaits a launcher that has not announced itself yet.\<close>

lemma sleeper_D:
  assumes "wellBehaved s" "todo s (App k) = Asleep f # p"
  shows "f = Made LauncherOnce" "hd p = Acquire launcherInitializerLock \<and> p \<noteq> []"
    "announcing (todo s LauncherThread)" "mutex s launchBatteryLock = Some (App k)"
proof -
  note W = wellBehaved_D [OF assms(1)]
  show f: "f = Made LauncherOnce" using protocol_D(5) [OF W(2), of k] assms(2) by simp
  have d: "\<not> onceRun s LauncherOnce"
  proof
    assume "onceRun s LauncherOnce"
    with W(3) have "running True (todo s (App k))" by (simp add: startInv_def)
    with assms(2) f show False by simp
  qed
  from W(3) d have "hd p = Acquire launcherInitializerLock \<and> p \<noteq> [] \<and> announcing (todo s LauncherThread)
    \<and> mutex s launchBatteryLock = Some (App k)"
  proof (cases rule: startsE)
    case fresh
    with outside_woken [OF fresh(6) [of k], of f] assms(2) show ?thesis by simp
  next
    case (first j ph)
    have "j = k"
    proof (rule ccontr)
      assume "j \<noteq> k"
      with outside_woken [OF first(5), of k f] assms(2) show False by simp
    qed
    with first assms(2) show ?thesis by (auto simp: startingBy_def firstCall_def)
  qed
  then show "hd p = Acquire launcherInitializerLock \<and> p \<noteq> []" "announcing (todo s LauncherThread)"
    "mutex s launchBatteryLock = Some (App k)" by auto
qed

end
