(* ===== verification/Singletons.thy ===== *)
theory Singletons
  imports Startup
begin

text \<open>
  The singletons of the process: the battery, the window, the send table and the network estimates,
  each created by its getter under \<open>pthread_once\<close> (gbn/launchBattery.c, gbn/networkSampler.c). \<open>sane\<close>
  checks a list of instructions against what its thread knows of the singleton; every routine is
  sane, so that none is created twice and none is used before it is created.
\<close>

subsection \<open>What a thread knows of a singleton\<close>

text \<open>Nothing, or that it exists; inside its \<open>pthread_once\<close>: that it was entered, that the routine has
  not begun, that it has created the singleton, that it is over.\<close>

datatype knowledge = Unknown | Known | Entered | Absent | Created | Finished

fun objectOf :: "shared \<Rightarrow> once option" where
  "objectOf LaunchPads = Some BatteryOnce"
| "objectOf Window = Some WindowOnce"
| "objectOf Table = Some TableOnce"
| "objectOf NetworkEstimates = Some NetworkOnce"
| "objectOf LastMsgId = None"

function (sequential) sane :: "once \<Rightarrow> knowledge \<Rightarrow> instr list \<Rightarrow> bool" where
  "sane c k [] = (k \<in> {Unknown, Known})"
| "sane c k (Acquire l # p) =
     (if l = OnceLock c then k \<in> {Unknown, Known} \<and> sane c Entered p else sane c k p)"
| "sane c k (Release l # p) = (if l = OnceLock c then k = Finished \<and> sane c Known p else sane c k p)"
| "sane c k (Access d # p) = ((objectOf d = Some c \<longrightarrow> k \<in> {Known, Created, Finished}) \<and> sane c k p)"
| "sane c k (SetFlag f # p) =
     (if f = Made c then k = Absent \<and> sane c Created p
      else if f = Done c then k = Created \<and> sane c Finished p else sane c k p)"
| "sane c k (IfFlag f b q # p) =
     (if f = Made c then
        (if k = Unknown then sane c Known (if b then q @ p else p) \<and> sane c Unknown (if b then p else q @ p)
         else k \<in> {Known, Created, Finished} \<and> sane c k (if b then q @ p else p))
      else if f = Done c then
        k = Entered \<and> sane c Finished (if b then q @ p else p) \<and> sane c Absent (if b then p else q @ p)
      else sane c k (q @ p) \<and> sane c k p)"
| "sane c k (Await f l # p) = (l \<noteq> OnceLock c \<and> sane c k p)"
| "sane c k (TimedWait l # p) = (l \<noteq> OnceLock c \<and> sane c k p)"
| "sane c k (TimedOut l # p) = (l \<noteq> OnceLock c \<and> sane c k p)"
| "sane c k (TimerLoop # p) = (k \<in> {Unknown, Known} \<and> sane c Unknown p)"
| "sane c k (UnmaskEvents # p) = (k \<in> {Unknown, Known} \<and> sane c Unknown p)"
| "sane c k (i # p) = sane c k p"
  by pat_completeness auto
termination by (relation "measure (\<lambda>(c, k, p). size_list size p)") auto

lemma sane_known: "sane c Unknown p \<Longrightarrow> sane c Known p"
  by (induction c Unknown p rule: sane.induct) (auto split: if_splits)

text \<open>Outside of \<open>pthread_once\<close>.\<close>

definition clear :: "knowledge \<Rightarrow> bool" where
  "clear k \<longleftrightarrow> k \<in> {Unknown, Known}"

lemma clear_simps [simp]: "clear Unknown" "clear Known"
  by (simp_all add: clear_def)

lemma sane_clear: "clear k \<Longrightarrow> sane c Unknown p \<Longrightarrow> sane c k p"
  using sane_known by (auto simp: clear_def)

lemma sane_once:
  assumes "clear k \<Longrightarrow> c = d \<Longrightarrow> sane c Known p \<and> sane c Absent (routine @ SetFlag (Done d) # Release (OnceLock d) # p)"
    and "c \<noteq> d \<Longrightarrow> sane c k p \<and> sane c k (routine @ SetFlag (Done d) # Release (OnceLock d) # p)"
    and "c = d \<Longrightarrow> clear k"
  shows "sane c k (once_code d routine @ p)"
proof (cases "c = d")
  case True
  with assms(1,3) show ?thesis by (auto simp: once_code_def clear_def)
next
  case False
  with assms(2) show ?thesis by (auto simp: once_code_def)
qed

lemma sane_simple_once:
  assumes "c = d \<Longrightarrow> clear k" "sane c (if c = d then Known else k) p"
  shows "sane c k (once_code d [SetFlag (Made d)] @ p)"
  by (rule sane_once) (use assms in auto)

lemma sane_getters:
  "(c = TableOnce \<Longrightarrow> clear k) \<Longrightarrow> sane c (if c = TableOnce then Known else k) p \<Longrightarrow> sane c k (getSendTable_code @ p)"
  "(c = WindowOnce \<Longrightarrow> clear k) \<Longrightarrow> sane c (if c = WindowOnce then Known else k) p \<Longrightarrow> sane c k (getSendWindow_code @ p)"
  "(c = NetworkOnce \<Longrightarrow> clear k) \<Longrightarrow> sane c (if c = NetworkOnce then Known else k) p \<Longrightarrow> sane c k (getNetworkParams_code @ p)"
  unfolding getSendTable_code_def getSendWindow_code_def getNetworkParams_code_def
  by (intro sane_simple_once; simp)+

lemma sane_getLauncherId [simp]:
  "c \<noteq> LauncherOnce \<Longrightarrow> sane c k p \<Longrightarrow> sane c k (getLauncherId_code @ p)"
  unfolding getLauncherId_code_def by (rule sane_once) (auto simp: initLauncher_code_def)

lemma sane_notify [simp]:
  "c \<noteq> LauncherOnce \<Longrightarrow> sane c k p \<Longrightarrow> sane c k (notifyLauncher_code @ p)"
  by (simp add: notifyLauncher_code_def)

lemma sane_getLaunchBattery:
  assumes "c \<noteq> LauncherOnce" "clear k" "c \<noteq> BatteryOnce \<Longrightarrow> sane c k p" "sane c Known p"
  shows "sane c k (getLaunchBattery_code @ p)"
  unfolding getLaunchBattery_code_def
  by (rule sane_once) (use assms in \<open>auto simp: initLaunchBattery_code_def intro!: sane_getters\<close>)

text \<open>What the routines do again and again.\<close>

lemma sane_fires:
  assumes "c \<noteq> LauncherOnce" "clear k" "c = BatteryOnce \<Longrightarrow> k = Known" "sane c k p" "sane c Known p"
  shows "sane c k (concat (map fireLaunchPad_code fired) @ p)"
proof -
  have "sane c k (concat (map fireLaunchPad_code fired) @ p) \<and> sane c Known (concat (map fireLaunchPad_code fired) @ p)"
  proof (induction fired)
    case (Cons sent fired)
    have "sane c h (fireLaunchPad_code sent @ q)"
      if "clear h" "c = BatteryOnce \<Longrightarrow> h = Known" "sane c h q" "sane c Known q" for h q
      using that assms(1) by (auto simp: fireLaunchPad_code_def intro!: sane_getters)
    with Cons assms show ?case by simp
  qed (use assms in simp)
  then show ?thesis ..
qed

lemma sane_samples:
  assumes "c \<noteq> LauncherOnce" "clear k" "c = BatteryOnce \<Longrightarrow> k = Known" "sane c k p" "sane c Known p"
  shows "sane c k (concat (replicate n rttSample_code) @ p)"
proof -
  have "sane c k (concat (replicate n rttSample_code) @ p) \<and> sane c Known (concat (replicate n rttSample_code) @ p)"
  proof (induction n)
    case (Suc n)
    have "sane c h (rttSample_code @ q)"
      if "clear h" "c = BatteryOnce \<Longrightarrow> h = Known" "sane c h q" "sane c Known q" for h q
      using that assms(1) by (auto simp: rttSample_code_def intro!: sane_getters)
    with Suc assms show ?case by simp
  qed (use assms in simp)
  then show ?thesis ..
qed

subsection \<open>The routines are sane\<close>

lemma sane_send: "c \<noteq> LauncherOnce \<Longrightarrow> sane c Unknown (sendMessageGbn_code fits)"
  by (cases c; cases fits) (simp_all add: codes)

lemma sane_handler:
  assumes "handler \<in> {newPackets_code fired, timedOut_code fired}" "c \<noteq> LauncherOnce" "clear k" "sane c Unknown p"
  shows "sane c k (delivered_code handler @ p)"
proof -
  have k: "sane c k q" "sane c Known q" if "sane c Unknown q" for q
    by (rule sane_clear [OF assms(3) that], rule sane_known [OF that])
  have all: "sane c k (sendAllPacketsInWindow_code fired @ q)" if "sane c Unknown q" for q
    unfolding sendAllPacketsInWindow_code_def append_assoc using assms(2,3) k [OF that]
    by (intro sane_getLaunchBattery sane_getters) (auto intro!: sane_fires)
  have start: "sane c Unknown (startTimer_code @ UnmaskEvents # p)"
    "sane c Unknown (timeout_code AT_TIMEOUT_SHUTDOWN @ JoinTimer # UnmaskEvents # p)"
    "sane c Unknown (UnmaskEvents # p)"
    using assms(4) by (simp_all add: startTimer_code_def timeout_code_def)
  let ?r = "\<lambda>q. Release sendWindowLock # Release launchBatteryLock # q"
  have "sane c k (Acquire launchBatteryLock # Acquire sendWindowLock # sendAllPacketsInWindow_code fired @ ?r q)"
    if "sane c Unknown q" for q using all [of "?r q"] that by simp
  note r = this [OF start(3)] this [of "IfFlag Alive False startTimer_code # UnmaskEvents # p"]
    this [of "IfFlag Alive True (timeout_code AT_TIMEOUT_SHUTDOWN @ [JoinTimer]) # UnmaskEvents # p"]
  from assms(1) show ?thesis
  proof
    assume "handler = newPackets_code fired"
    then show ?thesis using r(1,2) start by (cases "True \<in> set fired") (simp_all add: delivered_code_def newPackets_code_def)
  next
    assume "handler \<in> {timedOut_code fired}"
    then show ?thesis using r(1,3) start by (cases "True \<in> set fired") (simp_all add: delivered_code_def timedOut_code_def)
  qed
qed

lemma sane_listen:
  assumes "c \<noteq> LauncherOnce" "clear k"
  shows "sane c k (listenForAcks_code isAck acked endOfMessage)"
proof -
  let ?e = "[Release launchBatteryLock, Release sendWindowLock, UnmaskEvents]"
  have e: "sane c h (notifyLauncher_code @ ?e)" "sane c h ?e" if "clear h" for h
    using that assms(1) by (auto simp: clear_def)
  have rest: "sane c h ((if endOfMessage
        then [Acquire sendTableLock] @ getSendTable_code @ [Access Table, Release sendTableLock] else [])
      @ [IfFlag Alive True (timeout_code AT_TIMEOUT_RESTART), Access Window] @ notifyLauncher_code @ ?e)"
    if "clear h" "c = WindowOnce \<Longrightarrow> h = Known" for h
    using that e assms(1) by (auto simp: timeout_code_def intro!: sane_getters)
  have "sane c h (acked_code acked endOfMessage @ ?e)" if "clear h" "c = WindowOnce \<Longrightarrow> h = Known" for h
    unfolding acked_code_def append_assoc using rest e that assms(1)
    by (intro sane_getLaunchBattery sane_samples) auto
  then have "sane c k (getSendWindow_code @ Access Window # Acquire launchBatteryLock # acked_code acked endOfMessage @ ?e)"
    using assms(2) by (intro sane_getters) auto
  then show ?thesis using assms(2) by (auto simp: listenForAcks_code_def clear_def)
qed

lemma sane_launcher [simp]: "sane c Unknown launcher_code" if "c \<noteq> LauncherOnce"
  using that by (simp add: launcher_code_def)

lemma sane_timer [simp]: "sane c Unknown timer_code"
  by (simp add: timer_code_def)

lemma sane_round:
  assumes "c \<noteq> LauncherOnce" "clear k" "sane c Unknown p"
  shows "sane c k (timerRound_code adaptive @ TimerLoop # p)"
  using assms by (auto simp: timerRound_code_def calcTimeout_code_def clear_def intro!: sane_getters)


subsection \<open>Every singleton is created once\<close>

fun place :: "once \<Rightarrow> thread \<Rightarrow> threads \<Rightarrow> knowledge \<Rightarrow> bool" where
  "place c t s Unknown = (mutex s (OnceLock c) \<noteq> Some t)"
| "place c t s Known = (mutex s (OnceLock c) \<noteq> Some t \<and> made s c)"
| "place c t s Entered = (mutex s (OnceLock c) = Some t \<and> made s c = onceRun s c)"
| "place c t s Absent = (mutex s (OnceLock c) = Some t \<and> \<not> made s c \<and> \<not> onceRun s c)"
| "place c t s Created = (mutex s (OnceLock c) = Some t \<and> made s c \<and> \<not> onceRun s c)"
| "place c t s Finished = (mutex s (OnceLock c) = Some t \<and> made s c \<and> onceRun s c)"

definition stands :: "once \<Rightarrow> threads \<Rightarrow> thread \<Rightarrow> instr list \<Rightarrow> bool" where
  "stands c s t p \<longleftrightarrow> (\<exists>k. place c t s k \<and> sane c k p)"

definition singleInv :: "once \<Rightarrow> threads \<Rightarrow> bool" where
  "singleInv c s \<longleftrightarrow> (mutex s (OnceLock c) = None \<longrightarrow> made s c = onceRun s c) \<and> (\<forall>t. stands c s t (todo s t))"

lemma stands_idle: "stands c s t [] \<Longrightarrow> mutex s (OnceLock c) \<noteq> Some t"
  by (auto simp: stands_def)

lemma stands_fresh: "mutex s (OnceLock c) \<noteq> Some t \<Longrightarrow> sane c Unknown p \<Longrightarrow> stands c s t p"
  by (auto simp: stands_def intro: exI [of _ Unknown])

lemma stands_same:
  assumes "stands c s t p" "made s' c = made s c" "onceRun s' c = onceRun s c"
    "mutex s' (OnceLock c) = mutex s (OnceLock c)" "\<And>k. sane c k p \<Longrightarrow> place c t s k \<Longrightarrow> sane c k p'"
  shows "stands c s' t p'"
proof -
  from assms(1) obtain k where "place c t s k" "sane c k p" by (auto simp: stands_def)
  moreover have "place c t s' k = place c t s k" using assms(2-4) by (cases k) auto
  ultimately show ?thesis using assms(5) by (auto simp: stands_def)
qed

text \<open>When the lock is free or another thread holds it, a thread only learns.\<close>

lemma stands_other:
  assumes "stands c s u p" "mutex s (OnceLock c) \<noteq> Some u" "mutex s' (OnceLock c) \<noteq> Some u"
    "made s c \<Longrightarrow> made s' c"
  shows "stands c s' u p"
proof -
  from assms(1) obtain k where k: "place c u s k" "sane c k p" by (auto simp: stands_def)
  then have "place c u s' k" using assms(2-4) by (cases k) auto
  with k show ?thesis by (auto simp: stands_def)
qed

lemma sane_woken: "sane c k p \<Longrightarrow> sane c k (woken f p)"
  by (cases p rule: list.exhaust; cases "(f, p)" rule: woken.cases) auto

lemma single_D1:
  assumes "singleInv c s"
  shows "mutex s (OnceLock c) = None \<Longrightarrow> made s c = onceRun s c" "stands c s t (todo s t)"
  using assms by (auto simp: singleInv_def)

text \<open>A step of \<open>t\<close> that does not touch the singleton.\<close>

lemma single_elsewhere:
  assumes "singleInv c s" "made r c = made s c" "onceRun r c = onceRun s c"
    "mutex r (OnceLock c) = mutex s (OnceLock c)" "\<And>u. stands c s u (todo r u)"
  shows "singleInv c r"
proof -
  have "stands c r u (todo r u)" for u by (rule stands_same [OF assms(5,2,3,4)])
  with single_D1(1) [OF assms(1)] assms(2-4) show ?thesis by (auto simp: singleInv_def)
qed

lemma single_mine:
  assumes "singleInv c s" "stands c s t q" "todo r = (todo s)(t := q)" "made r c = made s c"
    "onceRun r c = onceRun s c" "mutex r (OnceLock c) = mutex s (OnceLock c)"
  shows "singleInv c r"
  using single_D1(2) [OF assms(1)] assms by (intro single_elsewhere [OF assms(1)]) auto

text \<open>A step inside \<open>pthread_once\<close>, into it or out of it: nobody else is there.\<close>

lemma single_inside:
  assumes "singleInv c s" "todo r = (todo s)(t := q)" "mutex s (OnceLock c) \<in> {None, Some t}"
    "mutex r (OnceLock c) \<in> {None, Some t}" "made s c \<Longrightarrow> made r c" "place c t r h" "sane c h q"
    "mutex r (OnceLock c) = None \<Longrightarrow> made r c = onceRun r c"
  shows "singleInv c r"
proof -
  have "stands c r u (todo r u)" for u
  proof (cases "u = t")
    case True
    with assms show ?thesis by (auto simp: stands_def)
  next
    case False
    then have "stands c r u (todo s u)"
      using assms(3-5) by (intro stands_other [OF single_D1(2) [OF assms(1)]]) auto
    with False assms(2) show ?thesis by simp
  qed
  with assms(8) show ?thesis by (auto simp: singleInv_def)
qed

text \<open>The instructions, by what they do to locks, flags and threads.\<close>

lemma single_lock:
  assumes "singleInv c s" "stands c s t (i # p)" "perform t i p s = Some s'" "i = Acquire l \<or> i = Release l"
  shows "singleInv c s'"
proof (cases "l = OnceLock c")
  case True
  from assms(2) obtain k where k: "place c t s k" "sane c k (i # p)" by (auto simp: stands_def)
  from assms(4) show ?thesis
  proof
    assume "i = Acquire l"
    with True assms(3) k single_D1(1) [OF assms(1)] show ?thesis
      by (intro single_inside [of c s s' t p Entered, OF assms(1)]) (auto split: if_splits)
  next
    assume "i = Release l"
    with True assms(3) k show ?thesis by (intro single_inside [of c s s' t p Known, OF assms(1)]) auto
  qed
next
  case False
  with assms have "stands c s t p" by (auto simp: stands_def)
  with False assms show ?thesis by (intro single_mine [of c s t p s']) (auto split: if_splits)
qed

lemma single_setFlag:
  assumes "singleInv c s" "stands c s t (SetFlag f # p)" "s' = setFlag f (resume t p s)"
  shows "singleInv c s'"
proof -
  from assms(2) obtain k where k: "place c t s k" "sane c k (SetFlag f # p)" by (auto simp: stands_def)
  consider "f = Made c" | "f = Done c" | "f \<notin> {Made c, Done c}" by auto
  then show ?thesis
  proof cases
    case 1
    with assms(3) k show ?thesis by (intro single_inside [of c s s' t p Created, OF assms(1)]) auto
  next
    case 2
    with assms(3) k show ?thesis by (intro single_inside [of c s s' t p Finished, OF assms(1)]) auto
  next
    case 3
    with k have "stands c s t p" by (auto simp: stands_def)
    moreover from 3 assms(3) have "made s' c = made s c" "onceRun s' c = onceRun s c" by (cases f; auto)+
    ultimately show ?thesis using assms(3) by (intro single_mine [OF assms(1)]) auto
  qed
qed

text \<open>A thread that looks at a flag learns what it says.\<close>

lemma stands_ifFlag:
  assumes "stands c s t (IfFlag f b q # p)"
  shows "stands c s t (if flagOf f s = b then q @ p else p)" (is "stands c s t ?q")
proof -
  from assms obtain k where k: "place c t s k" "sane c k (IfFlag f b q # p)" by (auto simp: stands_def)
  have "\<exists>h. place c t s h \<and> sane c h ?q"
  proof (cases "f = Made c \<and> k = Unknown \<and> made s c")
    case True
    with k have "place c t s Known" "sane c Known ?q" by (auto split: if_splits)
    then show ?thesis by blast
  next
    case notKnown: False
    show ?thesis
    proof (cases "f = Done c")
      case True
      let ?h = "if onceRun s c then Finished else Absent"
      from True k have "place c t s ?h" "sane c ?h ?q" by (auto split: if_splits)
      then show ?thesis by blast
    next
      case False
      with notKnown k have "sane c k ?q" by (auto split: if_splits)
      with k show ?thesis by blast
    qed
  qed
  then show ?thesis by (simp add: stands_def)
qed

lemma single_spawn:
  assumes "c \<noteq> LauncherOnce" "singleInv c s" "stands c s t p" "todo s u = []" "u \<noteq> t"
  shows "singleInv c (resume u (thread_code u) (resume t p s))"
proof (rule single_elsewhere [OF assms(2)])
  have "mutex s (OnceLock c) \<noteq> Some u" using stands_idle single_D1(2) [OF assms(2), of u] assms(4) by simp
  then have "stands c s u (thread_code u)"
    using assms(1) by (intro stands_fresh) (auto simp: thread_code_def split: thread.splits)
  then show "stands c s v (todo (resume u (thread_code u) (resume t p s)) v)" for v
    using assms(3,5) single_D1(2) [OF assms(2), of v] by auto
qed simp_all

lemma single_signal:
  assumes "singleInv c s" "stands c s t p"
  shows "singleInv c ((resume t p s)\<lparr>todo := (\<lambda>u. woken f (((todo s)(t := p)) u))\<rparr>)"
proof (rule single_elsewhere [OF assms(1)])
  have "stands c s u (woken f q)" if "stands c s u q" for u q
    using that sane_woken by (auto simp: stands_def)
  with assms(2) single_D1(2) [OF assms(1)]
  show "stands c s u (todo ((resume t p s)\<lparr>todo := (\<lambda>u. woken f (((todo s)(t := p)) u))\<rparr>) u)" for u
    by simp
qed simp_all

lemma single_perform:
  assumes "c \<noteq> LauncherOnce" "singleInv c s" "todo s t = i # p" "perform t i p s = Some s'"
  shows "singleInv c s'"
proof -
  have t: "stands c s t (i # p)" using single_D1(2) [OF assms(2), of t] assms(3) by simp
  then obtain k where k: "place c t s k" "sane c k (i # p)" by (auto simp: stands_def)
  have mine: "singleInv c r" if "todo r = (todo s)(t := q)" "made r c = made s c" "onceRun r c = onceRun s c"
    "mutex r (OnceLock c) = mutex s (OnceLock c)" "sane c k q" for r q
    using k that by (intro single_mine [OF assms(2), of t q]) (auto simp: stands_def)
  show ?thesis
  proof (cases i)
    case (Acquire l)
    with single_lock [OF assms(2) t assms(4)] show ?thesis by blast
  next
    case (Release l)
    with single_lock [OF assms(2) t assms(4)] show ?thesis by blast
  next
    case (SetFlag f)
    with single_setFlag [OF assms(2)] t assms(4) show ?thesis by auto
  next
    case (IfFlag f b q)
    with stands_ifFlag [of c s t f b q p] t assms(4) show ?thesis
      by (intro single_mine [OF assms(2), of t "if flagOf f s = b then q @ p else p"]) auto
  next
    case (Spawn u)
    moreover from this assms(3,4) have "todo s u = []" "u \<noteq> t" by (auto split: if_splits)
    moreover have "stands c s t p" using k Spawn by (auto simp: stands_def)
    ultimately show ?thesis using single_spawn [OF assms(1,2)] assms(4) by auto
  next
    case (SignalFlag f)
    moreover from this k have "stands c s t p" by (auto simp: stands_def)
    ultimately show ?thesis using single_signal [OF assms(2)] assms(4) by auto
  next
    case TimerLoop
    then have c: "clear k" "sane c Unknown p" using k by (auto simp: clear_def)
    from sane_round [OF assms(1) c] sane_clear [OF c] TimerLoop assms(4) show ?thesis
      by (auto intro!: mine split: if_splits)
  next
    case UnmaskEvents
    then have "sane c k p" using k sane_clear by (auto simp: clear_def)
    with UnmaskEvents assms(4) show ?thesis by (auto intro!: mine)
  qed (use assms(4) k in \<open>auto intro!: mine split: if_splits\<close>)
qed

lemma single_resume:
  assumes "singleInv c s" "stands c s t p"
  shows "singleInv c (resume t p s)" "singleInv c ((resume t p s)\<lparr>evMasked := b\<rparr>)"
proof -
  have "stands c r u q" if "stands c s u q" "made r = made s" "onceRun r = onceRun s" "mutex r = mutex s" for r u q
    by (rule stands_same [OF that(1)]) (use that in auto)
  then have "singleInv c r" if "todo r = (todo s)(t := p)" "made r = made s" "onceRun r = onceRun s" "mutex r = mutex s" for r
    using assms that by (auto simp: singleInv_def)
  then show "singleInv c (resume t p s)" "singleInv c ((resume t p s)\<lparr>evMasked := b\<rparr>)" by simp_all
qed

lemma idle_sane: "c \<noteq> LauncherOnce \<Longrightarrow> idleCode p \<Longrightarrow> sane c Unknown p"
  by (auto simp: idleCode_def sane_listen launcher_code_def drop_Cons' split: if_splits)

lemma single_arrives:
  assumes "c \<noteq> LauncherOnce" "arrives s s'" "singleInv c s" "protocolInv s" "orderInv s"
  shows "singleInv c s'"
proof -
  have S: "stands c s t (todo s t)" for t using assms(3) by (simp add: singleInv_def)
  from assms(2) show ?thesis
  proof cases
    case (call k fits)
    with S [of "App k"] stands_idle [of c s "App k"] sane_send [OF assms(1), of fits]
    have "stands c s (App k) (sendMessageGbn_code fits)" by (auto intro: stands_fresh)
    with call show ?thesis by (simp add: single_resume [OF assms(3)])
  next
    case (datagram isAck acked endOfMessage)
    with S [of LauncherThread] stands_idle [of c s LauncherThread] sane_listen [OF assms(1)]
    have "stands c s LauncherThread (listenForAcks_code isAck acked endOfMessage)" by (auto intro: stands_fresh)
    with datagram show ?thesis by (simp add: single_resume [OF assms(3)])
  next
    case (signal handler fired)
    have i: "idleCode (todo s LauncherThread)" using protocol_D(2) [OF assms(4)] signal by simp
    obtain k where k: "place c LauncherThread s k" "sane c k (todo s LauncherThread)"
      using S [of LauncherThread] by (auto simp: stands_def)
    have "mutex s (OnceLock c) \<noteq> Some LauncherThread" using orderInv_D(2) [OF assms(5)] signal by (auto simp: held_def)
    with k have "clear k" by (cases k) (auto simp: clear_def)
    with sane_handler [OF signal(4) assms(1)] idle_sane [OF assms(1) i] k
    have "stands c s LauncherThread (delivered_code handler @ todo s LauncherThread)" by (auto simp: stands_def)
    with signal show ?thesis by (simp add: single_resume [OF assms(3)])
  next
    case (spurious t f p)
    with S [of t] have "stands c s t p" by (auto simp: stands_def)
    with spurious show ?thesis by (simp add: single_resume [OF assms(3)])
  qed
qed

lemma single_wakes:
  assumes "wakes s s'" "singleInv c s"
  shows "singleInv c s'"
proof -
  from assms(1) obtain l p where w: "todo s TimerThread = TimedOut l # p"
    "s' = resume TimerThread (Acquire l # p) s" by (rule wakesE)
  have "stands c s TimerThread (TimedOut l # p)" using assms(2) w by (auto simp: singleInv_def dest: spec [of _ TimerThread])
  then have "stands c s TimerThread (Acquire l # p)" by (auto simp: stands_def)
  with w show ?thesis by (simp add: single_resume [OF assms(2)])
qed

lemma single_reach:
  assumes "c \<noteq> LauncherOnce" "threadsReach adaptive s"
  shows "singleInv c s"
  using assms(2)
proof (induction rule: rtranclp_induct)
  case base
  show ?case by (auto simp: singleInv_def initialThreads_def intro: stands_fresh)
next
  case (step s s')
  then have "protocolInv s" "orderInv s" using wellBehaved_reach wellBehaved_D by blast+
  with step show ?case
    by (auto simp: threadStep_def intro: single_arrives [OF assms(1)] single_wakes
        elim!: movesE dest: single_perform [OF assms(1)])
qed

text \<open>What \<open>singleInv\<close> and \<open>startInv\<close> say of the next instruction.\<close>

lemma single_D:
  assumes "singleInv c s"
  shows "todo s t = SetFlag (Made c) # p \<Longrightarrow> \<not> made s c"
    and "todo s t = Access d # p \<Longrightarrow> objectOf d = Some c \<Longrightarrow> made s c"
proof -
  have S: "stands c s t (todo s t)" using assms by (simp add: singleInv_def)
  show "\<not> made s c" if "todo s t = SetFlag (Made c) # p" using S that by (auto simp: stands_def)
  show "made s c" if "todo s t = Access d # p" "objectOf d = Some c" using S that by (auto simp: stands_def)
qed

lemma outside_head: "i \<in> {SetFlag (Made LauncherOnce), KillLauncher} \<Longrightarrow> \<not> outside (i # p)"
  by (auto simp: outside_def sendMessageGbn_code_def)

lemma kill_made:
  assumes "startInv s" "todo s t = KillLauncher # p"
  shows "made s LauncherOnce"
proof (cases "onceRun s LauncherOnce")
  case True
  with assms(1) show ?thesis by (simp add: startInv_def launcherUp_def)
next
  case False
  have o: "todo s (App j) = KillLauncher # p \<Longrightarrow> \<not> outside (todo s (App j))" for j
    by (simp add: outside_head)
  from assms(1) False show ?thesis
  proof (cases rule: startsE)
    case fresh
    then have "t \<noteq> App j" for j using assms(2) o by blast
    with fresh assms(2) show ?thesis by (cases t) auto
  next
    case (first k ph)
    show ?thesis
    proof (cases t)
      case (App j)
      with assms(2) o first(5) have "j = k" by blast
      with first(4) assms(2) App show ?thesis by (auto simp: startingBy_def firstCall_def)
    next
      case LauncherThread
      moreover have "\<not> starting (KillLauncher # p)" by (simp add: starting_def launcher_code_def)
      ultimately show ?thesis using phaseInv_running(1) [of ph s] first(4) assms(2)
        by (auto simp: startingBy_def launcherUp_def)
    qed (use first assms(2) in simp)
  qed
qed

lemma launcher_made_once:
  assumes "startInv s" "todo s t = SetFlag (Made LauncherOnce) # p"
  shows "\<not> made s LauncherOnce"
proof (cases "onceRun s LauncherOnce")
  case True
  with assms(1) have "running True (todo s t)" by (simp add: startInv_def)
  with assms(2) show ?thesis by simp
next
  case False
  have o: "todo s (App j) = SetFlag (Made LauncherOnce) # p \<Longrightarrow> \<not> outside (todo s (App j))" for j
    by (simp add: outside_head)
  from assms(1) False show ?thesis
  proof (cases rule: startsE)
    case (first k ph)
    show ?thesis
    proof (cases t)
      case (App j)
      with assms(2) o first(5) have "j = k" by blast
      with first(4) assms(2) App show ?thesis by (auto simp: startingBy_def firstCall_def)
    next
      case LauncherThread
      with first(4) assms(2) show ?thesis
        by (cases ph) (auto simp: startingBy_def launcher_code_def split: if_splits)
    qed (use first assms(2) in simp)
  qed simp
qed

end
