(* ===== verification/Locks.thy ===== *)
theory Locks
  imports Startup
begin

text \<open>
  No deadlock. In a state in which no thread can go on, every call is over and every event handled;
  the proof follows a waiting thread up the order of the locks. The threads do reach such a state:
  each instruction makes a measure smaller. Last, concrete runs that reach states of interest.
\<close>

subsection \<open>No deadlock\<close>

text \<open>At rest: every call is over and every event handled; the timer, if there is one, sleeps.
  Joining: the same, but for the launcher, which waits for a timer that was told to stop.\<close>

definition timerRests :: "threads \<Rightarrow> bool" where
  "timerRests s \<longleftrightarrow> todo s TimerThread \<in> {[], TimedOut atTimeoutLock # afterWait}"

definition atRest :: "threads \<Rightarrow> bool" where
  "atRest s \<longleftrightarrow> (\<forall>k. todo s (App k) = []) \<and> todo s LauncherThread = [] \<and> timerRests s"

definition joining :: "threads \<Rightarrow> bool" where
  "joining s \<longleftrightarrow> (\<forall>k. todo s (App k) = []) \<and> (\<exists>p. todo s LauncherThread = JoinTimer # p)
     \<and> todo s TimerThread = TimedOut atTimeoutLock # afterWait \<and> stopping (theTimer s)"

lemma timerAt_head:
  assumes "timerAt (i # p) alive stop" "i = Spawn u \<or> i = SignalFlag f \<or> i = Asleep f \<or> i = JoinTimer"
  shows "i = SignalFlag Alive"
  using assms(1)
proof (cases rule: timerAt.cases)
  case (computing q)
  then show ?thesis using assms(2) by (cases q rule: mere.cases) auto
qed (use assms(2) in \<open>auto simp: places notifyLauncher_code_def getLauncherId_code_def once_code_def\<close>)

text \<open>A thread is created when there is none.\<close>

lemma spawn_by:
  assumes "wellBehaved s" "todo s t = Spawn u # q"
  shows "todo s u = [] \<and> (if u = LauncherThread then \<not> made s LauncherOnce \<and> (\<exists>k. t = App k)
    else u = TimerThread \<and> t = LauncherThread)"
proof -
  note W = wellBehaved_D [OF assms(1)]
  show ?thesis
  proof (cases t)
    case (App k)
    then have u: "u = LauncherThread" using assms(2) protocol_D(5) [OF W(2), of k] by simp
    have d: "\<not> onceRun s LauncherOnce"
    proof
      assume "onceRun s LauncherOnce"
      with W(3) have "running True (todo s t)" by (simp add: startInv_def)
      with assms(2) u show False by simp
    qed
    have o: "\<not> outside (Spawn u # q)" by (auto simp: outside_def sendMessageGbn_code_def)
    from W(3) d show ?thesis
    proof (cases rule: startsE)
      case fresh
      with o assms(2) App show ?thesis by metis
    next
      case (first j ph)
      then have "j = k" using o assms(2) App by metis
      with first(4) assms(2) App have "boots ph (Spawn u # q)" "phaseInv ph s"
        by (auto simp: startingBy_def firstCall_def)
      then have "phaseInv InBattery s" by auto
      with App u show ?thesis by simp
    qed
  next
    case LauncherThread
    then have "\<not> starting (Spawn u # q)" by (simp add: starting_def launcher_code_def)
    then have "settled (Spawn u # q) = Spawn u # q" by (simp add: settled_def)
    then show ?thesis using protocol_D(3) [OF W(2)] LauncherThread assms(2) by auto
  next
    case TimerThread
    then show ?thesis using assms(2) timerPlace_D(1) [OF protocol_D(1) [OF W(2)]] timerAt_head by fastforce
  qed
qed

lemma spawn_alone: "wellBehaved s \<Longrightarrow> todo s t = Spawn u # q \<Longrightarrow> todo s u = []"
  using spawn_by by blast

lemma signal_by:
  assumes "wellBehaved s" "todo s t = SignalFlag f # q"
  shows "(t, f) \<in> {(TimerThread, Alive), (LauncherThread, Made LauncherOnce)}"
proof (cases t)
  case (App k)
  then show ?thesis using assms(2) protocol_D(5) [OF wellBehaved_D(2) [OF assms(1)], of k] by simp
next
  case LauncherThread
  have "\<not> starting (SignalFlag f # q)" by (simp add: starting_def launcher_code_def)
  then have "settled (SignalFlag f # q) = SignalFlag f # q" by (simp add: settled_def)
  then show ?thesis using protocol_D(3) [OF wellBehaved_D(2) [OF assms(1)]] LauncherThread assms(2) by auto
next
  case TimerThread
  then show ?thesis
    using assms(2) timerPlace_D(1) [OF protocol_D(1) [OF wellBehaved_D(2) [OF assms(1)]]] timerAt_head by fastforce
qed

lemma stuck_head:
  assumes "\<nexists>s'. moves s s'" "todo s t = i # p"
  shows "perform t i p s = None"
  using assms moves_perform [OF assms(2)] by (cases "perform t i p s") auto

text \<open>A thread that holds a lock is inside a routine, and waits for a lock or for the launcher.\<close>

lemma holder_waits:
  assumes "wellBehaved s" "mutex s l = Some t" "\<nexists>s'. moves s s'"
  shows "(\<exists>l' p. todo s t = Acquire l' # p) \<or> (\<exists>k f p. t = App k \<and> todo s t = Asleep f # p)"
proof -
  note W = wellBehaved_D [OF assms(1)]
  have h: "l \<in> held s t" using assms(2) by (simp add: held_def)
  with orderInv_D(1) [OF W(1), of t] have "todo s t \<noteq> []" by auto
  then obtain i p where ip: "todo s t = i # p" by (cases "todo s t") auto
  note n = stuck_head [OF assms(3) ip]
  have O: "orderly t (maskOf s t) (held s t) (i # p)" using orderInv_D(1) [OF W(1), of t] ip by simp
  have "t \<in> range App" if "i = Asleep f" for f
  proof (cases t)
    case LauncherThread
    with that ip protocol_D(4) [OF W(2)] have "f = Alive" by auto
    with O that h show ?thesis by auto
  next
    case TimerThread
    with that ip timerPlace_D(1) [OF protocol_D(1) [OF W(2)]] timerAt_head show ?thesis by fastforce
  qed auto
  with n O h ip spawn_alone [OF assms(1), of t] show ?thesis
    by (cases i) (auto split: if_splits)
qed

text \<open>Whoever waits for a lock waits for a thread that waits for a lock of a higher rank, or for the
  launcher, which waits for one.\<close>

lemma no_lock_blocks:
  assumes "wellBehaved s" "\<nexists>s'. moves s s'"
  shows "todo s t \<noteq> Acquire l # p"
proof (induction "11 - rank l" arbitrary: t l p rule: less_induct)
  case less
  note W = wellBehaved_D [OF assms(1)]
  show ?case
  proof
    assume a: "todo s t = Acquire l # p"
    have takes: "l \<noteq> sendWindowLock \<and> mayTake t (held s t) l"
      if "mutex s l = Some t'" "todo s t = Acquire l # p" for t t' l p
      using that orderInv_D(1) [OF W(1), of t] orderInv_D(3) [OF W(1), of t'] by (auto simp: mayTake_def held_def)
    have lock: "\<exists>t'. mutex s l = Some t'" if "todo s t = Acquire l # p" for t l p
      using stuck_head [OF assms(2) that] by (auto split: if_splits)
    have up: "todo s t' \<noteq> Acquire l' # p'" if "rank l < rank l'" for t' l' p'
    proof -
      have "11 - rank l' < 11 - rank l" using that rank_bound [of l'] by arith
      then show ?thesis by (rule less.hyps)
    qed
    obtain t' where t': "mutex s l = Some t'" using lock [OF a] ..
    then have h: "l \<in> held s t'" by (simp add: held_def)
    have ns: "l \<noteq> sendWindowLock" using takes [OF t' a] by simp
    from holder_waits [OF assms(1) t' assms(2)] show False
    proof (elim disjE exE conjE)
      fix l' p' assume l': "todo s t' = Acquire l' # p'"
      with lock [OF l'] takes [OF _ l'] have "mayTake t' (held s t') l'" "l' \<noteq> sendWindowLock" by auto
      with h ns have "rank l < rank l'" by (auto simp: mayTake_def less_lock_def)
      with up l' show False by blast
    next
      fix k f q assume k: "t' = App k" "todo s t' = Asleep f # q"
      note S = sleeper_D [OF assms(1) k(2) [unfolded k(1)]]
      obtain q' where q': "q = Acquire launcherInitializerLock # q'" using S(2) by (cases q) auto
      have "orderly t' (maskOf s t') (held s t') (Asleep f # q)" using orderInv_D(1) [OF W(1), of t'] k(2) by simp
      then have "mayTake t' (held s t') launcherInitializerLock" using q' by auto
      with h ns have r: "rank l < rank launcherInitializerLock" by (auto simp: mayTake_def less_lock_def)
      have "todo s LauncherThread = launcher_code"
        using S(3) stuck_head [OF assms(2), of LauncherThread] by (auto simp: announcing_def starting_def launcher_code_def)
      with up [OF r, of LauncherThread "tl launcher_code"] show False by (simp add: launcher_code_def)
    qed
  qed
qed

text \<open>A timer thread that cannot go on waits for its time-out or for a lock.\<close>

lemma timer_stuck:
  assumes "timerAt p alive stop" "p \<noteq> []"
  shows "p = TimedOut atTimeoutLock # afterWait \<or> (\<exists>l q. p = Acquire l # q)
    \<or> (\<exists>s'. perform TimerThread (hd p) (tl p) s = Some s')"
  using assms
proof (cases rule: timerAt.cases)
  case (computing q)
  then show ?thesis by (cases q rule: mere.cases) auto
qed (use assms(2) in \<open>auto simp: places notifyLauncher_code_def getLauncherId_code_def once_code_def\<close>)

lemma stuck_rests:
  assumes "wellBehaved s" "\<nexists>s'. moves s s'"
  shows "atRest s \<or> joining s"
proof -
  note W = wellBehaved_D [OF assms(1)]
  note P = protocol_D [OF W(2)]
  note L = no_lock_blocks [OF assms]
  note H = stuck_head [OF assms(2)]
  have timer: "timerRests s"
  proof (cases "todo s TimerThread")
    case (Cons i p)
    with timer_stuck [OF timerPlace_D(1) [OF P(1)], of s] H [OF Cons] L show ?thesis
      by (auto simp: timerRests_def)
  qed (simp add: timerRests_def)
  have app: "todo s (App k) = []" for k
  proof (cases "todo s (App k)")
    case (Cons i p)
    have "i \<noteq> Asleep f" for f
    proof
      assume "i = Asleep f"
      with sleeper_D(3) [OF assms(1)] Cons have "announcing (todo s LauncherThread)" by blast
      with H [of LauncherThread] L [of LauncherThread] show False
        by (auto simp: announcing_def starting_def launcher_code_def)
    qed
    with P(5) [of k] H [OF Cons] L [of "App k"] spawn_alone [OF assms(1), of "App k"] Cons show ?thesis
      by (cases i) (auto split: if_splits)
  qed simp
  show ?thesis
  proof (cases "todo s LauncherThread")
    case Nil
    with app timer show ?thesis by (simp add: atRest_def)
  next
    case (Cons i p)
    have "\<not> starting (i # p)"
      using H [OF Cons] L [of LauncherThread] Cons by (auto simp: starting_def launcher_code_def)
    moreover have na: "i \<noteq> Asleep f" for f using P(4) [of f p] Cons timer by (auto simp: timerRests_def places)
    ultimately have "settled (i # p) = i # p" by (cases i) (auto simp: settled_def)
    then obtain ph where ph: "inPhase ph (todo s TimerThread) (theTimer s)" "heeds ph (i # p)"
      using P(3) Cons by auto
    with na H [OF Cons] L [of LauncherThread] spawn_alone [OF assms(1), of LauncherThread] Cons
    have "i = JoinTimer" "todo s TimerThread \<noteq> []" "ph = Stopping"
      by (cases i; auto split: if_splits)+
    with Cons app timer ph show ?thesis by (simp add: joining_def timerRests_def)
  qed
qed

subsection \<open>Every call comes to its end\<close>

function (sequential) occurs :: "instr \<Rightarrow> instr list \<Rightarrow> nat" where
  "occurs x [] = 0"
| "occurs x (IfFlag f b q # p) = occurs x q + occurs x p"
| "occurs x (i # p) = (if i = x then 1 else 0) + occurs x p"
  by pat_completeness auto
termination by (relation "measure (\<lambda>(x, p). size_list size p)") auto

lemma occurs_append [simp]: "occurs x (q @ p) = occurs x q + occurs x p"
  by (induction x q rule: occurs.induct) auto

lemma occurs_Cons_le: "occurs x p \<le> occurs x (i # p)"
  by (cases i) auto

text \<open>The instructions until the thread has to be woken up.\<close>

function (sequential) work :: "instr list \<Rightarrow> nat" where
  "work [] = 0"
| "work (Asleep f # p) = 0"
| "work (TimedOut l # p) = 0"
| "work (TimedWait l # p) = 1"
| "work (TimerLoop # p) = 100 + work p"
| "work (IfFlag f b q # p) = 1 + work (q @ p) + work p"
| "work (i # p) = 1 + work p"
  by pat_completeness auto
termination by (relation "measure (\<lambda>p. size_list size p)") auto

lemma work_round: "work (timerRound_code adaptive @ p) < 100"
  by (cases adaptive) (simp_all add: timerRound_code_def calcTimeout_code_def getNetworkParams_code_def once_code_def)

definition totalWork :: "threads \<Rightarrow> nat" where
  "totalWork s = (\<Sum>t\<in>{t. todo s t \<noteq> []}. work (todo s t))"

lemma totalWork_less:
  assumes "finite {t. todo s t \<noteq> []}" "todo s t \<noteq> []" "\<And>u. u \<noteq> t \<Longrightarrow> todo s' u = todo s u"
    "work (todo s' t) < work (todo s t)"
  shows "totalWork s' < totalWork s"
proof -
  let ?F = "{t. todo s t \<noteq> []}"
  have "todo s' u \<noteq> [] \<Longrightarrow> u \<in> ?F" for u using assms(2,3) by (cases "u = t") auto
  then have "{u. todo s' u \<noteq> []} \<subseteq> ?F" by auto
  then have "totalWork s' = (\<Sum>u\<in>?F. work (todo s' u))"
    unfolding totalWork_def by (intro sum.mono_neutral_left assms(1)) auto
  also have "\<dots> < (\<Sum>u\<in>?F. work (todo s u))"
  proof (intro sum_strict_mono_ex1 assms(1) ballI)
    show "work (todo s' u) \<le> work (todo s u)" for u using assms(3,4) by (cases "u = t") auto
    show "\<exists>u\<in>?F. work (todo s' u) < work (todo s u)" using assms(2,4) by auto
  qed
  finally show ?thesis by (simp add: totalWork_def)
qed

text \<open>A thread that performs an instruction creates a thread, wakes one, or has less to do.\<close>

lemma perform_work:
  assumes "perform t i p s = Some s'" "\<And>u. i \<noteq> Spawn u" "\<And>f. i \<noteq> SignalFlag f"
  shows "work (todo s' t) < work (i # p)" "u \<noteq> t \<Longrightarrow> todo s' u = todo s u"
  using assms work_round [of "adaptiveBuild s" "TimerLoop # p"] by (cases i; auto split: if_splits)+

lemma occurs_woken: "(\<And>g. x \<noteq> Asleep g) \<Longrightarrow> occurs x (woken f p) = occurs x p"
  by (cases p rule: list.exhaust; cases "(f, p)" rule: woken.cases) auto

lemma perform_occurs:
  assumes "perform t i p s = Some s'" "todo s t = i # p"
    "x = JoinTimer \<or> x = Spawn TimerThread \<or> (\<exists>f. x = SignalFlag f)"
    and "u = t \<or> (\<forall>u. i \<noteq> Spawn u)"
  shows "occurs x (todo s' u) \<le> occurs x (todo s u)"
proof -
  have w: "occurs x (woken f q) = occurs x q" for f q using assms(3) by (intro occurs_woken) auto
  have r: "occurs x (timerRound_code a @ TimerLoop # p) = occurs x p" for a
    using assms(3) by (auto simp: timerRound_code_def calcTimeout_code_def codes)
  show ?thesis
    using assms w r occurs_Cons_le [of x p i]
    by (cases i) (auto split: if_splits)
qed

text \<open>The measure: the creation of the launcher, those of its timers, the signals, the work left.\<close>

definition unborn :: "threads \<Rightarrow> nat" where
  "unborn s = (if todo s LauncherThread = [] \<and> \<not> made s LauncherOnce then 1 else 0)"

abbreviation progress :: "(threads \<times> threads) set" where
  "progress \<equiv> measures [unborn, \<lambda>s. occurs (Spawn TimerThread) (todo s LauncherThread),
     \<lambda>s. occurs (SignalFlag Alive) (todo s TimerThread),
     \<lambda>s. occurs (SignalFlag (Made LauncherOnce)) (todo s LauncherThread), totalWork]"

lemma perform_made: "perform t i p s = Some s' \<Longrightarrow> made s c \<Longrightarrow> made s' c"
proof (cases i)
  case (SetFlag f)
  then show "perform t i p s = Some s' \<Longrightarrow> made s c \<Longrightarrow> made s' c" by (cases f) auto
qed (auto split: if_splits)

lemma unborn_moves:
  assumes "wellBehaved s" "todo s t = i # p" "perform t i p s = Some s'"
  shows "unborn s' \<le> unborn s"
proof (cases "made s LauncherOnce \<or> todo s LauncherThread = []")
  case True
  then show ?thesis using perform_made [OF assms(3), of LauncherOnce] by (auto simp: unborn_def)
next
  case False
  note W = wellBehaved_D [OF assms(1)]
  have st: "todo s TimerThread = []" "starting (todo s LauncherThread)"
    using start_up [OF W(3)] False by (auto simp: launcherUp_def)
  have "todo s' LauncherThread \<noteq> [] \<or> made s' LauncherOnce"
  proof (cases t)
    case (App k)
    note q = app_quiet [OF protocol_D(5) [OF W(2), of k, unfolded assms(2) [unfolded App]] assms(3) [unfolded App]]
    then have "todo s' LauncherThread = todo s LauncherThread" using False by auto
    with False show ?thesis by simp
  next
    case LauncherThread
    with starting_perform [of i p s s'] st(2) assms(2,3) show ?thesis by (auto simp: launcher_code_def)
  next
    case TimerThread
    with st assms(2) show ?thesis by simp
  qed
  then show ?thesis by (auto simp: unborn_def)
qed

lemma moves_progress:
  assumes "moves s s'" "wellBehaved s"
  shows "(s', s) \<in> progress"
proof -
  from assms(1) obtain t i p where t: "todo s t = i # p" "perform t i p s = Some s'" by (rule movesE)
  note O = perform_occurs [OF t(2,1)]
  note born = unborn_moves [OF assms(2) t]
  show ?thesis
  proof (cases "\<exists>u. i = Spawn u")
    case True
    then obtain u where u: "i = Spawn u" ..
    note b = spawn_by [OF assms(2) t(1) [unfolded u]]
    show ?thesis
    proof (cases "u = LauncherThread")
      case True
      then have "unborn s = 1" "todo s' LauncherThread = launcher_code"
        using b t u by (auto simp: unborn_def thread_code_def)
      then show ?thesis by (simp add: unborn_def launcher_code_def)
    next
      case False
      then have "occurs (Spawn TimerThread) (todo s' LauncherThread) < occurs (Spawn TimerThread) (todo s LauncherThread)"
        using b t u by (auto split: if_splits)
      with born show ?thesis by auto
    qed
  next
    case False
    then have spawn: "occurs (Spawn TimerThread) (todo s' LauncherThread) \<le> occurs (Spawn TimerThread) (todo s LauncherThread)"
      and alive: "occurs (SignalFlag Alive) (todo s' TimerThread) \<le> occurs (SignalFlag Alive) (todo s TimerThread)"
      and up: "occurs (SignalFlag (Made LauncherOnce)) (todo s' LauncherThread)
        \<le> occurs (SignalFlag (Made LauncherOnce)) (todo s LauncherThread)"
      using O by auto
    show ?thesis
    proof (cases "\<exists>f. i = SignalFlag f")
      case True
      then obtain f where f: "i = SignalFlag f" ..
      have "occurs (SignalFlag f) (todo s' t) < occurs (SignalFlag f) (todo s t)"
        using t f occurs_woken [of "SignalFlag f" f p] by auto
      with signal_by [OF assms(2) t(1) [unfolded f]] spawn alive up born show ?thesis by auto
    next
      case noSignal: False
      have "totalWork s' < totalWork s"
        using perform_work [OF t(2)] False noSignal t(1) orderInv_D(4) [OF wellBehaved_D(1) [OF assms(2)]]
        by (intro totalWork_less [of s t]) auto
      with born spawn alive up show ?thesis by auto
    qed
  qed
qed

lemma runs_until_stuck:
  "wellBehaved s \<Longrightarrow> \<exists>s'. moves\<^sup>*\<^sup>* s s' \<and> (\<nexists>s''. moves s' s'') \<and> wellBehaved s'"
proof (induction s rule: wf_induct [OF wf_measures [of "[unborn, \<lambda>s. occurs (Spawn TimerThread) (todo s LauncherThread),
     \<lambda>s. occurs (SignalFlag Alive) (todo s TimerThread),
     \<lambda>s. occurs (SignalFlag (Made LauncherOnce)) (todo s LauncherThread), totalWork]"]])
  case (1 s)
  show ?case
  proof (cases "\<exists>s'. moves s s'")
    case True
    then obtain s1 where s1: "moves s s1" ..
    with 1 moves_progress wellBehaved_moves obtain s' where
      "moves\<^sup>*\<^sup>* s1 s'" "\<nexists>s''. moves s' s''" "wellBehaved s'" by blast
    with s1 show ?thesis by (meson converse_rtranclp_into_rtranclp)
  qed (use 1 in blast)
qed

lemma joins_kept:
  assumes "moves\<^sup>*\<^sup>* s s'" "wellBehaved s"
  shows "wellBehaved s' \<and> occurs JoinTimer (todo s' LauncherThread) \<le> occurs JoinTimer (todo s LauncherThread)"
  using assms(1)
proof (induction rule: rtranclp_induct)
  case (step a b)
  from step.hyps(2) obtain t i p where t: "todo a t = i # p" "perform t i p a = Some b" by (rule movesE)
  have "occurs JoinTimer (todo b LauncherThread) \<le> occurs JoinTimer (todo a LauncherThread)"
  proof (cases "\<exists>u. i = Spawn u")
    case True
    then obtain u where u: "i = Spawn u" ..
    from step.IH spawn_by [of a t u p] t u show ?thesis
      by (auto simp: thread_code_def launcher_code_def split: if_splits)
  next
    case False
    then show ?thesis using perform_occurs [OF t(2,1), of JoinTimer LauncherThread] by simp
  qed
  with step wellBehaved_moves show ?case by force
qed (use assms(2) in simp)

lemma no_lock_held:
  assumes "orderInv s" "atRest s \<or> joining s"
  shows "mutex s l = None"
proof (rule ccontr)
  assume "mutex s l \<noteq> None"
  then obtain t where "l \<in> held s t" by (auto simp: held_def)
  with assms orderInv_D(1) [OF assms(1), of t] show False
    by (cases t) (auto simp: atRest_def joining_def timerRests_def)
qed

text \<open>The end of the wait of a timer that was told to stop: it ends, and the join with it.\<close>

lemma joining_over:
  assumes "joining s" "wellBehaved s"
  shows "\<exists>s1 s'. wakes s s1 \<and> moves\<^sup>*\<^sup>* s1 s' \<and> wellBehaved s1
    \<and> occurs JoinTimer (todo s' LauncherThread) < occurs JoinTimer (todo s LauncherThread)"
proof -
  from assms(1) obtain p where j: "todo s LauncherThread = JoinTimer # p"
    "todo s TimerThread = TimedOut atTimeoutLock # afterWait" "stopping (theTimer s)" by (auto simp: joining_def)
  have free: "mutex s l = None" for l using no_lock_held assms by (auto simp: wellBehaved_def)
  let ?s1 = "resume TimerThread (Acquire atTimeoutLock # afterWait) s"
  have w: "wakes s ?s1" using j(2) by (rule wakes.intros)
  have dead: "\<not> isAlive (snd (timerRound (theTimer s)))" "\<not> fst (timerRound (theTimer s))"
    using j(3) by (simp_all add: timerRound_def)
  let ?t = TimerThread
  let ?s2 = "(resume ?t afterWait ?s1)\<lparr>mutex := (mutex ?s1)(atTimeoutLock := Some ?t)\<rparr>"
  let ?s2' = "resume ?t (drop 1 afterWait) ?s2"
  let ?s3 = "(resume ?t (drop 2 afterWait) ?s2')\<lparr>theTimer := snd (timerRound (theTimer s))\<rparr>"
  let ?s4 = "(resume ?t (drop 3 afterWait) ?s3)\<lparr>mutex := (mutex ?s3)(atTimeoutLock := None)\<rparr>"
  let ?s5 = "resume ?t [] ?s4"
  let ?s6 = "resume LauncherThread p ?s5"
  note M = moves_perform [of _ ?t]
  have "moves ?s1 ?s2" by (rule M) (simp add: free)+
  moreover have "moves ?s2 ?s2'" by (rule M) (simp add: afterWait_def dead)+
  moreover have "moves ?s2' ?s3" by (rule M) (simp add: afterWait_def)+
  moreover have "moves ?s3 ?s4" by (rule M) (simp add: afterWait_def)+
  moreover have "moves ?s4 ?s5" by (rule M) (simp add: afterWait_def dead)+
  moreover have "moves ?s5 ?s6" by (rule moves_perform [of _ LauncherThread]) (simp add: j)+
  ultimately have "moves\<^sup>*\<^sup>* ?s1 ?s6" by (meson converse_rtranclp_into_rtranclp rtranclp.rtrancl_refl)
  moreover have "wellBehaved ?s1" using wellBehaved_wakes [OF w assms(2)] .
  moreover have "occurs JoinTimer (todo ?s6 LauncherThread) < occurs JoinTimer (todo s LauncherThread)"
    using j(1) by simp
  ultimately show ?thesis using w by blast
qed

lemma threads_reach_rest:
  assumes "wellBehaved s"
  shows "\<exists>s'. (\<lambda>a b. moves a b \<or> wakes a b)\<^sup>*\<^sup>* s s' \<and> atRest s' \<and> (\<forall>l. mutex s' l = None)"
  using assms
proof (induction "occurs JoinTimer (todo s LauncherThread)" arbitrary: s rule: less_induct)
  case less
  let ?step = "\<lambda>a b. moves a b \<or> wakes a b"
  have run: "?step\<^sup>*\<^sup>* a b" if "moves\<^sup>*\<^sup>* a b" for a b
    using that by (rule rtranclp_mono [THEN predicate2D, rotated]) auto
  from runs_until_stuck [OF less.prems] obtain s1 where s1: "moves\<^sup>*\<^sup>* s s1" "\<nexists>s2. moves s1 s2" "wellBehaved s1"
    by blast
  note k = joins_kept [OF s1(1) less.prems]
  from s1 consider "atRest s1" | "joining s1" using stuck_rests by blast
  then show ?case
  proof cases
    case 1
    with s1 run [OF s1(1)] no_lock_held show ?thesis by (auto simp: wellBehaved_def)
  next
    case 2
    from joining_over [OF this s1(3)] obtain s2 s3 where s3: "wakes s1 s2" "moves\<^sup>*\<^sup>* s2 s3" "wellBehaved s2"
      "occurs JoinTimer (todo s3 LauncherThread) < occurs JoinTimer (todo s1 LauncherThread)" by blast
    with k joins_kept [OF s3(2,3)] obtain s' where "?step\<^sup>*\<^sup>* s3 s'" "atRest s'" "\<forall>l. mutex s' l = None"
      using less.hyps [of s3] by auto
    moreover have "?step s1 s2" using s3(1) by blast
    with run [OF s1(1)] have "?step\<^sup>*\<^sup>* s s2" by (rule rtranclp.rtrancl_into_rtrancl)
    ultimately show ?thesis using run [OF s3(2)] by (meson rtranclp_trans)
  qed
qed

lemma moves_wf: "wf {(s', s). threadsReach adaptive s \<and> moves s s'}"
  by (rule wf_subset [OF wf_measures]) (auto dest: wellBehaved_reach moves_progress simp del: in_measures)

subsection \<open>Critical sections\<close>

text \<open>A run with the instructions that were performed, in their order.\<close>

inductive run :: "threads \<Rightarrow> (thread \<times> instr) list \<Rightarrow> threads \<Rightarrow> bool" for s where
  start: "run s [] s"
| perform: "run s tr r \<Longrightarrow> todo r t = i # p \<Longrightarrow> perform t i p r = Some r' \<Longrightarrow> run s (tr @ [(t, i)]) r'"
| outer: "run s tr r \<Longrightarrow> wakes r r' \<or> arrives r r' \<Longrightarrow> run s tr r'"

text \<open>\<open>serial l h tr\<close>: \<open>h\<close> has entered the section of \<open>l\<close>, if anybody has; a thread enters when nobody is
  in, only the thread inside leaves, and only that thread accesses what the lock guards.\<close>

fun serial :: "lock \<Rightarrow> thread option \<Rightarrow> (thread \<times> instr) list \<Rightarrow> bool" where
  "serial l h [] = True"
| "serial l h ((t, Acquire l') # tr) = (if l' = l then h = None \<and> serial l (Some t) tr else serial l h tr)"
| "serial l h ((t, Release l') # tr) = (if l' = l then h = Some t \<and> serial l None tr else serial l h tr)"
| "serial l h ((t, Access d) # tr) = ((l \<in> guardsOf d \<longrightarrow> h = Some t) \<and> serial l h tr)"
| "serial l h ((t, i) # tr) = serial l h tr"

fun inside :: "lock \<Rightarrow> thread option \<Rightarrow> (thread \<times> instr) list \<Rightarrow> thread option" where
  "inside l h [] = h"
| "inside l h ((t, Acquire l') # tr) = inside l (if l' = l then Some t else h) tr"
| "inside l h ((t, Release l') # tr) = inside l (if l' = l then None else h) tr"
| "inside l h ((t, i) # tr) = inside l h tr"

lemma serial_append: "serial l h (tr @ tr') = (serial l h tr \<and> serial l (inside l h tr) tr')"
  by (induction l h tr rule: serial.induct) auto

lemma inside_append: "inside l h (tr @ tr') = inside l (inside l h tr) tr'"
  by (induction l h tr rule: inside.induct) auto

lemma awaited_lock:
  assumes "wellBehaved s" "todo s t = Await f l # p \<or> todo s t = TimedWait l # p"
  shows "l \<in> {isAliveLock, launcherInitializerLock, atTimeoutLock}"
proof (cases t)
  case (App k)
  then show ?thesis using assms(2) protocol_D(5) [OF wellBehaved_D(2) [OF assms(1)], of k] by auto
next
  case LauncherThread
  have "\<not> starting (i # q)" "settled (i # q) = i # q" if "i = Await f l \<or> i = TimedWait l" for i q
    using that by (auto simp: settled_def starting_def launcher_code_def)
  then show ?thesis using protocol_D(3) [OF wellBehaved_D(2) [OF assms(1)]] LauncherThread assms(2) by auto
next
  case TimerThread
  have "timerAt (todo s t) (isAlive (theTimer s)) (stopping (theTimer s))"
    using timerPlace_D(1) [OF protocol_D(1) [OF wellBehaved_D(2) [OF assms(1)]]] TimerThread by simp
  then show ?thesis
  proof (cases rule: timerAt.cases)
    case (computing q)
    then show ?thesis using assms(2) by (cases q rule: mere.cases) auto
  qed (use assms(2) in \<open>auto simp: places notifyLauncher_code_def getLauncherId_code_def once_code_def\<close>)
qed

lemma run_serial:
  assumes "run s tr r" "wellBehaved s" "mutex s l = None"
    "l \<notin> {isAliveLock, launcherInitializerLock, atTimeoutLock}"
  shows "wellBehaved r \<and> serial l None tr \<and> inside l None tr = mutex r l"
  using assms(1)
proof (induction rule: run.induct)
  case start
  then show ?case using assms(2,3) by simp
next
  case (perform tr r t i p r')
  then have W: "wellBehaved r" and IH: "serial l None tr" "inside l None tr = mutex r l" by auto
  have "wellBehaved r'" using wellBehaved_moves [OF moves_perform W] perform by blast
  moreover have "serial l (mutex r l) [(t, i)] \<and> inside l (mutex r l) [(t, i)] = mutex r' l"
  proof (cases i)
    case (Release l')
    then have "mutex r l' = Some t"
      using orderInv_D(1) [OF wellBehaved_D(1) [OF W], of t] perform.hyps(2) by (simp add: held_def)
    with Release perform.hyps show ?thesis by auto
  next
    case (Access d)
    with access_guarded [OF wellBehaved_D(1) [OF W]] perform.hyps show ?thesis by auto
  next
    case (Await f l')
    with awaited_lock [OF W, of t f l'] perform.hyps assms(4) show ?thesis by (auto split: if_splits)
  next
    case (TimedWait l')
    with awaited_lock [OF W, of t _ l'] perform.hyps assms(4) show ?thesis by auto
  qed (use perform.hyps in \<open>auto split: if_splits\<close>)
  ultimately show ?case using IH by (simp add: serial_append inside_append)
next
  case (outer tr r r')
  then have "mutex r' l = mutex r l" by (auto elim!: wakesE arrives.cases)
  with outer wellBehaved_wakes wellBehaved_arrives show ?case by metis
qed

subsection \<open>Running concrete threads\<close>

text \<open>Thread \<open>t\<close> goes on for at most \<open>n\<close> instructions, until it has to wait.\<close>

primrec goes :: "nat \<Rightarrow> thread \<Rightarrow> threads \<Rightarrow> threads" where
  "goes 0 t s = s"
| "goes (Suc n) t s = (case advance t s of None \<Rightarrow> s | Some s' \<Rightarrow> goes n t s')"

definition calling :: "nat \<Rightarrow> threads \<Rightarrow> threads" where
  "calling k s = resume (App k) (sendMessageGbn_code True) s"

definition signalled :: "instr list \<Rightarrow> threads \<Rightarrow> threads" where
  "signalled handler s = (resume LauncherThread (delivered_code handler @ todo s LauncherThread) s)\<lparr>evMasked := True\<rparr>"

lemma step_reach: "threadsReach adaptive s \<Longrightarrow> threadStep s s' \<Longrightarrow> threadsReach adaptive s'"
  by (rule rtranclp.rtrancl_into_rtrancl)

lemma goes_reach: "threadsReach adaptive s \<Longrightarrow> threadsReach adaptive (goes n t s)"
proof (induction n arbitrary: s)
  case (Suc n)
  show ?case
  proof (cases "advance t s")
    case (Some s')
    then have "threadStep s s'" by (auto simp: threadStep_def moves_def)
    with Suc Some show ?thesis by (simp add: step_reach)
  qed (use Suc in simp)
qed simp

lemma calling_reach: "threadsReach adaptive s \<Longrightarrow> todo s (App k) = [] \<Longrightarrow> threadsReach adaptive (calling k s)"
  unfolding calling_def by (erule step_reach) (auto simp: threadStep_def intro: arrives.call)

lemma signalled_reach:
  assumes "threadsReach adaptive s" "notified s" "\<not> evMasked s"
    "handler \<in> {newPackets_code fired, timedOut_code fired}"
  shows "threadsReach adaptive (signalled handler s)"
proof -
  from assms(2-4) have "threadStep s (signalled handler s)"
    unfolding threadStep_def signalled_def by (blast intro: arrives.signal)
  with assms(1) show ?thesis by (rule step_reach)
qed

text \<open>A caller that has created the launcher and sleeps until it is available; the end of that call;
  a second call, which holds \<open>launchBatteryLock\<close> when an event arrives whose handler must wait for it;
  a launcher that has created its timer and sleeps until it is alive.\<close>

definition launcherStarting :: threads where
  "launcherStarting = goes 50 (App 0) (calling 0 (initialThreads True))"

definition firstCalled :: threads where
  "firstCalled = goes 50 (App 0) (goes 4 LauncherThread launcherStarting)"

definition contended :: threads where
  "contended = signalled (newPackets_code [True]) (goes 3 (App 1) (calling 1 firstCalled))"

definition timerStarting :: threads where
  "timerStarting = goes 50 LauncherThread (signalled (newPackets_code [True]) firstCalled)"

lemma launcherStarting_reached: "threadsReach True launcherStarting"
  unfolding launcherStarting_def by (intro goes_reach calling_reach) (simp_all add: initialThreads_def)

lemma firstCalled_reached: "threadsReach True firstCalled"
  unfolding firstCalled_def by (intro goes_reach launcherStarting_reached)

lemma launcherStarting_state:
  "todo launcherStarting (App 0) = Asleep (Made LauncherOnce) # tl (todo launcherStarting (App 0))
    \<and> todo launcherStarting LauncherThread = launcher_code"
  by code_simp

lemma firstCalled_state:
  "todo firstCalled (App 1) = [] \<and> todo firstCalled LauncherThread = [] \<and> notified firstCalled \<and> \<not> evMasked firstCalled"
  by code_simp

lemma contended_reached: "threadsReach True contended"
proof -
  have "notified (goes 3 (App 1) (calling 1 firstCalled)) \<and> \<not> evMasked (goes 3 (App 1) (calling 1 firstCalled))"
    by code_simp
  then show ?thesis
    unfolding contended_def using firstCalled_state
    by (intro signalled_reach goes_reach calling_reach firstCalled_reached) auto
qed

lemma contended_state:
  "mutex contended launchBatteryLock = Some (App 1)
    \<and> todo contended (App 1) = Access LaunchPads # tl (todo contended (App 1))
    \<and> todo contended LauncherThread = Acquire launchBatteryLock # tl (todo contended LauncherThread)"
  by code_simp

lemma timerStarting_reached: "threadsReach True timerStarting"
  unfolding timerStarting_def using firstCalled_state
  by (intro signalled_reach goes_reach firstCalled_reached) auto

lemma timerStarting_state:
  "todo timerStarting TimerThread = timer_code
    \<and> todo timerStarting LauncherThread = Asleep Alive # tl (todo timerStarting LauncherThread)"
  by code_simp


text \<open>The instructions of \<open>goes\<close>.\<close>

primrec gone :: "nat \<Rightarrow> thread \<Rightarrow> threads \<Rightarrow> (thread \<times> instr) list" where
  "gone 0 t s = []"
| "gone (Suc n) t s = (case advance t s of None \<Rightarrow> [] | Some s' \<Rightarrow> (t, hd (todo s t)) # gone n t s')"

lemma run_goes: "run s tr r \<Longrightarrow> run s (tr @ gone n t r) (goes n t r)"
proof (induction n arbitrary: tr r)
  case (Suc n)
  show ?case
  proof (cases "advance t r")
    case (Some r')
    then obtain i p where "todo r t = i # p" "perform t i p r = Some r'"
      by (cases "todo r t") (simp_all add: advance_def)
    with Suc.IH [OF run.perform [OF Suc.prems this]] Some show ?thesis by simp
  qed (use Suc in simp)
qed simp

lemma calling_run:
  assumes "todo s (App k) = []"
  shows "run s [] (calling k s)"
  unfolding calling_def by (rule run.outer [OF run.start]) (use assms in \<open>auto intro: arrives.call\<close>)

lemma firstCalled_run:
  "\<exists>tr. run (initialThreads True) tr firstCalled \<and> (App 0, Access LaunchPads) \<in> set tr
    \<and> (App 0, Access Table) \<in> set tr"
proof -
  let ?s = "calling 0 (initialThreads True)"
  have "run (initialThreads True) [] ?s" by (rule calling_run) (simp add: initialThreads_def)
  from run_goes [OF run_goes [OF run_goes [OF this, of 50 "App 0"], of 4 LauncherThread], of 50 "App 0"]
  have "run (initialThreads True) ((([] @ gone 50 (App 0) ?s) @ gone 4 LauncherThread launcherStarting)
      @ gone 50 (App 0) (goes 4 LauncherThread launcherStarting)) firstCalled"
    unfolding firstCalled_def launcherStarting_def .
  moreover have "(App 0, Access LaunchPads) \<in> set (gone 50 (App 0) (goes 4 LauncherThread launcherStarting))
      \<and> (App 0, Access Table) \<in> set (gone 50 (App 0) (goes 4 LauncherThread launcherStarting))"
    by code_simp
  ultimately show ?thesis by fastforce
qed

text \<open>A call about to enter its message into the send table.\<close>

definition registering :: threads where
  "registering = goes 6 (App 1) (calling 1 firstCalled)"

lemma registering_reached: "threadsReach True registering"
  unfolding registering_def using firstCalled_state
  by (intro goes_reach calling_reach firstCalled_reached) auto

lemma registering_state: "todo registering (App 1) = Access Table # tl (todo registering (App 1))"
  by code_simp

text \<open>The first call about to create the battery.\<close>

definition creating :: threads where
  "creating = goes 5 (App 0) (calling 0 (initialThreads True))"

lemma creating_reached: "threadsReach True creating"
  unfolding creating_def by (intro goes_reach calling_reach) (simp_all add: initialThreads_def)

lemma creating_state: "todo creating (App 0) = SetFlag (Made BatteryOnce) # tl (todo creating (App 0))"
  by code_simp

end
