(* ===== verification/Spec2Isabelle.thy ===== *)
theory Spec2Isabelle
  imports System EndToEnd Stall Strays LauncherLife Logger Singletons Locks
begin

text \<open>
  A file transfer over UDP: the C program under src/src/logic. A client puts and gets files and
  lists a directory of a server; messages of this application protocol travel over a Go-Back-N
  layer that the program implements itself on UDP sockets.

  \<^bold>\<open>The program's parts and their theories.\<close> Paths are those under src/src/logic.

  \<^item> \<open>Prelude\<close>: C integers, their bytes in memory, bounded reads of buffers, ring arithmetic, and
    the locale \<open>codec\<close>, the contract of a wire format.
  \<^item> \<open>Heap\<close>, \<open>LinkedList\<close>, \<open>HashTable\<close>: dataStructures/ll.c and hTable.c on a heap of objects.
    \<open>ll\<close> and \<open>rep\<close> relate a heap to a list and to a finite map; the operations are proved to be
    the operations on these.
  \<^item> \<open>SortingTable\<close>: gbn/sortingTable.c. The locale \<open>message_table\<close> is what the launcher relies
    on (register, find, remove); its interpretation is the hash table keyed by message identifiers.
  \<^item> \<open>Packet\<close>: gbn/packet.c. Header, wire format (an interpretation of \<open>codec\<close>), message
    identifiers, the division of a message; \<open>chunks\<close> is its reference.
  \<^item> \<open>LaunchBattery\<close>: gbn/launchBattery.c and window.c. The ring of pads with the send window;
    \<open>queue\<close> is the list of waiting packets that the ring stands for.
  \<^item> \<open>NetworkSampler\<close>, \<open>Timer\<close>: gbn/networkSampler.c and timer.c, the round trip estimate and
    the timer thread, a round at a time.
  \<^item> \<open>Launcher\<close>, \<open>LauncherLife\<close>: gbn/launcher.c, jammer.c and rtSignals/rtSignalChecker.c.
    \<open>Launcher\<close> has the state \<open>launcherState\<close>, the handler of the events and the treatment of an
    acknowledgement; \<open>LauncherLife\<close> the signal dispositions, the loop and the end of the thread.
  \<^item> \<open>Catcher\<close>, \<open>Strays\<close>: gbn/catcher.c, the receiver as a function of what arrives at its socket, and
    among datagrams of other messages.
  \<^item> \<open>Gbn\<close>: gbn/gbn.c, the two entry points of the layer.
  \<^item> \<open>System\<close>: the sender's launcher and the receiver over a network, a transition system.
  \<^item> \<open>Threads\<close>: the threads of one process, the callers of \<open>sendMessageGbn\<close>, the launcher and the
    timer, from the first call on, interleaved between any two instructions that they share, with
    their mutexes, \<open>pthread_once\<close>, condition variables, the signal mask, and the creation and the
    join of threads. \<open>LockOrder\<close> has the order of the locks, \<open>Handshake\<close> the protocol of launcher and
    timer, \<open>Startup\<close> the first call, which creates the battery and the launcher, \<open>Singletons\<close> the
    getters; \<open>Locks\<close> concludes that nothing blocks, that runs end and that sections are serial.
  \<^item> \<open>Message\<close>, \<open>DmProtocol\<close>: dm_protocol/message.c and dm_protocol.c. The message format
    (the other interpretation of \<open>codec\<close>), and messages and files over the functions of \<open>Gbn\<close>.
  \<^item> \<open>Network\<close>, \<open>EndToEnd\<close>: the messages of \<open>DmProtocol\<close> over the transition system of \<open>System\<close>, and
    the exchanges of client and server with them. \<open>Session\<close> has the launcher's own moves and the messages
    of one launcher one after another, \<open>Stall\<close> what the loss of acknowledgements at the end of the
    ring does.
  \<^item> \<open>Commands\<close>, \<open>Client\<close>: client/controller.c and main.c. The table of the command names,
    on the hash table, and the client.
  \<^item> \<open>Server\<close>: server/main.c, its father process, its handlers and their semaphores.
  \<^item> \<open>Logger\<close>: logger/logger.c. Each line is expanded twice as a format; the lines of \<open>Client\<close> and
    \<open>Server\<close> that quote a name or a payload go through it.

  \<^bold>\<open>How state and effects are modelled.\<close> Static variables and structures are records; each
  operation takes the state and returns the new one. An access outside a buffer, a null
  dereference, a use of freed memory or a division by zero has no result: \<open>None\<close> up to \<open>Gbn\<close>,
  \<open>Fails\<close> from \<open>DmProtocol\<close> on. In the launcher a handler, or the treatment
  of a datagram, is one step; \<open>Threads\<close> takes it apart, without the values, and \<open>Locks\<close> shows that the
  threads do not block one another and access what they share one at a time. What the system
  answers (clock, random numbers, \<open>sendto\<close>, \<open>fork\<close>, \<open>bind\<close>, \<open>open\<close>) is an argument; so is what the
  program reads from freed directory entries (\<open>stale\<close>) and from a variable whose block has ended
  (\<open>free_port\<close>), and the theorems on \<open>put\<close>, \<open>get\<close> and \<open>list\<close> say what they need of it.
  A process of the application is a function on its \<open>world\<close>; it receives through
  \<open>recvMessageGbn\<close> on the datagrams of its socket and sends through \<open>sendMessageGbn\<close>, and what its
  launcher does between two sends is the function \<open>launcherTurn\<close>, assumed in \<open>benign\<close> to keep the
  launcher's invariant, to register nothing, and to have released the old messages when the counter of
  identifiers wraps; \<open>Session\<close> proves the first two of everything the launcher does by itself.

  \<^bold>\<open>What the theorems show.\<close> C1 to C6: the Go-Back-N layer delivers a message, in order and once
  per reception, over a network that loses, repeats and reorders anything; it does not stall and
  nothing in it goes wrong, but for the acknowledgements at the end of the ring, which must not all
  be lost. C7 to C14: its threads do not deadlock, from the first call on,
  which creates every singleton once, and take turns on all shared data but the counter of message
  identifiers, the references of the singletons and the flags \<open>isAlive\<close> and \<open>isLauncherAvailable\<close>.
  C15 to C17: messages, lists of messages and a put through all the layers. C18 to C25: the application
  on top, processes that receive exactly what the others hand over. The rest are the components: the formats, the
  receiver, the sender's launcher, the ring, the tables and the estimates. Theorems
  that say what goes wrong, and when, stand beside those that say what holds; the hypotheses of
  the latter exclude the former.

  \<^bold>\<open>Loops.\<close> Loops over pointers and over ports are partial functions, with results that tell when
  they end. Loops on received messages end because each round takes at least one datagram of
  the finite input; a process that is still waiting then is \<open>Waits\<close>. The \<open>Threads\<close> run for
  ever only if something keeps arriving (C8). No fuel is used.

  \<^bold>\<open>Not modelled.\<close> Memory allocation succeeds; the functions that only free are left out, but for
  those of the list and the table. That the steps of \<open>System\<close> may be taken as atomic rests on C11
  but is not itself a theorem. In \<open>Threads\<close> \<open>sigaction\<close> and \<open>pthread_create\<close> succeed, and the cleanup after the
  shutdown event, which no code of the program sends, is left to \<open>LauncherLife\<close>; elsewhere the
  singletons are fields of the states. In \<open>Network\<close> and \<open>Session\<close> the transfers to one
  reader do not overlap: a datagram that comes after its message is done is not heard by the next
  transfer (\<open>drained\<close> in \<open>Session\<close>); what such a datagram does to a receiver is in \<open>Strays\<close> and, for a first packet, C29.
  Integers that cannot leave their range in the code are unbounded; others wrap in the model.
  Floating point numbers are real numbers. \<open>read\<close> gives all that is left of a regular file up to the size asked
  for, and \<open>write\<close> writes all. Lines of the log that quote nothing from outside cannot go wrong and are
  left out. The test programs under src/src/test are not modelled.
\<close>

section \<open>One message over a lossy network\<close>

text \<open>C1: In every reachable state of a transfer the receiver holds a prefix of the message; when
  its \<open>listenForData\<close> is done it holds the whole message; and when the sender has every packet
  acknowledged the receiver is done. The network may lose, repeat and reorder anything, and any
  call of the sender may fail.\<close>

theorem delivery_safety:
  assumes "started msg g s0" and "reachable ok sa s0 s"
  shows "prefix (msgBuf (receiver s)) msg
    \<and> (\<not> morePackets (receiver s) \<longrightarrow> msgBuf (receiver s) = msg)
    \<and> (waiting (sender s) = [] \<longrightarrow> \<not> morePackets (receiver s))"
proof -
  from started_reachable [OF assms] obtain B R where
    i: "sysInv sa (wbase (launch g)) (lastMsgId g) (stampedPackets (wbase (launch g)) (lastMsgId g) msg) B R s"
    by blast
  note F = sysInv_received [OF i]
  have "prefix (msgBuf (receiver s)) msg"
    using concat_take_prefix [of R "stampedPackets (wbase (launch g)) (lastMsgId g) msg"] F(1)
    by (simp add: stamped_data)
  then show ?thesis using F by (auto simp: stamped_data)
qed

theorem delivery_safety_witness:
  "\<exists>s0 s. started [1, 2, 3] exampleSender s0 \<and> reachable True zeroAddr s0 s \<and> waiting (sender s) = []
     \<and> prefix (msgBuf (receiver s)) [1, 2, 3] \<and> \<not> morePackets (receiver s)"
proof -
  from example_reachable [of zeroAddr] obtain s0 s where "started [1, 2, 3] exampleSender s0"
    "reachable True zeroAddr s0 s" "waiting (sender s) = []" by blast
  with delivery_safety [OF this(1,2)] show ?thesis by blast
qed

text \<open>C2: From every reachable state the transfer can still be completed, as long as no local
  call fails: there is a continuation in which the receiver gets the whole message and every
  packet is acknowledged. For a message that crosses the end of the ring it may need an
  acknowledgement that is late; what happens when that one is lost is C4.\<close>

theorem delivery_progress:
  assumes "started msg g s0" and "reachable True sa s0 s"
  shows "\<exists>s'. reachable True sa s s' \<and> waiting (sender s') = [] \<and> \<not> morePackets (receiver s')
    \<and> msgBuf (receiver s') = msg"
  by (rule reachable_finishes [OF assms])

theorem delivery_progress_witness:
  "\<exists>s0 s'. started [1, 2, 3] exampleSender s0 \<and> reachable True zeroAddr s0 s' \<and> waiting (sender s') = []
     \<and> \<not> morePackets (receiver s') \<and> msgBuf (receiver s') = [1, 2, 3]"
proof -
  from example_started obtain s0 where s0: "started [1, 2, 3] exampleSender s0" by blast
  have "reachable True zeroAddr s0 s0" by (simp add: reachable_def)
  then show ?thesis using delivery_progress [OF s0] s0 by blast
qed

text \<open>C3: The sender never stalls while packets wait, if no local call fails: either the base
  packet was not launched yet and the event that launches it is pending, or it was launched and
  the timer is running.\<close>

theorem no_stall:
  assumes "started msg g s0" and "reachable True sa s0 s" and "waiting (sender s) \<noteq> []"
  shows "status (padOf (sender s) 0) = READY
      \<and> newSig (sender s) \<in> set (pending (sender s)) \<and> \<not> eventsBlocked (sender s)
    \<or> status (padOf (sender s) 0) = SENT \<and> isAlive (ltimer (sender s))"
proof -
  from reachable_live [OF assms(2) started_sysInv [OF assms(1)]] obtain B R where
    i: "sysInv sa (wbase (launch g)) (lastMsgId g) (stampedPackets (wbase (launch g)) (lastMsgId g) msg) B R s"
    and l: "liveInv (stampedPackets (wbase (launch g)) (lastMsgId g) msg) B (sender s)" by blast
  have s: "senderInv (wbase (launch g)) (stampedPackets (wbase (launch g)) (lastMsgId g) msg) B (sender s)"
    using i by (simp add: sysInv_def)
  have B: "B < length (stampedPackets (wbase (launch g)) (lastMsgId g) msg)"
    using sysInv_received(7) [OF i] assms(3) s by (auto simp: senderInv_def)
  from base_loaded(1) [OF s B] l B s show ?thesis by (auto simp: liveInv_def senderInv_def)
qed

theorem no_stall_witness:
  "\<exists>s0. started [1, 2, 3] exampleSender s0 \<and> waiting (sender s0) \<noteq> []
     \<and> (status (padOf (sender s0) 0) = READY
        \<and> newSig (sender s0) \<in> set (pending (sender s0)) \<and> \<not> eventsBlocked (sender s0)
      \<or> status (padOf (sender s0) 0) = SENT \<and> isAlive (ltimer (sender s0)))"
proof -
  from example_started obtain s0 where s0: "started [1, 2, 3] exampleSender s0" by blast
  have r: "reachable True zeroAddr s0 s0" by (simp add: reachable_def)
  have "numOfPackets [1, 2, 3] = 1" by (simp add: numOfPackets_eq)
  moreover from sysInv_received(7) [OF started_sysInv(1) [OF s0, of zeroAddr]]
  have "(waiting (sender s0) = []) = (0 = numOfPackets [1, 2, 3])" by simp
  ultimately have w: "waiting (sender s0) \<noteq> []" by simp
  from no_stall [OF s0 r w] s0 w show ?thesis by blast
qed

text \<open>C4: Acknowledgements lost at the end of the ring. The base of the sender has not passed the last
  index, the receiver has, and the acknowledgements it sent so far are lost. Then nothing is
  acknowledged any more, whatever else arrives: the sender keeps its waiting packets and repeats
  them for ever.\<close>

theorem lost_acks_at_ring_end:
  assumes "started msg g s0" and "reachable ok sa s0 s"
    and "wbase (launch g) \<le> wbase (sender s)"
    and "0 < expectedSeqNum (receiver s)" and "expectedSeqNum (receiver s) < wbase (launch g)"
    and "reachable ok sa (lostAcks s) s'"
  shows "waiting (sender s') = waiting (sender s) \<and> waiting (sender s') \<noteq> []"
proof -
  from lost_stalled [OF assms(1-5)] obtain B E where
    l: "stalled sa (wbase (launch g)) (lastMsgId g) (stampedPackets (wbase (launch g)) (lastMsgId g) msg) B E (lostAcks s)"
    by blast
  from stalled_waiting [OF l] stalled_waiting [OF stalled_reachable [OF assms(6) l]]
  show ?thesis by (simp add: lostAcks_def)
qed

theorem lost_acks_at_ring_end_witness:
  "\<exists>msg s0 s. started msg \<lparr>launch = exampleWrap, lastMsgId = 0\<rparr> s0 \<and> reachable True zeroAddr s0 s
     \<and> (\<forall>s'. reachable True zeroAddr (lostAcks s) s' \<longrightarrow> waiting (sender s') \<noteq> [])"
proof -
  from example_stall [of zeroAddr] obtain msg s0 s where
    s: "started msg \<lparr>launch = exampleWrap, lastMsgId = 0\<rparr> s0" "reachable True zeroAddr s0 s"
    "wbase (sender s) = 1023" "expectedSeqNum (receiver s) = 1" by blast
  then show ?thesis using lost_acks_at_ring_end [OF s(1,2)] exampleWrap_inv(2) by fastforce
qed

text \<open>C5: No step of the code goes wrong in a reachable state: the handler of any pending event,
  the receiver on any datagram of the launcher and the listener on any acknowledgement of the
  receiver all return; no access outside a buffer, no missing table entry, no division by zero.\<close>

theorem no_undefined_behaviour:
  assumes "started msg g s0" and "reachable ok sa s0 s"
  shows "(\<forall>env. \<forall>sig\<in>set (pending (sender s)).
        launcherSigHandler env sig ((sender s)\<lparr>pending := remove1 sig (pending (sender s))\<rparr>) \<noteq> None)
    \<and> (\<forall>(sdn, dst, bytes)\<in>set (wire (sender s)). morePackets (receiver s) \<longrightarrow>
        listenForDataStep sa bytes (receiver s) \<noteq> None)
    \<and> (\<forall>now. \<forall>(to, bytes)\<in>set (acks (receiver s)). listenForAcksStep now bytes (sender s) \<noteq> None)"
proof -
  let ?ps = "stampedPackets (wbase (launch g)) (lastMsgId g) msg"
  from started_reachable [OF assms] obtain B R where
    i: "sysInv sa (wbase (launch g)) (lastMsgId g) ?ps B R s" by blast
  have "launcher_inv (sender s)" using i by (simp add: sysInv_def senderInv_def)
  then have "launcher_inv ((sender s)\<lparr>pending := q\<rparr>)" for q by simp
  from launcherSigHandler_inv [OF this] have
    h: "launcherSigHandler env sig ((sender s)\<lparr>pending := q\<rparr>) \<noteq> None" for env sig q by blast
  have r: "listenForDataStep sa bytes (receiver s) \<noteq> None"
    if "(sdn, dst, bytes) \<in> set (wire (sender s))" "morePackets (receiver s)" for sdn dst bytes
    using sysInv_packet [OF i that] by blast
  have a: "listenForAcksStep now bytes (sender s) \<noteq> None" if a: "(to, bytes) \<in> set (acks (receiver s))" for now to bytes
  proof -
    from i a obtain j r where "j < length ?ps" "0 < r" "r \<le> R"
      "bytes = wire_bytes (ackFor (?ps ! j) ((wbase (launch g) + int r) mod QUEUE_LEN))"
      by (fastforce simp: sysInv_def ack_of_def)
    from sysInv_ack [OF i this] show ?thesis by blast
  qed
  show ?thesis using h r a by auto
qed

theorem no_undefined_behaviour_witness:
  "\<exists>s0. started [1, 2, 3] exampleSender s0
     \<and> (\<forall>env. \<forall>sig\<in>set (pending (sender s0)).
          launcherSigHandler env sig ((sender s0)\<lparr>pending := remove1 sig (pending (sender s0))\<rparr>) \<noteq> None)"
proof -
  from example_started obtain s0 where s0: "started [1, 2, 3] exampleSender s0" by blast
  have "reachable False zeroAddr s0 s0" by (simp add: reachable_def)
  from no_undefined_behaviour [OF s0 this] s0 show ?thesis by blast
qed

text \<open>C6: The sender and the receiver stay within one window of each other: with B packets
  acknowledged and R received in order, B is at most R and R at most B plus the window size; the
  waiting packets are those of the message from B on, the received bytes those before R.\<close>

theorem window_discipline:
  assumes "started msg g s0" and "reachable ok sa s0 s"
  shows "\<exists>B R. B \<le> R \<and> int R \<le> int B + winsize (bs (sender s)) \<and> R \<le> numOfPackets msg
    \<and> waiting (sender s) = drop B (map core (stampedPackets (wbase (launch g)) (lastMsgId g) msg))
    \<and> msgBuf (receiver s) = concat (take R (chunks max_data msg))"
proof -
  let ?ps = "stampedPackets (wbase (launch g)) (lastMsgId g) msg"
  from started_reachable [OF assms] obtain B R where
    i: "sysInv sa (wbase (launch g)) (lastMsgId g) ?ps B R s" by blast
  have "map data ?ps = chunks max_data msg" by (rule stamped_chunks)
  then have "map data (take R ?ps) = take R (chunks max_data msg)" by (metis take_map)
  with sysInv_received [OF i] show ?thesis by auto
qed

theorem window_discipline_witness:
  "\<exists>s0 B R. started [1, 2, 3] exampleSender s0 \<and> B \<le> R \<and> R \<le> 1
     \<and> msgBuf (receiver s0) = concat (take R (chunks max_data [1, 2, 3]))"
proof -
  from example_started obtain s0 where s0: "started [1, 2, 3] exampleSender s0" by blast
  have "reachable False zeroAddr s0 s0" by (simp add: reachable_def)
  from window_discipline [OF s0 this] s0 show ?thesis by (auto simp: numOfPackets_eq)
qed

section \<open>The threads of a process\<close>

text \<open>C7: The threads of a process never block one another for good, whatever calls, datagrams
  and signals arrive and however they interleave: in every reachable state some thread can go on,
  or all routines are over, or the launcher awaits the end of a timer that was told to stop and
  whose wait is still running. This in spite of the opposite orders in which the handlers and
  \<open>listenForAcks\<close> take \<open>launchBatteryLock\<close> and \<open>sendWindowLock\<close>, and of the first call, which sleeps
  inside the battery's lock and two \<open>pthread_once\<close> until the launcher is up.\<close>

theorem no_deadlock:
  assumes "threadsReach adaptive s"
  shows "(\<exists>s'. moves s s') \<or> atRest s \<or> joining s"
  using wellBehaved_reach [OF assms] stuck_rests by blast

theorem no_deadlock_witness:
  "mutex contended launchBatteryLock = Some (App 1)
    \<and> todo contended LauncherThread = Acquire launchBatteryLock # tl (todo contended LauncherThread)
    \<and> (\<exists>s'. moves contended s')"
proof -
  have "\<not> atRest contended" "\<not> joining contended" using contended_state by (auto simp: atRest_def joining_def)
  with no_deadlock [OF contended_reached] contended_state show ?thesis by blast
qed

text \<open>C8: When no more calls, datagrams and signals arrive, every run of the threads ends; timed
  waits that are over and spurious wakeups count as arrivals here.\<close>

theorem thread_runs_end: "wf {(s', s). threadsReach adaptive s \<and> moves s s'}"
  by (rule moves_wf)

text \<open>C9: From every reachable state all calls, handlers and joins can come to their end, with
  every lock free: the threads need no new call, datagram or signal for it, only the end of a
  timed wait.\<close>

theorem calls_complete:
  assumes "threadsReach adaptive s"
  shows "\<exists>s'. (\<lambda>a b. moves a b \<or> wakes a b)\<^sup>*\<^sup>* s s' \<and> atRest s' \<and> (\<forall>l. mutex s' l = None)"
  by (rule threads_reach_rest [OF wellBehaved_reach [OF assms]])

theorem calls_complete_witness:
  "todo timerStarting LauncherThread = Asleep Alive # tl (todo timerStarting LauncherThread)
    \<and> (\<exists>s'. (\<lambda>a b. moves a b \<or> wakes a b)\<^sup>*\<^sup>* timerStarting s' \<and> atRest s' \<and> (\<forall>l. mutex s' l = None))"
  using timerStarting_state calls_complete [OF timerStarting_reached] by blast

text \<open>C10: A thread releases only locks it holds, locks none that it holds, and accesses the pads,
  the window, the send table and the round trip estimates only inside their locks: the send table
  inside \<open>sendTableLock\<close>, its own, and inside \<open>launchBatteryLock\<close>. The counter of message identifiers is not among them, \<open>packetize\<close> changes it without a lock; nor is
  the flag \<open>isAlive\<close>, which the launcher reads without its lock.\<close>

theorem locks_guard_data:
  assumes "threadsReach adaptive s"
  shows "(todo s t = Release l # p \<longrightarrow> mutex s l = Some t)
    \<and> (todo s t = Acquire l # p \<longrightarrow> mutex s l \<noteq> Some t)
    \<and> (todo s t = Access d # p \<and> l \<in> guardsOf d \<longrightarrow> mutex s l = Some t)"
proof -
  have O: "orderInv s" using wellBehaved_reach [OF assms] by (rule wellBehaved_D)
  have "orderly t (maskOf s t) (held s t) (todo s t)" by (rule orderInv_D(1) [OF O])
  with access_guarded [OF O] show ?thesis by (auto simp: held_def mayTake_def)
qed

theorem locks_guard_data_witness:
  "todo registering (App 1) = Access Table # tl (todo registering (App 1))
    \<and> mutex registering sendTableLock = Some (App 1) \<and> mutex registering launchBatteryLock = Some (App 1)"
  using locks_guard_data [OF registering_reached, of "App 1" sendTableLock _ Table]
    locks_guard_data [OF registering_reached, of "App 1" launchBatteryLock _ Table] registering_state by auto

text \<open>C11: The critical sections of every run are serial. Take \<open>launchBatteryLock\<close>, \<open>sendWindowLock\<close>,
  \<open>sendTableLock\<close> or \<open>networkSamplerLock\<close>: from the moment a thread locks it to the moment the same
  thread unlocks it no other thread locks it or accesses the data that it guards, and nobody accesses
  these outside such a section; the send table is guarded by \<open>sendTableLock\<close> and by \<open>launchBatteryLock\<close>. So on these data the steps of the other theories are not interleaved.\<close>

theorem critical_sections_serial:
  assumes "run (initialThreads adaptive) tr s"
    and "l \<in> {launchBatteryLock, sendWindowLock, sendTableLock, networkSamplerLock}"
  shows "serial l None tr \<and> inside l None tr = mutex s l"
proof -
  have "wellBehaved (initialThreads adaptive)" "mutex (initialThreads adaptive) l = None"
    using wellBehaved_reach [of adaptive "initialThreads adaptive"] by (simp_all add: initialThreads_def)
  from run_serial [OF assms(1) this] assms(2) show ?thesis by auto
qed

theorem critical_sections_serial_witness:
  "\<exists>tr. run (initialThreads True) tr firstCalled \<and> (App 0, Access LaunchPads) \<in> set tr
    \<and> (App 0, Access Table) \<in> set tr \<and> serial launchBatteryLock None tr \<and> serial sendTableLock None tr"
  using firstCalled_run critical_sections_serial [of True _ firstCalled launchBatteryLock]
    critical_sections_serial [of True _ firstCalled sendTableLock] by blast

text \<open>C12: There is one timer thread at most: the launcher creates it only when there is none. A
  launcher that sleeps until the timer is alive will be signalled, one that awaits its end has told
  it to stop, and a timer that is flagged alive has a thread.\<close>

theorem timer_handshake:
  assumes "threadsReach adaptive s"
  shows "(todo s t = Spawn TimerThread # p \<longrightarrow> t = LauncherThread \<and> todo s TimerThread = [])
    \<and> (todo s LauncherThread = Asleep f # p \<longrightarrow> f = Alive \<and> SignalFlag Alive \<in> set (todo s TimerThread))
    \<and> (todo s LauncherThread = JoinTimer # p \<longrightarrow> stopping (theTimer s))
    \<and> (isAlive (theTimer s) \<longrightarrow> todo s TimerThread \<noteq> [])"
proof -
  note W = wellBehaved_reach [OF assms]
  note P = protocol_D [OF wellBehaved_D(2) [OF W]]
  have "f = Alive \<and> SignalFlag Alive \<in> set (todo s TimerThread)" if "todo s LauncherThread = Asleep f # p"
    using P(4) [OF that] by (auto simp: places)
  moreover have "stopping (theTimer s)" if "todo s LauncherThread = JoinTimer # p"
    using P(3) that by (auto simp: settled_def starting_def launcher_code_def)
  ultimately show ?thesis
    using spawn_by [OF W, of t TimerThread p] timerAt_dead [OF timerPlace_D(1) [OF P(1)]] by auto
qed

theorem timer_handshake_witness:
  "todo timerStarting LauncherThread = Asleep Alive # tl (todo timerStarting LauncherThread)
    \<and> SignalFlag Alive \<in> set (todo timerStarting TimerThread)"
  using timer_handshake [OF timerStarting_reached, of _ _ Alive] timerStarting_state by blast

text \<open>C13: The first call starts the launcher, once: a thread that creates it finds none, a caller
  that sleeps until it is available will be signalled, and an event is sent only when the launcher
  is available and past its start, so that the signal finds its handler and a thread.\<close>

theorem launcher_start:
  assumes "threadsReach adaptive s"
  shows "(todo s t = Spawn LauncherThread # p \<longrightarrow> todo s LauncherThread = [] \<and> \<not> made s LauncherOnce)
    \<and> (todo s (App k) = Asleep f # p \<longrightarrow> f = Made LauncherOnce
        \<and> SignalFlag (Made LauncherOnce) \<in> set (todo s LauncherThread))
    \<and> (todo s t = KillLauncher # p \<longrightarrow> made s LauncherOnce)
    \<and> (notified s \<longrightarrow> made s LauncherOnce \<and> \<not> starting (todo s LauncherThread)
        \<and> mutex s launcherInitializerLock = None)"
proof -
  note W = wellBehaved_reach [OF assms]
  have "f = Made LauncherOnce \<and> SignalFlag (Made LauncherOnce) \<in> set (todo s LauncherThread)"
    if "todo s (App k) = Asleep f # p"
    using sleeper_D(1,3) [OF W that] by (auto simp: announcing_def starting_def launcher_code_def)
  then show ?thesis
    using spawn_by [OF W, of t LauncherThread p] kill_made [OF wellBehaved_D(3) [OF W], of t p]
      start_notified [OF wellBehaved_D(3) [OF W]] by (auto simp: launcherUp_def)
qed

theorem launcher_start_witness:
  "todo launcherStarting (App 0) = Asleep (Made LauncherOnce) # tl (todo launcherStarting (App 0))
    \<and> SignalFlag (Made LauncherOnce) \<in> set (todo launcherStarting LauncherThread)
    \<and> made firstCalled LauncherOnce"
  using launcher_start [OF launcherStarting_reached, of _ _ 0 "Made LauncherOnce"] launcherStarting_state
    launcher_start [OF firstCalled_reached] firstCalled_state by blast

text \<open>C14: The battery, the window, the send table, the network estimates and the launcher are each
  created at most once, although the getters look at the reference without a lock: a thread about
  to create one finds that there is none. And none is used before it was created.\<close>

theorem singletons_once:
  assumes "threadsReach adaptive s"
  shows "(todo s t = SetFlag (Made c) # p \<longrightarrow> \<not> made s c)
    \<and> (todo s t = Access d # p \<and> objectOf d = Some c \<longrightarrow> made s c)"
proof (cases "c = LauncherOnce")
  case True
  moreover have "objectOf d \<noteq> Some LauncherOnce" by (cases d) simp_all
  ultimately show ?thesis using launcher_made_once [OF wellBehaved_D(3) [OF wellBehaved_reach [OF assms]]] by blast
next
  case False
  from single_D [OF single_reach [OF this assms]] show ?thesis by blast
qed

theorem singletons_once_witness:
  "todo creating (App 0) = SetFlag (Made BatteryOnce) # tl (todo creating (App 0)) \<and> \<not> made creating BatteryOnce
    \<and> todo contended (App 1) = Access LaunchPads # tl (todo contended (App 1)) \<and> made contended BatteryOnce"
  using singletons_once [OF creating_reached, of "App 0" BatteryOnce] creating_state
    singletons_once [OF contended_reached, of "App 1" BatteryOnce _ LaunchPads] contended_state by auto

section \<open>The application\<close>

text \<open>C15: A message between two processes, through all the layers. A process whose launcher has
  nothing to do, with none of its datagrams under way, hands over a message with \<open>sendMessageDMProtocol\<close>; this starts a transfer. Whatever the
  network then does, the other process hears only datagrams of this message, and once its
  receiver is done \<open>receiveMessageDMProtocol\<close> returns the message and its sender; and the network can
  always bring it to that.\<close>

theorem message_over_network:
  assumes "processOk w" and "wf_message m" and "senderIdle w m" and "n \<le> addrSize" and "0 \<le> vsock"
  shows "\<exists>w1 s0. sendMessageDMProtocol sdn dst n m w = Returns 0 w1 \<and> started (message_bytes m) (launcherNow w) s0
    \<and> sender s0 = launch (gbn w1)
    \<and> (\<forall>ok ds s. heard ok sa s0 ds s \<longrightarrow> (\<forall>d\<in>set ds. datagram_of (launcherNow w) (message_bytes m) d)
        \<and> (\<not> morePackets (receiver s) \<longrightarrow> (\<forall>v. inbox v = from_peer sa ds \<longrightarrow>
            (\<exists>v'. receiveMessageDMProtocol vsock v = Returns (0, sa, arrived m) v'))))
    \<and> (\<exists>ds s. heard True sa s0 ds s \<and> \<not> morePackets (receiver s))"
proof -
  let ?g = "launcherNow w"
  from sends_start [OF assms(1-4)] obtain w1 where w1: "sendMessageDMProtocol sdn dst n m w = Returns 0 w1"
    "started (message_bytes m) ?g \<lparr>sender = launch (gbn w1), receiver = listenForDataInit\<rparr>" by blast
  let ?s0 = "\<lparr>sender = launch (gbn w1), receiver = listenForDataInit\<rparr>"
  have "\<exists>v'. receiveMessageDMProtocol vsock v = Returns (0, sa, arrived m) v'"
    if "heard ok sa ?s0 ds s" "\<not> morePackets (receiver s)" "inbox v = from_peer sa ds" for ok ds s v
  proof -
    have "completes ok sa m ds" unfolding completes_def using that(1,2) assms(2) w1(2) by blast
    then have "carries (inbox v) [(sa, m)] []" unfolding that(3) by (rule one_transfer_carries)
    from receive_carries [OF this assms(5)] show ?thesis by blast
  qed
  moreover have "\<exists>ds s. heard True sa ?s0 ds s \<and> \<not> morePackets (receiver s)"
  proof -
    have "reachable True sa ?s0 ?s0" by (simp add: reachable_def)
    from reachable_finishes [OF w1(2) this] reachable_heard show ?thesis by blast
  qed
  moreover have "\<forall>d\<in>set ds. datagram_of ?g (message_bytes m) d" if "heard ok sa ?s0 ds s" for ok ds s
    using heard_sent [OF that w1(2)] .
  ultimately show ?thesis using w1
    by (intro exI [of _ w1] exI [of _ ?s0] conjI allI impI) (simp, simp, simp, blast+)
qed

theorem message_over_network_witness:
  "\<exists>w1 s0. sendMessageDMProtocol 3 zeroAddr addrSize hsRequest (exampleProcess Map.empty zeroAddr []) = Returns 0 w1
    \<and> sender s0 = launch (gbn w1) \<and> (\<exists>ds s. heard True zeroAddr s0 ds s \<and> \<not> morePackets (receiver s))"
proof -
  let ?w = "exampleProcess Map.empty zeroAddr []"
  have m: "wf_message hsRequest" "numOfPackets (message_bytes hsRequest) \<le> 1000"
    by (simp_all add: short_message length_message_bytes_content)
  from message_over_network [OF exampleProcess_ok m(1) example_idle [OF m(2)] order.refl,
      where vsock = 4 and sdn = 3 and dst = zeroAddr and sa = zeroAddr]
  show ?thesis by fastforce
qed

text \<open>C16: One launcher, one message after another, over a network that holds no datagram of an earlier
  message any more when the next one starts (\<open>drained\<close>), so that no late datagram reaches the next
  reader; C29 shows what one does. The state that a transfer leaves, the table, the
  position in the ring and the timer, is one from which the next message starts; its reader
  receives the messages in order, and the launcher is ready again. While the counter of the identifiers
  does not wrap, such a network can bring over any list of messages that fit the ring one by one.\<close>

theorem session_delivers:
  assumes "ready g" and "lastMsgId g + int (length ms) < INT_MAX"
    and "\<forall>m\<in>set ms. wf_message m \<and> int (numOfPackets (message_bytes m)) + winsize (bs (launch g)) \<le> QUEUE_LEN"
  shows "(\<forall>ok dss g'. session ok sa g (map message_bytes ms) dss g' \<longrightarrow> ready g'
      \<and> lastMsgId g' = lastMsgId g + int (length ms) \<and> carries (from_peer sa (concat dss)) (map (Pair sa) ms) [])
    \<and> (\<exists>dss g'. session True sa g (map message_bytes ms) dss g')"
proof -
  have "\<forall>b\<in>set (map message_bytes ms). b \<noteq> [] \<and> int (numOfPackets b) + winsize (bs (launch g)) \<le> QUEUE_LEN"
    using assms(3) message_bytes_not_Nil by auto
  with session_exists [OF assms(1), of "map message_bytes ms" sa] assms(2)
  have "\<exists>dss g'. session True sa g (map message_bytes ms) dss g'" by auto
  moreover have "ready g' \<and> lastMsgId g' = lastMsgId g + int (length ms)
      \<and> carries (from_peer sa (concat dss)) (map (Pair sa) ms) []"
    if "session ok sa g (map message_bytes ms) dss g'" for ok dss g'
    using session_ready [OF that assms(1)] assms(2,3)
      transfers_carry [OF session_completes [OF that refl]] by auto
  ultimately show ?thesis by blast
qed

theorem session_delivers_witness:
  "\<exists>dss g'. session True zeroAddr exampleSender (map message_bytes [hsRequest, request PUT [97], chunkMessage [1, 2, 3]]) dss g'
    \<and> carries (from_peer zeroAddr (concat dss))
        [(zeroAddr, hsRequest), (zeroAddr, request PUT [97]), (zeroAddr, chunkMessage [1, 2, 3])] []"
proof -
  let ?ms = "[hsRequest, request PUT [97], chunkMessage [1, 2, 3]]"
  have w: "wf_message m \<and> int (numOfPackets (message_bytes m)) + winsize (bs (launch exampleSender)) \<le> QUEUE_LEN"
    if "m \<in> set ?ms" for m
    using that short_message [of m] example_battery(5)
    by (auto simp: length_message_bytes_content example_battery(1) QUEUE_LEN_def chunkMessage_simps MAX_FILE_CHUNK_SIZE_def)
  have i: "lastMsgId exampleSender + int (length ?ms) < INT_MAX" by (simp add: example_battery(2))
  from session_delivers [OF ready_init i, of zeroAddr] w show ?thesis by fastforce
qed

text \<open>C17: A file is put over the network. Every message of the exchange between client, father and
  child is brought to its reader by a transfer of its own over a network that loses, repeats and
  reorders, each done before the next one to the same reader is heard. The file arrives and all
  three processes succeed, provided the variable that held the handler's port still holds it after the
  end of its block, when the father serializes its reply.\<close>

theorem put_over_network:
  assumes "processOk f" and "processOk w" and "processOk v" and "0 \<le> fsock" and "0 \<le> vsock"
    and "getGlobalSocket w = Returns sdn w0" and "0 \<le> sdn"
    and "assignHandler hs = (k, hs')" and "0 \<le> k"
    and "free_port (handlerPort k) = port_bytes (handlerPort k)"
    and "0 \<notin> set prog \<union> set name" and "int (length name) < INT_MAX - 13"
    and "access w name" and "files w name = Some d" and "access v name"
    and "completes ok c hsRequest df" and "inbox f = from_peer c df"
    and "completes ok s0 (hsResponse free_port k) dh"
    and "list_all2 (completes ok s) (putReply name # replicate (length (fileChunks d)) chunkHasArrivedMsg) dw"
    and "inbox w = from_peer s0 dh @ from_peer s (concat dw)"
    and "list_all2 (completes ok c) (request PUT name # map chunkMessage (fileChunks d)) dv"
    and "inbox v = from_peer c (concat dv)"
  shows "\<exists>f' w' v'. fatherStep free_port fsock hs f = Returns hs' f'
    \<and> clientMain [prog, putName, name] w = Returns 0 w'
    \<and> childStep sname listed stale strerr vsock sem v = Returns (sem_post sem) v'
    \<and> files v' = (files v)(name \<mapsto> d)"
proof -
  have "carries (inbox f) [(c, hsRequest)] []" unfolding assms(17) by (rule one_transfer_carries [OF assms(16)])
  moreover have "carries (inbox w) ((s0, hsResponse free_port k) # map (Pair s) (putReply name
      # replicate (length (fileChunks d)) chunkHasArrivedMsg)) []"
    unfolding assms(20) by (rule two_peers_carry [OF assms(18,19)])
  moreover have "carries (inbox v) (map (Pair c) (request PUT name # map chunkMessage (fileChunks d))) []"
    unfolding assms(22) by (rule transfers_carry [OF assms(21)])
  ultimately show ?thesis using put_exchange [where fp = free_port, OF assms(1-15)] by blast
qed

theorem put_over_network_witness:
  "\<exists>w (v :: world) w' v'. clientMain [[], putName, [97]] w = Returns 0 w' \<and> files w [97] = Some [1, 2, 3]
    \<and> childStep [] [] (\<lambda>_. []) [] 4 (Sem 0) v = Returns (Sem 1) v' \<and> files v [97] = None
    \<and> files v' [97] = Some [1, 2, 3]"
proof -
  let ?c = zeroAddr
  let ?replies = "putReply [97] # replicate (length (fileChunks [1, 2, 3])) chunkHasArrivedMsg"
  let ?to = "request PUT [97] # map chunkMessage (fileChunks [1, 2, 3])"
  have ch: "fileChunks [1, 2, 3] = [[1, 2, 3]]" by (simp add: fileChunks.simps MAX_FILE_CHUNK_SIZE_def)
  note l = short_message length_message_bytes_content ch
  have a: "assignHandler (replicate MAX_CLIENT (Sem 1)) = (0, Sem 0 # replicate 4 (Sem 1))"
    by (simp add: assignHandler_def MAX_CLIENT_def sem_trywait_def numeral_eq_Suc)
  obtain df where df: "completes True ?c hsRequest df" using completes_first [of hsRequest] by (auto simp: l)
  have "wf_message (hsResponse port_bytes 0)" "numOfPackets (message_bytes (hsResponse port_bytes 0)) \<le> 1000"
    by (simp add: wf_hsResponse) (simp add: l hsResponse_def)
  from completes_first [OF this] obtain dh where dh: "completes True ?c (hsResponse port_bytes 0) dh" by blast
  obtain dw where dw: "list_all2 (completes True ?c) ?replies dw"
    using completes_all [of ?replies] by (auto simp: l wf_reply)
  obtain dv where dv: "list_all2 (completes True ?c) ?to dv"
    using completes_all [of ?to] by (auto simp: l MAX_FILE_CHUNK_SIZE_def)
  let ?f = "(exampleProcess Map.empty ?c [])\<lparr>inbox := from_peer ?c df\<rparr>"
  let ?w = "(exampleClient [[97] \<mapsto> [1, 2, 3]] ?c [])\<lparr>inbox := from_peer ?c dh @ from_peer ?c (concat dw)\<rparr>"
  let ?v = "(exampleProcess Map.empty ?c [])\<lparr>inbox := from_peer ?c (concat dv)\<rparr>"
  obtain w0 where w0: "getGlobalSocket ?w = Returns 3 w0" using exampleClient_socket by blast
  have "\<exists>f' w' v'. fatherStep port_bytes 3 (replicate MAX_CLIENT (Sem 1)) ?f = Returns (Sem 0 # replicate 4 (Sem 1)) f'
    \<and> clientMain [[], putName, [97]] ?w = Returns 0 w'
    \<and> childStep [] [] (\<lambda>_. []) [] 4 (Sem 0) ?v = Returns (sem_post (Sem 0)) v'
    \<and> files v' = (files ?v)([97] \<mapsto> [1, 2, 3])"
    by (rule put_over_network [OF _ _ _ _ _ w0 _ a _ _ _ _ _ _ _ df _ dh dw _ dv]) simp_all
  then obtain w' v' where "clientMain [[], putName, [97]] ?w = Returns 0 w'"
    "childStep [] [] (\<lambda>_. []) [] 4 (Sem 0) ?v = Returns (Sem 1) v'" "files v' [97] = Some [1, 2, 3]"
    by (auto simp: sem_post_def)
  moreover have "files ?w [97] = Some [1, 2, 3]" "files ?v [97] = None" by simp_all
  ultimately show ?thesis by blast
qed

text \<open>C18: A file put by the client arrives: when the father, the client and the child get exactly
  the messages that the others hand to the GBN layer, the father assigns the handler, the client
  succeeds, the child stores the content of the file under its name and answers the request and
  every chunk. The father's reply points to a variable of a block that has ended: its bytes are taken
  to be still those of the port of the handler.\<close>

theorem put_transfer:
  assumes "processOk f" and "processOk w" and "processOk v" and "0 \<le> fsock" and "0 \<le> vsock"
    and "getGlobalSocket w = Returns sdn w0" and "0 \<le> sdn"
    and "assignHandler hs = (k, hs')" and "0 \<le> k"
    and "free_port (handlerPort k) = port_bytes (handlerPort k)"
    and "0 \<notin> set prog \<union> set name" and "int (length name) < INT_MAX - 13"
    and "access w name" and "files w name = Some d" and "access v name"
    and "carries (inbox f) [(c, hsRequest)] []"
    and "carries (inbox w) ((s0, hsResponse free_port k) # map (Pair s) (putReply name
        # replicate (length (fileChunks d)) chunkHasArrivedMsg)) []"
    and "carries (inbox v) (map (Pair c) (request PUT name # map chunkMessage (fileChunks d))) []"
  shows "\<exists>f' w' v'. fatherStep free_port fsock hs f = Returns hs' f'
    \<and> handed f' = handed f @ [(c, message_bytes (hsResponse free_port k))]
    \<and> clientMain [prog, putName, name] w = Returns 0 w'
    \<and> handed w' = handed w @ (getServerAddress, message_bytes hsRequest)
        # map (\<lambda>m. (handlerAt (handlerPort k), message_bytes m))
            (request PUT name # map chunkMessage (fileChunks d))
    \<and> childStep sname listed stale strerr vsock sem v = Returns (sem_post sem) v'
    \<and> files v' = (files v)(name \<mapsto> d)
    \<and> handed v' = handed v @ map (\<lambda>m. (c, message_bytes m))
        (putReply name # replicate (length (fileChunks d)) chunkHasArrivedMsg)"
  by (rule put_exchange [where fp = free_port, OF assms])

theorem put_transfer_witness:
  "\<exists>v'. childStep [] [] (\<lambda>_. []) [] 4 (Sem 0)
      (exampleProcess Map.empty zeroAddr (request PUT [97] # map chunkMessage (fileChunks [1, 2, 3])))
    = Returns (Sem 1) v' \<and> files v' [97] = Some [1, 2, 3]"
proof -
  let ?in = "hsResponse port_bytes 0 # putReply [97] # replicate (length (fileChunks [1, 2, 3])) chunkHasArrivedMsg"
  let ?req = "request PUT [97] # map chunkMessage (fileChunks [1, 2, 3])"
  let ?f = "exampleProcess Map.empty zeroAddr [hsRequest]"
  let ?w = "exampleClient [[97] \<mapsto> [1, 2, 3]] zeroAddr ?in" and ?v = "exampleProcess Map.empty zeroAddr ?req"
  have ch: "fileChunks [1, 2, 3] = [[1, 2, 3]]" by (simp add: fileChunks.simps MAX_FILE_CHUNK_SIZE_def)
  have a: "assignHandler (replicate MAX_CLIENT (Sem 1)) = (0, Sem 0 # replicate 4 (Sem 1))"
    by (simp add: assignHandler_def MAX_CLIENT_def sem_trywait_def numeral_eq_Suc)
  note l = length_message_bytes_content MAX_CLIENT_def MAX_FILE_CHUNK_SIZE_def
  have f: "carries (inbox ?f) [(zeroAddr, hsRequest)] []"
    using carries_all [of "[hsRequest]" zeroAddr] by (simp add: l)
  have "carries (inbox ?w) (map (Pair zeroAddr) ?in) []"
    unfolding exampleClient_simps by (rule carries_all) (simp add: ch l wf_hsResponse wf_reply hsResponse_def)
  then have w: "carries (inbox ?w) ((zeroAddr, hsResponse port_bytes 0) # map (Pair zeroAddr) (tl ?in)) []" by simp
  have v: "carries (inbox ?v) (map (Pair zeroAddr) ?req) []"
    unfolding exampleProcess_simps by (rule carries_all) (simp add: ch l)
  from put_transfer [OF exampleProcess_ok exampleClient_simps(5) exampleProcess_ok _ _ exampleClient_simps(6) _ a
      _ _ _ _ exampleClient_simps(3) _ exampleProcess_simps(3) f w [unfolded list.sel] v, of 3 4 "[]" "[]" "[]" "\<lambda>_. []" "[]" "Sem 0"]
  show ?thesis by (auto simp: sem_post_def)
qed

text \<open>C19: A file got by the client arrives too: the child sends its content, the client stores it and
  acknowledges every chunk. If the client cannot open the file it reports success all the same,
  and stores nothing. The name must not have a percent sign: client and child print it through the
  logger, which takes it for a format. The reply to the handshake holds the port of the handler, as for C18.\<close>

theorem get_transfer:
  assumes "processOk w" and "processOk v" and "0 \<le> vsock"
    and "getGlobalSocket w = Returns sdn w0" and "0 \<le> sdn" and "0 \<le> k"
    and "free_port (handlerPort k) = port_bytes (handlerPort k)" and "0x25 \<notin> set name"
    and "0 \<notin> set prog \<union> set name" and "int (length name) < INT_MAX - 13"
    and "access v name" and "files v name = Some d"
    and "carries (inbox w) ((s0, hsResponse free_port k) # map (Pair s) (getReply
        # map chunkMessage (fileChunks d) @ [getReply])) []"
    and "carries (inbox v) (map (Pair c) (request GET name
        # replicate (length (fileChunks d)) chunkHasArrivedMsg)) []"
  shows "\<exists>w' v'. clientMain [prog, getName, name] w = Returns 0 w'
    \<and> files w' = (if access w name then (files w)(name \<mapsto> d) else files w)
    \<and> handed w' = handed w @ (getServerAddress, message_bytes hsRequest)
        # (handlerAt (handlerPort k), message_bytes (request GET name))
        # replicate (length (fileChunks d)) (s, message_bytes chunkHasArrivedMsg)
    \<and> childStep sname listed stale strerr vsock sem v = Returns (sem_post sem) v'
    \<and> files v' = files v
    \<and> handed v' = handed v @ map (\<lambda>m. (c, message_bytes m))
        (getReply # map chunkMessage (fileChunks d) @ [getReply])"
  by (rule get_exchange [where fp = free_port, OF assms])

theorem get_transfer_witness:
  "\<exists>w'. clientMain [[], getName, [97]] (exampleClient Map.empty zeroAddr
      (hsResponse port_bytes 0 # getReply # map chunkMessage (fileChunks [1, 2, 3]) @ [getReply]))
    = Returns 0 w' \<and> files w' [97] = Some [1, 2, 3]"
proof -
  let ?in = "hsResponse port_bytes 0 # getReply # map chunkMessage (fileChunks [1, 2, 3]) @ [getReply]"
  let ?req = "request GET [97] # replicate (length (fileChunks [1, 2, 3])) chunkHasArrivedMsg"
  let ?w = "exampleClient Map.empty zeroAddr ?in" and ?v = "exampleProcess [[97] \<mapsto> [1, 2, 3]] zeroAddr ?req"
  have ch: "fileChunks [1, 2, 3] = [[1, 2, 3]]" by (simp add: fileChunks.simps MAX_FILE_CHUNK_SIZE_def)
  note l = length_message_bytes_content MAX_CLIENT_def MAX_FILE_CHUNK_SIZE_def
  have "carries (inbox ?w) (map (Pair zeroAddr) ?in) []"
    unfolding exampleClient_simps by (rule carries_all) (simp add: ch l wf_hsResponse wf_reply hsResponse_def)
  then have w: "carries (inbox ?w) ((zeroAddr, hsResponse port_bytes 0) # map (Pair zeroAddr) (getReply
      # map chunkMessage (fileChunks [1, 2, 3]) @ [getReply])) []" by simp
  have v: "carries (inbox ?v) (map (Pair zeroAddr) ?req) []"
    unfolding exampleProcess_simps by (rule carries_all) (simp add: ch l)
  from get_transfer [OF exampleClient_simps(5) exampleProcess_ok _ exampleClient_simps(6) _ _ _ _ _ _
      exampleProcess_simps(3) _ w v, of 4 "[]" "[]" "[]" "\<lambda>_. []" "[]" "Sem 0"]
  show ?thesis by auto
qed

text \<open>C20: A file is sent in chunks of 10240 bytes and a shorter last one, possibly empty, and
  the receiver writes their concatenation. Each side is less strict than the protocol: as the
  acknowledgement of a chunk the sender takes any message whatever, and the receiver appends the
  payload of any message, whoever sent it, until one says that no more follow.\<close>

theorem file_chunks_transfer:
  assumes "processOk w" and "processOk v" and "0 \<le> socket" and "0 \<le> vsock"
    and "files w name = Some c" and "length cas = length (fileChunks c)" and "carries (inbox w) cas rest"
    and "files v vname = Some old" and "carries (inbox v) ms vrest" and "transfer (map snd ms)"
  shows "concat (fileChunks c) = c \<and> length (fileChunks c) = length c div MAX_FILE_CHUNK_SIZE + 1
    \<and> (\<forall>d\<in>set (fileChunks c). length d \<le> MAX_FILE_CHUNK_SIZE)
    \<and> (\<exists>w'. sendFileDMProtocol socket dst addrSize (Some name) w = Returns 0 w'
         \<and> handed w' = handed w @ map (\<lambda>d. (dst, message_bytes (chunkMessage d))) (fileChunks c))
    \<and> (\<exists>v'. receiveFileDMProtocol vsock (Some vname) v = Returns 0 v'
         \<and> files v' vname = Some (old @ concat (map (\<lambda>x. content (snd x)) ms))
         \<and> handed v' = handed v @ map (\<lambda>x. (fst x, message_bytes chunkHasArrivedMsg)) ms)"
proof -
  from sendFile_spec [OF assms(1,3) order.refl assms(5,7,6)] obtain w' where
    w': "sendFileDMProtocol socket dst addrSize (Some name) w = Returns 0 w'"
    "after w (map (\<lambda>d. (dst, chunkBytes d)) (fileChunks c)) rest (files w) w'" by blast
  from receiveFile_spec [OF assms(2,4,9,10)] obtain v' where
    v': "receiveFileDMProtocol vsock (Some vname) v = Returns 0 v'"
    "after v (map (\<lambda>x. (fst x, ackBytes)) ms) vrest
      (appended (Some vname) (concat (map (content \<circ> snd) ms)) (files v)) v'" by blast
  have "files v' vname = Some (old @ concat (map (\<lambda>x. content (snd x)) ms))"
    using after_D(2) [OF v'(2)] assms(8) by (simp add: appended_def comp_def)
  then show ?thesis
    using concat_fileChunks length_fileChunks fileChunks_bound w'(1) after_D(4) [OF w'(2)]
      v'(1) after_D(4) [OF v'(2)] by blast
qed

theorem file_chunks_transfer_witness:
  "\<exists>w'. sendFileDMProtocol 3 zeroAddr addrSize (Some [97]) (exampleProcess [[97] \<mapsto> [1]] zeroAddr [hsRequest])
      = Returns 0 w' \<and> handed w' = [(zeroAddr, message_bytes (chunkMessage [1]))]"
proof -
  have ch: "fileChunks [1] = [[1]]" by (simp add: fileChunks.simps MAX_FILE_CHUNK_SIZE_def)
  have w: "carries (inbox (exampleProcess fs zeroAddr [hsRequest])) [(zeroAddr, hsRequest)] []" for fs
    using carries_all [of "[hsRequest]" zeroAddr] by (simp add: length_message_bytes_content)
  have t: "transfer (map snd [(zeroAddr, hsRequest)])" by (simp add: hsRequest_def newMessage_def)
  from file_chunks_transfer [OF exampleProcess_ok exampleProcess_ok _ _ _ _ w _ w t, of 3 4 "[[97] \<mapsto> [1]]" "[97]" "[1]"
      "[[97] \<mapsto> [1]]" "[97]" "[1]" zeroAddr]
  show ?thesis by (auto simp: ch)
qed

text \<open>C21: \<open>sendMessageDMProtocol\<close> returns 0 whether or not the GBN layer takes the message: when
  the ring lacks pads for its packets the launcher is left as it was, the message is lost and the
  caller is told that it was sent.\<close>

theorem refused_message_reported_sent:
  assumes "processOk w" and "wf_message msg" and "n \<le> addrSize"
    and "freePads w < int (numOfPackets (message_bytes msg))"
  shows "\<exists>w'. sendMessageDMProtocol socket dst n msg w = Returns 0 w' \<and> gbnResults w' = gbnResults w @ [- 1]
    \<and> launch (gbn w') = launch (launcherTurn w (length (handed w)) (gbn w))"
  using sendMessage_spec [OF assms(1-3), of socket dst] assms(4) by auto

theorem refused_message_reported_sent_witness:
  "\<exists>msg w'. sendMessageDMProtocol 3 zeroAddr addrSize msg (exampleProcess Map.empty zeroAddr []) = Returns 0 w'
     \<and> gbnResults w' = [- 1]"
proof -
  define msg where "msg = reply LIST OP_STATUS_OK (Some (replicate 2000000 0)) 2000000"
  have m: "wf_message msg" unfolding msg_def by (rule wf_reply) simp_all
  have "length (message_bytes msg) = 2000013"
    by (simp add: length_message_bytes_content msg_def)
  then have "numOfPackets (message_bytes msg) = 1356" by (simp add: numOfPackets_eq)
  moreover have "freePads (exampleProcess Map.empty zeroAddr []) = 1024"
    using example_battery(3) by (simp add: freePads_def exampleProcess_def QUEUE_LEN_def)
  ultimately have "freePads (exampleProcess Map.empty zeroAddr []) < int (numOfPackets (message_bytes msg))" by simp
  from refused_message_reported_sent [OF exampleProcess_ok m order.refl this, of 3 zeroAddr]
  show ?thesis by (auto simp: exampleProcess_def)
qed

text \<open>C22: The reply to \<open>list\<close>: every regular file but the server's own executable, each followed
  by the separator the client asked for, or the separator alone for an empty directory. The buffer
  sized before the names are copied is large enough, provided the closed directory still holds
  them. No name and no separator may have a percent sign: every one is printed through the logger,
  which takes it for a format.\<close>

theorem list_reply:
  assumes "processOk v" and "0 \<le> vsock" and "0 \<notin> set sep"
    and "\<forall>i<length listed. stale i = listed ! i" and "\<forall>n\<in>set listed. length n \<le> MAX_FILENAME_LENTGH"
    and "0x25 \<notin> set sep \<union> set sname" and "\<forall>n\<in>set listed. 0x25 \<notin> set n"
    and "int (length (listText sep sname listed)) \<le> INT_MAX - 13"
    and "carries (inbox v) [(c, request LIST sep)] []"
  shows "\<exists>v'. childStep sname listed stale strerr vsock sem v = Returns (sem_post sem) v'
    \<and> files v' = files v
    \<and> (\<exists>m. handed v' = handed v @ [(c, message_bytes m)] \<and> okReply LIST m
         \<and> content m = (if listed = [] then sep else concat (map (\<lambda>e. e @ sep) (filter (\<lambda>e. e \<noteq> sname) listed))))"
proof -
  let ?m = "reply LIST OP_STATUS_OK (Some (listText sep sname listed @ [0])) (int (length (listText sep sname listed)))"
  from serverList_spec [OF assms, of strerr sem] obtain v' where
    v': "childStep sname listed stale strerr vsock sem v = Returns (sem_post sem) v'"
    "after v [(c, message_bytes ?m)] [] (files v) v'" by blast
  have "content ?m = listText sep sname listed" "okReply LIST ?m"
    by (simp_all add: okReply_def statusOk_def)
  then show ?thesis using v'(1) after_D(2,4) [OF v'(2)] unfolding listText_def by blast
qed

theorem list_reply_witness:
  "\<exists>v' m. childStep [115] [[97], [115]] (\<lambda>i. [[97], [115]] ! i) [] 4 (Sem 0)
      (exampleProcess Map.empty zeroAddr [request LIST FILENAME_DEL]) = Returns (Sem 1) v'
    \<and> handed v' = [(zeroAddr, message_bytes m)] \<and> content m = [97, 10]"
proof -
  have n: "0 \<notin> set FILENAME_DEL" by (simp add: FILENAME_DEL_def)
  have t: "listText [10] [115] [[97], [115]] = [97, 10]" by (simp add: listText_def)
  have "carries (inbox (exampleProcess Map.empty zeroAddr [request LIST FILENAME_DEL]))
      [(zeroAddr, request LIST FILENAME_DEL)] []"
    using carries_all [of "[request LIST FILENAME_DEL]" zeroAddr] by (simp add: length_message_bytes_content FILENAME_DEL_def)
  from list_reply [OF exampleProcess_ok _ n _ _ _ _ _ this, of 4 "[[97], [115]]" "\<lambda>i. [[97], [115]] ! i" "[115]" "[]" "Sem 0"]
  show ?thesis by (auto simp: t MAX_FILENAME_LENTGH_def sem_post_def FILENAME_DEL_def)
qed

text \<open>The client prints the reply to \<open>list\<close> as a C string, but the server sends it without
  its NUL: whatever names it lists, the client reads past the end of the payload.\<close>

lemma list_print_overreads:
  assumes "processOk w" and "getGlobalSocket w = Returns sdn w0" and "0 \<le> sdn" and "0 \<le> k"
    and "fp (handlerPort k) = port_bytes (handlerPort k)"
    and "0 \<notin> set prog" and "listText sep sname listed \<noteq> []"
    and "0 \<notin> set sep" and "\<forall>e\<in>set listed. 0 \<notin> set e"
    and "m = reply LIST OP_STATUS_OK (Some (listText sep sname listed @ [0])) (int (length (listText sep sname listed)))"
    and "carries (inbox w) [(s0, hsResponse fp k), (s, m)] []"
  shows "clientMain [prog, listName] w = Fails"
proof -
  have p: "content (hsResponse fp k) = port_bytes (handlerPort k)"
    "okReply HS (hsResponse fp k)" "okReply LIST m" "content m = listText sep sname listed"
    using assms(4,5) by (simp_all add: hsResponse_def okReply_def statusOk_def assms(10) del: commandCode.simps statusCode.simps)
  have "0 \<notin> set (listText sep sname listed)" using assms(8,9) by (auto simp: listText_def)
  then have c: "cString (content m) = None" "content m \<noteq> []" using p(4) assms(7) by (simp_all add: cString_def)
  have cw: "carries (inbox w) ([] @ (s0, hsResponse fp k) # [] @ (s, m) # []) []" using assms(11) by simp
  from doList_spec [OF assms(1-3) cw _ p(2,1) _ p(3) c(2)] c(1) have "doList w = Fails"
    by (simp add: otherReplies_def)
  then show ?thesis using clientMain_named [of listName LIST prog "[]" w] assms(6) by (simp add: doCommand_def)
qed

lemma list_print_overreads_witness:
  "clientMain [[], listName] (exampleClient Map.empty zeroAddr
     [hsResponse port_bytes 0, reply LIST OP_STATUS_OK (Some [97, 10, 0]) 2]) = Fails"
proof -
  let ?m = "reply LIST OP_STATUS_OK (Some [97, 10, 0]) 2"
  have t: "listText [10] [] [[97]] = [97, 10]" by (simp add: listText_def)
  have m: "?m = reply LIST OP_STATUS_OK (Some (listText [10] [] [[97]] @ [0])) (int (length (listText [10] [] [[97]])))"
    by (simp add: t)
  have "carries (inbox (exampleClient Map.empty zeroAddr [hsResponse port_bytes 0, ?m])) (map (Pair zeroAddr) [hsResponse port_bytes 0, ?m]) []"
    unfolding exampleClient_simps by (rule carries_all)
      (simp add: wf_hsResponse wf_reply length_message_bytes_content hsResponse_def)
  then have c: "carries (inbox (exampleClient Map.empty zeroAddr [hsResponse port_bytes 0, ?m]))
      [(zeroAddr, hsResponse port_bytes 0), (zeroAddr, ?m)] []" by simp
  show ?thesis
    by (rule list_print_overreads [OF exampleClient_simps(5,6) _ _ _ _ _ _ _ m c]) (simp_all add: t)
qed

text \<open>C23: The father gives a handler to one client at a time: as long as the handlers serve only
  clients that were sent to them, in every reachable state each handler has at most one client
  and its semaphore tells whether it has none; a handshake is given the first idle handler, and is
  refused exactly when all are busy.\<close>

theorem handlers_exclusive:
  assumes "poolStep\<^sup>*\<^sup>* initialPool p"
  shows "(\<forall>i<MAX_CLIENT. clients p i \<le> 1 \<and> handlers p ! i = Sem (1 - int (clients p i)))
    \<and> (if \<exists>i<MAX_CLIENT. clients p i = 0
       then \<exists>i<MAX_CLIENT. clients p i = 0 \<and> (\<forall>j<i. clients p j = 1)
         \<and> assignHandler (handlers p) = (int i, (handlers p)[i := Sem 0])
       else assignHandler (handlers p) = (- 1, handlers p))"
proof -
  have i: "poolInv p" by (rule pool_reachable [OF assms])
  then have c: "clients p j \<le> 1" if "j < MAX_CLIENT" for j using that by (simp add: poolInv_def)
  show ?thesis
  proof (cases "\<exists>i<MAX_CLIENT. clients p i = 0")
    case True
    with assign_pool [OF i] obtain k where k: "k < MAX_CLIENT" "clients p k = 0" "\<forall>j<k. clients p j \<noteq> 0"
      "assignHandler (handlers p) = (int k, (handlers p)[k := Sem 0])" by auto
    have "\<forall>j<k. clients p j = 1"
    proof (intro allI impI)
      fix j assume "j < k"
      then show "clients p j = 1" using k(1,3) c [of j] by fastforce
    qed
    with True k i show ?thesis by (auto simp: poolInv_def)
  next
    case False
    then show ?thesis using assign_pool [OF i] i by (auto simp: poolInv_def)
  qed
qed

theorem handlers_exclusive_witness:
  "assignHandler (handlers initialPool) = (0, (handlers initialPool)[0 := Sem 0])"
proof -
  have z: "clients initialPool i = 0" for i by (simp add: initialPool_def)
  have "\<exists>i<MAX_CLIENT. clients initialPool i = 0" unfolding z by (auto simp: MAX_CLIENT_def intro: exI [of _ 0])
  with handlers_exclusive [OF rtranclp.rtrancl_refl] obtain i where "\<forall>j<i. clients initialPool j = 1"
    "assignHandler (handlers initialPool) = (int i, (handlers initialPool)[i := Sem 0])" by auto
  moreover from this(1) have "i = 0" unfolding z by (metis gr0I zero_neq_one)
  ultimately show ?thesis by simp
qed

text \<open>Any datagram that reaches the port of an idle handler breaks this: a message that is no
  request is not answered, but the semaphore is posted all the same, and then the father gives the
  handler to two clients.\<close>

lemma stray_message_doubles_handler:
  assumes "processOk v" and "0 \<le> vsock" and "carries (inbox v) [(c, m)] []"
    and "command (message_header m) \<notin> {commandCode PUT, commandCode GET, commandCode LIST}"
  shows "\<exists>v' sem'. childStep sname listed stale strerr vsock (Sem 1) v = Returns sem' v' \<and> handed v' = handed v
    \<and> assignHandler (sem' # hs) = (0, Sem 1 # hs) \<and> assignHandler (Sem 1 # hs) = (0, Sem 0 # hs)"
  using childStep_stray [OF assms, of sname listed stale strerr "Sem 1"]
  by (auto simp: sem_post_def assignHandler_def sem_trywait_def)

lemma stray_message_doubles_handler_witness:
  "\<exists>v'. childStep [] [] (\<lambda>_. []) [] 4 (Sem 1) (exampleProcess Map.empty zeroAddr [hsRequest]) = Returns (Sem 2) v'"
proof -
  have "carries (inbox (exampleProcess Map.empty zeroAddr [hsRequest])) [(zeroAddr, hsRequest)] []"
    using carries_all [of "[hsRequest]" zeroAddr] by (simp add: length_message_bytes_content)
  from stray_message_doubles_handler [OF exampleProcess_ok _ this, of 4 "[]" "[]" "\<lambda>_. []" "[]" "[]"]
  obtain v' sem' where "childStep [] [] (\<lambda>_. []) [] 4 (Sem 1) (exampleProcess Map.empty zeroAddr [hsRequest]) = Returns sem' v'"
    "assignHandler [sem'] = (0, [Sem 1])" by auto
  moreover have "sem' = Sem 2" using calculation(2)
    by (cases sem') (auto simp: assignHandler_def sem_trywait_def split: if_splits)
  ultimately show ?thesis by blast
qed

text \<open>C24: The command line is understood as it is documented: the names put, get and list give
  their commands, on the first lookup, which builds the table, and on every later one; any other
  name and a missing one are errors. In particular no abbreviation is taken for a command,
  although keys are compared only as far as the given name goes. (What is printed of a name that is not
  recognised is \<open>parseCommandNamePrinting\<close>.)\<close>

theorem command_names:
  assumes "names_inv cs" and "\<forall>a\<in>set argv. 0 \<notin> set a"
  shows "\<exists>cs'. names_inv cs' \<and> parseCommandName argv cs = Some (
    if length argv < 2 then (- 1, None, cs')
    else if argv ! 1 = putName then (0, Some PUT, cs')
    else if argv ! 1 = getName then (0, Some GET, cs')
    else if argv ! 1 = listName then (0, Some LIST, cs')
    else (- 1, None, cs'))"
proof -
  from parseCommandName_spec [OF assms] obtain cs' where
    c: "parseCommandName argv cs = Some (case argv of _ # name # _ \<Rightarrow>
        (if commandNamed name = None then - 1 else 0, commandNamed name, cs') | _ \<Rightarrow> (- 1, None, cs))"
    "names_inv cs'" by blast
  show ?thesis
  proof (cases "length argv < 2")
    case True
    then show ?thesis using assms(1) by (auto simp: parseCommandName_def)
  next
    case False
    then obtain p name as where "argv = p # name # as" by (cases argv; cases "tl argv") auto
    with c show ?thesis by (intro exI [of _ cs']) (simp add: commandNamed_def)
  qed
qed

theorem command_names_witness:
  "\<exists>cs. parseCommandName [[], getName] noNames = Some (0, Some GET, cs)
     \<and> (\<exists>cs'. parseCommandName [[], [0x67]] cs = Some (- 1, None, cs'))"
proof -
  have i: "names_inv noNames" by (simp add: names_inv_def)
  from command_names [OF i, of "[[], getName]"] obtain cs where
    c: "parseCommandName [[], getName] noNames = Some (0, Some GET, cs)" "names_inv cs"
    by (auto simp: getName_def putName_def)
  from command_names [OF c(2), of "[[], [0x67]]"] c(1) show ?thesis
    by (auto simp: getName_def putName_def listName_def)
qed

text \<open>C25: The client's search for a port to bind: it ends exactly when some attempt is answered with
  something else than a port in use, and the first such answer decides: success gives that port, any
  other error gives -1 and binds nothing. After the last port it goes on with port 0, since the loop's
  bound is the largest value of the counter. The answer of \<open>bind\<close> may depend on the attempt.\<close>

theorem port_search_terminates:
  "(bindLoop ans 0 MIN_PORT \<noteq> None) = (\<exists>k. ans k (MIN_PORT + word_of_nat k) \<notin> {AddrInUse, AddrNotAvail})
   \<and> (\<forall>k. ans k (MIN_PORT + word_of_nat k) \<notin> {AddrInUse, AddrNotAvail}
        \<and> (\<forall>i<k. ans i (MIN_PORT + word_of_nat i) \<in> {AddrInUse, AddrNotAvail})
      \<longrightarrow> bindLoop ans 0 MIN_PORT
          = Some (if ans k (MIN_PORT + word_of_nat k) = Bound then Some (MIN_PORT + word_of_nat k) else None)
        \<and> (\<forall>w. globalSd w < 0 \<and> 0 \<le> newSocket w \<and> bindAnswer w = ans \<longrightarrow>
            getGlobalSocket w = (if ans k (MIN_PORT + word_of_nat k) = Bound
              then Returns (newSocket w)
                (w\<lparr>globalSd := newSocket w, boundPort := Some (MIN_PORT + word_of_nat k)\<rparr>)
              else Returns (- 1) (w\<lparr>globalSd := newSocket w\<rparr>))))
   \<and> MIN_PORT + word_of_nat 64512 = 0"
proof (intro conjI allI impI)
  show "(bindLoop ans 0 MIN_PORT \<noteq> None) = (\<exists>k. ans k (MIN_PORT + word_of_nat k) \<notin> {AddrInUse, AddrNotAvail})"
    using bindLoop_terminates [of ans 0] by simp
next
  fix k assume a: "ans k (MIN_PORT + word_of_nat k) \<notin> {AddrInUse, AddrNotAvail}
        \<and> (\<forall>i<k. ans i (MIN_PORT + word_of_nat i) \<in> {AddrInUse, AddrNotAvail})"
  then show "bindLoop ans 0 MIN_PORT
          = Some (if ans k (MIN_PORT + word_of_nat k) = Bound then Some (MIN_PORT + word_of_nat k) else None)"
    using bindLoop_first [of ans 0 k MIN_PORT] by simp
  fix w :: client assume "globalSd w < 0 \<and> 0 \<le> newSocket w \<and> bindAnswer w = ans"
  with a show "getGlobalSocket w = (if ans k (MIN_PORT + word_of_nat k) = Bound
      then Returns (newSocket w) (w\<lparr>globalSd := newSocket w, boundPort := Some (MIN_PORT + word_of_nat k)\<rparr>)
      else Returns (- 1) (w\<lparr>globalSd := newSocket w\<rparr>))"
    using getGlobalSocket_first [of w k] by blast
qed (rule port_wraps)

theorem port_search_terminates_witness:
  "bindLoop (\<lambda>n p. if p = 1025 then BindError else AddrInUse) 0 MIN_PORT = Some None
   \<and> bindLoop (\<lambda>n p. if n = 0 then AddrInUse else Bound) 0 MIN_PORT = Some (Some 1025)"
proof -
  let ?a = "\<lambda>(n :: nat) (p :: port). if p = 1025 then BindError else AddrInUse"
  let ?b = "\<lambda>(n :: nat) (p :: port). if n = 0 then AddrInUse else Bound"
  have "?a 1 (MIN_PORT + word_of_nat 1) \<notin> {AddrInUse, AddrNotAvail}
      \<and> (\<forall>i<1. ?a i (MIN_PORT + word_of_nat i) \<in> {AddrInUse, AddrNotAvail})"
    "?b 1 (MIN_PORT + word_of_nat 1) \<notin> {AddrInUse, AddrNotAvail}
      \<and> (\<forall>i<1. ?b i (MIN_PORT + word_of_nat i) \<in> {AddrInUse, AddrNotAvail})"
    by (simp_all add: MIN_PORT_def)
  with port_search_terminates [of ?a] port_search_terminates [of ?b]
  have "bindLoop ?a 0 MIN_PORT = Some (if ?a 1 (MIN_PORT + word_of_nat 1) = Bound then Some (MIN_PORT + word_of_nat 1) else None)"
    "bindLoop ?b 0 MIN_PORT = Some (if ?b 1 (MIN_PORT + word_of_nat 1) = Bound then Some (MIN_PORT + word_of_nat 1) else None)"
    by blast+
  then show ?thesis by (simp add: MIN_PORT_def)
qed

text \<open>C26: A message that fits is serialized to the size its header tells, and read back from any
  buffer that starts with these bytes; a payload of length zero arrives as a null pointer.\<close>

theorem message_roundtrip:
  assumes "wf_message msg"
  shows "\<exists>bs. serializeMessage msg = Some bs \<and> int (length bs) = calcMessageSize msg
    \<and> deserializeMessage (bs @ rest) = Some (msg\<lparr>payload :=
        (if payload_lentgh (message_header msg) = 0 then None else Some (content msg))\<rparr>)"
  using serializeMessage_wf [OF assms] length_message_bytes [OF assms] deserializeMessage_bytes [OF assms]
  by (auto simp: arrived_def)

theorem message_roundtrip_witness:
  "\<exists>bs. serializeMessage (mkMessage 1 0 True [7, 8]) = Some bs \<and> length bs = 15
     \<and> deserializeMessage bs = Some (mkMessage 1 0 True [7, 8])"
proof -
  have "wf_message (mkMessage 1 0 True [7, 8])" by (simp add: c_int_def)
  from message_roundtrip [OF this, of "[]"] show ?thesis
    by (auto simp: calcMessageSize_def calcMsgHeaderSize_def wrap32_def mkMessage_def content_def)
qed

text \<open>C27: What comes out of the wire is well formed, whatever the bytes were, for a message as long as
  the length its header tells is at most \<open>INT_MAX\<close> - 13, so that its size is an \<open>int\<close>: such a message,
  and any packet, that is read has fields in the range of their C types, a payload buffer of exactly the length
  its header tells, and can be sent on and read again as it is. Bytes that are too few for the header
  or for the payload it announces give no value.\<close>

theorem decoded_values_typed:
  "(\<forall>m. deserializeMessage raw = Some m \<and> payload_lentgh (message_header m) \<le> INT_MAX - 13 \<longrightarrow>
      wf_message m \<and> (\<exists>bs'. serializeMessage m = Some bs' \<and> deserializeMessage bs' = Some m))
   \<and> (\<forall>p. deserializePacket raw = Some p \<longrightarrow>
      wf_packet p \<and> (\<exists>bs'. serializePacket p = Some bs' \<and> deserializePacket bs' = Some p))"
proof (intro conjI allI impI)
  fix m assume "deserializeMessage raw = Some m \<and> payload_lentgh (message_header m) \<le> INT_MAX - 13"
  then have e: "exact_message m" using deserializeMessage_exact by blast
  then show "wf_message m" by (simp add: exact_message_def)
  show "\<exists>bs'. serializeMessage m = Some bs' \<and> deserializeMessage bs' = Some m"
    by (rule message_codec.round_trip [OF e])
next
  fix p assume "deserializePacket raw = Some p"
  then show wf: "wf_packet p" by (rule deserializePacket_wf)
  show "\<exists>bs'. serializePacket p = Some bs' \<and> deserializePacket bs' = Some p"
    by (rule packet_codec.round_trip [OF wf])
qed

theorem decoded_values_typed_witness:
  "deserializeMessage (message_bytes (mkMessage 1 0 True [7])) = Some (mkMessage 1 0 True [7])
   \<and> wf_message (mkMessage 1 0 True [7])"
proof -
  have "wf_message (mkMessage 1 0 True [7])" by (simp add: c_int_def)
  from deserializeMessage_bytes [OF this, of "[]"]
  have d: "deserializeMessage (message_bytes (mkMessage 1 0 True [7])) = Some (mkMessage 1 0 True [7])" by simp
  moreover have "payload_lentgh (message_header (mkMessage 1 0 True [7])) \<le> INT_MAX - 13" by simp
  ultimately show ?thesis using decoded_values_typed [of "message_bytes (mkMessage 1 0 True [7])"] by blast
qed

section \<open>The receiver\<close>

text \<open>C28: The receiver among other datagrams. Whatever is lost, repeated or reordered, and with any
  strays in between (acknowledgements, and packets of any sender that are neither first nor carry an
  index of the message), \<open>recvMessageGbn\<close> returns the message exactly when its packets arrive in order
  as a subsequence; else it waits with the prefix received. Every acknowledgement it sends, also one that
  answers a stray, tells at least one packet and at most those received.\<close>

theorem receiver_delivers_among_strays:
  assumes "message_packets start mid ps" and "\<forall>x\<in>set xs. mixedOk start (length ps) x"
  shows "if subseq [0..<length ps] (own xs)
    then \<exists>as rest. recvMessageGbn True (map (mixedArrival from prt ps) xs)
        = Some (Inr (0, from, concat (map data ps), as, rest))
      \<and> (\<forall>a\<in>set as. acksUpTo from prt start (length ps) a)
    else \<exists>st k. recvMessageGbn True (map (mixedArrival from prt ps) xs) = Some (Inl st)
      \<and> k = recvSpec (length ps) (own xs) 0 \<and> k < length ps
      \<and> msgBuf st = concat (map data (take k ps))
      \<and> (\<forall>a\<in>set (acks st). acksUpTo from prt start k a)"
  unfolding recvMessageGbn_def by (rule listenForData_strays [OF assms])

theorem receiver_delivers_among_strays_witness:
  "\<exists>stale as rest. stale = (zeroAddr, wire_bytes (withPort 5000 (stampedPackets 5 0 (replicate 2000 0) ! 1)))
    \<and> recvMessageGbn True (map (mixedArrival zeroAddr 5000 (stampedPackets 7 1 [1, 2, 3])) [Inl stale, Inr None, Inr (Some 0)])
      = Some (Inr (0, zeroAddr, [1, 2, 3], as, rest))"
proof -
  let ?old = "stampedPackets 5 0 (replicate 2000 (0 :: byte))" and ?new = "stampedPackets 7 1 [1, 2, 3]"
  let ?stale = "(zeroAddr, wire_bytes (withPort 5000 (?old ! 1)))"
  have n: "length ?new = 1" "length ?old = 2" by (simp_all add: numOfPackets_eq)
  have o: "message_packets 5 0 ?old" and m: "message_packets 7 1 ?new"
    by (rule stamped_message; simp add: numOfPackets_eq QUEUE_LEN_def c_int_def)+
  have "stray 7 1 ?stale"
    using n(2) by (intro earlier_message_stray [OF o, where e = 0]) (simp_all add: QUEUE_LEN_def)
  then have "\<forall>x\<in>set [Inl ?stale, Inr None, Inr (Some 0)]. mixedOk 7 (length ?new) x"
    using n(1) by (simp add: mixedOk_def)
  from receiver_delivers_among_strays [OF m this, of zeroAddr 5000] show ?thesis
    unfolding n by (auto simp: stamped_data)
qed

text \<open>The receiver returns a message exactly when the packets of the message arrive in order
  as a subsequence of what arrives; then it returns all its bytes and the sender's address, and
  it acknowledged only what it had received. Otherwise it still waits, with the bytes of the
  packets received in order so far.\<close>

lemma receiver_delivers_in_order:
  assumes "message_packets start mid ps" and "\<forall>i\<in>set (somes xs). i < length ps"
  shows "if subseq [0..<length ps] (somes xs)
    then \<exists>as rest. recvMessageGbn True (map (arrival from prt ps) xs)
        = Some (Inr (0, from, concat (map data ps), as, rest))
      \<and> (\<forall>a\<in>set as. ack_of from prt start ps (length ps) a)
    else \<exists>st k. recvMessageGbn True (map (arrival from prt ps) xs) = Some (Inl st)
      \<and> k = recvSpec (length ps) (somes xs) 0 \<and> k < length ps
      \<and> msgBuf st = concat (map data (take k ps))
      \<and> (\<forall>a\<in>set (acks st). ack_of from prt start ps k a)"
  unfolding recvMessageGbn_def by (rule listenForData_message [OF assms])

lemma receiver_delivers_in_order_witness:
  "\<exists>as rest. recvMessageGbn True
      (map (arrival zeroAddr 5000 (stampedPackets 7 0 [1, 2, 3])) [None, Some 0, Some 0])
    = Some (Inr (0, zeroAddr, [1, 2, 3], as, rest))"
proof -
  have n: "length (stampedPackets 7 0 [1, 2, 3]) = 1" by (simp add: numOfPackets_eq)
  have m: "message_packets 7 0 (stampedPackets 7 0 [1, 2, 3])"
    by (rule stamped_message) (simp_all add: numOfPackets_eq QUEUE_LEN_def c_int_def)
  have "\<forall>i\<in>set (somes [None, Some 0, Some 0]). i < length (stampedPackets 7 0 [1, 2, 3])"
    by (simp add: numOfPackets_eq)
  from receiver_delivers_in_order [OF m this, of zeroAddr 5000] show ?thesis
    unfolding n by (auto simp: stamped_data)
qed

text \<open>C29: The receiver does not tell a repeated message from a new one: a message of one packet
  whose datagram arrives twice (a retransmission) is returned by two successive calls.\<close>

theorem retransmission_delivered_twice:
  assumes "message_packets start mid [p]"
  shows "\<exists>a. listenForData True [Some (src, wire_bytes p), Some (src, wire_bytes p)]
      = Some (Inr (0, src, data p, [a], [Some (src, wire_bytes p)]))
    \<and> listenForData True [Some (src, wire_bytes p)] = Some (Inr (0, src, data p, [a], []))"
  by (rule listenForData_twice [OF assms])

theorem retransmission_delivered_twice_witness:
  "\<exists>p a. listenForData True [Some (zeroAddr, wire_bytes p), Some (zeroAddr, wire_bytes p)]
      = Some (Inr (0, zeroAddr, [1, 2, 3], [a], [Some (zeroAddr, wire_bytes p)]))"
proof -
  have "length (stampedPackets 7 0 [1, 2, 3]) = 1" by (simp add: numOfPackets_eq)
  then obtain p where p: "stampedPackets 7 0 [1, 2, 3] = [p]"
    by (auto simp: length_Suc_conv simp del: length_stamped)
  have "message_packets 7 0 [p]" unfolding p [symmetric]
    by (rule stamped_message) (simp_all add: numOfPackets_eq QUEUE_LEN_def c_int_def)
  from retransmission_delivered_twice [OF this, of zeroAddr] stamped_data [of 7 0 "[1, 2, 3]"]
  show ?thesis unfolding p by auto
qed

text \<open>A first packet from anyone whose header gives queue length zero makes the receiver
  divide by zero.\<close>

lemma zero_queue_length_crashes:
  assumes "wf_packet p" and "length (wire_bytes p) \<le> nat MTU"
    and "\<not> isAck (hdr p)" and "isFirst (hdr p)" and "queueLen (hdr p) = 0"
  shows "listenForDataStep a (wire_bytes p) listenForDataInit = None"
  using listenForDataStep_first [OF assms(1-4), of a] assms(5) by (simp add: acceptPacket_def Let_def)

lemma zero_queue_length_crashes_witness:
  "listenForDataStep zeroAddr (wire_bytes (mk_packet 0 0 [])) listenForDataInit = None"
  using wf_mk_packet [of 0 "[]" 0]
  by (intro zero_queue_length_crashes)
    (simp_all add: c_int_def mk_packet_def newPacket_def wire_bytes_def MTU_def)

section \<open>The sender\<close>

text \<open>C30: Sending is all or nothing. With enough pads every packet of the message enters the
  ring after those that wait, ready, stamped with consecutive indexes and the message's
  identifier, the message is registered in the send table, and the launcher is notified; the
  invariant of the launcher is kept. With too few pads the call returns -1 and nothing but the
  message counter moves.\<close>

theorem send_all_or_nothing:
  assumes "launcher_inv (launch g)" and "msg_id_inv (lastMsgId g)"
    and "tableOf (launch g) (lastMsgId g) = None" and "msg \<noteq> []" and "alen \<le> addrSize"
  shows "if int (numOfPackets msg) \<le> contiguousPadsAvailable (battery (bs (launch g)))
    then \<exists>st'. sendMessageGbn sdn dst alen msg (length msg) handler g =
        Some (0, g\<lparr>lastMsgId := (lastMsgId g + 1) mod INT_MAX, launch := st'\<rparr>)
      \<and> enqueued msg (lastMsgId g) (entryFor sdn dst alen handler) (launch g) st'
    else sendMessageGbn sdn dst alen msg (length msg) handler g =
      Some (- 1, g\<lparr>lastMsgId := (lastMsgId g + 1) mod INT_MAX\<rparr>)"
  by (rule sendMessageGbn_spec [OF assms])

theorem send_all_or_nothing_witness:
  "\<exists>st'. sendMessageGbn 3 zeroAddr 16 [1, 2, 3] 3 None exampleSender =
      Some (0, exampleSender\<lparr>lastMsgId := 1, launch := st'\<rparr>)
    \<and> waiting st' = map core (stampedPackets 0 0 [1, 2, 3])"
proof -
  have w: "waiting (initLauncher 34 64 5000) = []"
    using example_battery by (simp add: waiting_def queue_def used_def)
  from send_all_or_nothing [OF example_inv, of "[1, 2, 3]" 16 3 zeroAddr None] example_battery w
  show ?thesis
    by (auto simp: addrSize_def QUEUE_LEN_def numOfPackets_eq enqueued_def numeral_3_eq_3)
qed

text \<open>C31: An acknowledgement of one to winsize packets from the base, not past the end of the
  ring, that speaks of packets in the ring, removes exactly these packets from those that wait,
  moves the base past them, samples the round trip of each, restarts a running timer, removes
  the message from the send table when it ends it, notifies the launcher, and keeps its
  invariant.\<close>

theorem ack_slides_window:
  assumes "launcher_inv st" and "ackAccepted st ack" and "ackHonest st ack"
  shows "\<exists>st'. processAck now ack st = Some st' \<and> launcher_inv st' \<and> slid now ack st st'"
  by (rule processAck_slides [OF assms])

theorem ack_slides_window_witness:
  "\<exists>st st'. launcher_inv st \<and> length (waiting st) = 1 \<and> waiting st' = [] \<and> wbase st' = 1
     \<and> processAck (\<lambda>_. zero_timespec) (exampleAck 1) st = Some st' \<and> launcher_inv st'"
proof -
  from example_sent obtain st where st: "launcher_inv st" "wbase st = 0" "busy st = 1"
    "winsize (bs st) = 2" "length (waiting st) = 1" by blast
  have d: "ackDistance st (exampleAck 1) = 1" using st by (simp add: ackDistance_def exampleAck_wf)
  have "ackAccepted st (exampleAck 1)" using st d by (simp add: ackAccepted_def QUEUE_LEN_def)
  moreover have "ackHonest st (exampleAck 1)" using st d exampleAck_wf(1) [of 1] by (simp add: ackHonest_def c_int_def)
  ultimately obtain st' where "processAck (\<lambda>_. zero_timespec) (exampleAck 1) st = Some st'" "launcher_inv st'"
    "slid (\<lambda>_. zero_timespec) (exampleAck 1) st st'"
    using ack_slides_window [OF st(1)] by blast
  with st d show ?thesis by (auto simp: slid_def QUEUE_LEN_def)
qed

text \<open>C32: Any other acknowledgement, stale, beyond the window, past the end of the ring or with
  an index that is no index, leaves the launcher exactly as it is.\<close>

theorem ack_otherwise_ignored:
  assumes "launcher_inv st" and "\<not> ackAccepted st ack"
  shows "processAck now ack st = Some st"
  by (rule processAck_ignored [OF assms])

theorem ack_otherwise_ignored_witness:
  "processAck (\<lambda>_. zero_timespec) (exampleAck 77) exampleWrap = Some exampleWrap"
proof -
  have "\<not> ackAccepted exampleWrap (exampleAck 77)"
    by (simp add: ackAccepted_def ackDistance_def exampleAck_wf exampleWrap_inv QUEUE_LEN_def)
  from ack_otherwise_ignored [OF exampleWrap_inv(1) this] show ?thesis .
qed

text \<open>A cumulative acknowledgement that crosses the end of the ring is ignored, although it
  is within the window: the index is compared after the ring length was added. With every packet
  of the window received and the earlier acknowledgements lost, the receiver only repeats this
  one, and the sender retransmits forever.\<close>

lemma wrapping_ack_ignored:
  assumes "launcher_inv st" and "d \<le> winsize (bs st)" and "QUEUE_LEN < wbase st + d"
    and "index (hdr ack) = (wbase st + d) mod QUEUE_LEN"
  shows "isInWindow (window (bs st)) ((wbase st + d - 1) mod QUEUE_LEN) \<and> processAck now ack st = Some st"
proof -
  note D = launcher_inv_D [OF assms(1)]
  have m: "(wbase st + d) mod QUEUE_LEN = wbase st + d - QUEUE_LEN"
    using ring_mod_cases [OF D(4,5), of d] assms(2,3) D(4,5,9) by simp
  have "ackDistance st ack = d"
    using assms(2-4) m D(9) by (simp add: ackDistance_def)
  then have "\<not> ackAccepted st ack" using assms(3) by (simp add: ackAccepted_def)
  moreover have "isInWindow (window (bs st)) ((wbase st + d - 1) mod QUEUE_LEN)"
  proof -
    have w: "window_inv (window (bs st)) (winsize (bs st))" using D(1) by (simp add: battery_inv_def)
    have "((wbase st + d - 1) mod QUEUE_LEN - wbase st) mod QUEUE_LEN = (d - 1) mod QUEUE_LEN"
      by (simp add: mod_diff_left_eq)
    also have "\<dots> = d - 1" using assms(2,3) D(5,9) by (intro mod_pos_pos_trivial) auto
    finally show ?thesis using isInWindow_iff [OF w ring_index] assms(2) by simp
  qed
  ultimately show ?thesis using processAck_ignored [OF assms(1)] by blast
qed

lemma wrapping_ack_ignored_witness:
  "isInWindow (window (bs exampleWrap)) 0
   \<and> processAck (\<lambda>_. zero_timespec) (exampleAck 1) exampleWrap = Some exampleWrap"
proof -
  have "index (hdr (exampleAck 1)) = (wbase exampleWrap + 2) mod QUEUE_LEN"
    by (simp add: exampleAck_wf exampleWrap_inv QUEUE_LEN_def)
  from wrapping_ack_ignored [OF exampleWrap_inv(1) _ _ this] show ?thesis
    by (simp add: exampleWrap_inv QUEUE_LEN_def)
qed

text \<open>The listener trusts its input: an acknowledgement of a packet that was never sent is
  accepted when the ring is empty, and the battery then counts more free pads than it has.\<close>

lemma forged_ack_corrupts_count:
  assumes "launcher_inv st" and "busy st = 0" and "ackAccepted st ack" and "ackDistance st ack = 1"
    and "status (padOf st 0) = EMPTY" and "wf_packet ack"
  shows "\<exists>st'. processAck now ack st = Some st'
    \<and> contiguousPadsAvailable (battery (bs st')) = QUEUE_LEN + 1"
  by (rule processAck_forged [OF assms])

lemma forged_ack_corrupts_count_witness:
  "\<exists>st'. processAck (\<lambda>_. zero_timespec) (exampleAck 1) (initLauncher 34 64 5000) = Some st'
    \<and> contiguousPadsAvailable (battery (bs st')) = 1025"
proof -
  let ?L = "initLauncher 34 64 5000"
  have d: "ackDistance ?L (exampleAck 1) = 1" by (simp add: ackDistance_def exampleAck_wf example_battery)
  have "busy ?L = 0" "status (padOf ?L 0) = EMPTY"
    by (simp_all add: initLauncher_def initLaunchBattery_def newLaunchBattery_def used_def pad_at_def newLaunchPad_def)
  moreover have "ackAccepted ?L (exampleAck 1)" using d by (simp add: ackAccepted_def example_battery QUEUE_LEN_def)
  moreover have "wf_packet (exampleAck 1)" by (simp add: exampleAck_wf c_int_def)
  ultimately show ?thesis
    using forged_ack_corrupts_count [OF launcher_inv_init _ _ d, where now = "\<lambda>_. zero_timespec"] by (simp add: QUEUE_LEN_def)
qed

text \<open>A datagram that is no acknowledgement is ignored by the listener, but the events of
  the launcher stay blocked after it: the new-packets and time-out signals wait from then on.\<close>

lemma non_ack_blocks_events:
  assumes "launcher_inv st" and "wf_packet p" and "data p = []" and "\<not> isAck (hdr p)"
  shows "listenForAcksStep now (wire_bytes p) st
    = Some (st\<lparr>ackBuf := wire_bytes p, eventsBlocked := True\<rparr>)"
  using listenForAcksStep_packet [OF assms(1-3)] assms(4) by (simp add: received_def)

lemma non_ack_blocks_events_witness:
  "\<exists>st'. listenForAcksStep (\<lambda>_. zero_timespec) (wire_bytes (mk_packet 0 0 [])) (initLauncher 34 64 5000)
      = Some st' \<and> eventsBlocked st'"
proof -
  have "wf_packet (mk_packet 0 0 [])" "data (mk_packet 0 0 []) = []" "\<not> isAck (hdr (mk_packet 0 0 []))"
    using wf_mk_packet [of 0 "[]" 0] by (simp_all add: c_int_def mk_packet_def newPacket_def)
  from non_ack_blocks_events [OF launcher_inv_init this] show ?thesis by simp
qed

text \<open>A datagram whose header announces data makes the listener read past its buffer of 24
  bytes.\<close>

lemma announced_data_overreads:
  assumes "launcher_inv st" and "wf_header h" and "dataLen h \<noteq> 0"
  shows "listenForAcksStep now (header_bytes h @ rest) st = None"
  by (rule listenForAcksStep_overread [OF assms])

lemma announced_data_overreads_witness:
  "listenForAcksStep (\<lambda>_. zero_timespec) (wire_bytes (mk_packet 0 0 [1, 2, 3])) (initLauncher 34 64 5000) = None"
proof -
  have "wf_header (hdr (mk_packet 0 0 [1, 2, 3]))" "dataLen (hdr (mk_packet 0 0 [1, 2, 3])) \<noteq> 0"
    using wf_mk_packet [of 0 "[1, 2, 3]" 0] by (simp_all add: c_int_def wf_packet_def mk_packet_def)
  from announced_data_overreads [OF launcher_inv_init this] show ?thesis by (simp add: wire_bytes_def)
qed

text \<open>C33: The life of the launcher: the first use installs for each event a handler that blocks
  the two other events and touches no other signal, opens the socket for the acknowledgements
  and makes the launcher available. The shutdown event ends the loop, stops the timer and
  closes the socket, but leaves the handlers installed, although it means to restore the old
  ones; and the launcher can never be started again.\<close>

theorem launcher_lifecycle:
  assumes "signals_ok (lstate p)" and "\<not> isLauncherAvailable (lstate p)" and "\<not> onceDone p"
  shows "\<exists>p'. requireLauncher True lport p = (0, p') \<and> isLauncherAvailable (lstate p') \<and> ackSocketOpen p'
    \<and> (\<forall>e. disp p' (signalOf (lstate p) e) = LauncherHandler (maskFor (lstate p) e))
    \<and> (\<forall>sig. sig \<notin> range (signalOf (lstate p)) \<longrightarrow> disp p' sig = disp p sig)
    \<and> (\<exists>p''. launcherThread (Interrupted (signalOf (lstate p) LAUNCHER_EVENT_SHUTDOWN) env # us) p' = Some p''
        \<and> disp p'' = disp p' \<and> \<not> ackSocketOpen p'' \<and> \<not> isAlive (ltimer (lstate p''))
        \<and> (\<forall>createOk lport'. requireLauncher createOk lport' p'' = (- 1, p'')))"
proof -
  from requireLauncher_starts [OF assms, of lport] obtain p' where
    p': "requireLauncher True lport p = (0, p')"
    "lstate p' = (lstate p)\<lparr>listenPort := lport, isLauncherAvailable := True\<rparr>" "onceDone p'" "ackSocketOpen p'"
    "\<forall>e. disp p' (signalOf (lstate p) e) = LauncherHandler (maskFor (lstate p) e)"
    "\<forall>sig. sig \<notin> range (signalOf (lstate p)) \<longrightarrow> disp p' sig = disp p sig" by blast
  have ok: "signals_ok (lstate p')" and sig: "signalOf (lstate p') e = signalOf (lstate p) e" for e
    using assms(1) by (simp_all add: p'(2) signals_ok_def signalOf_def)
  have av: "isLauncherAvailable (lstate p')" by (simp add: p'(2))
  from launcherThread_shutdown [OF ok av p'(3), of env us] p' av show ?thesis unfolding sig by blast
qed

theorem launcher_lifecycle_witness:
  "\<exists>p p'. requireLauncher True 5000 p = (0, p') \<and> disp p' 35 = LauncherHandler [36, 37] \<and> disp p' 34 = DefaultAction"
proof -
  define p where "p = \<lparr>lstate = (initLauncher 34 64 0)\<lparr>isLauncherAvailable := False\<rparr>, disp = (\<lambda>_. DefaultAction),
    oldAct = DefaultAction, isOldActSet = False, onceDone = False, ackSocketOpen = False\<rparr>"
  have ok: "signals_ok (lstate p)" "\<not> isLauncherAvailable (lstate p)" "\<not> onceDone p"
    by (simp_all add: p_def signals_ok_def initLauncher_def)
  have s: "signalOf (lstate p) e = 35 + event_code e" for e
    using signalOf_eq [OF ok(1), of e] by (simp add: p_def initLauncher_def)
  from launcher_lifecycle [OF ok, of 5000] obtain p' where p': "requireLauncher True 5000 p = (0, p')"
    "\<forall>e. disp p' (signalOf (lstate p) e) = LauncherHandler (maskFor (lstate p) e)"
    "\<forall>sig. sig \<notin> range (signalOf (lstate p)) \<longrightarrow> disp p' sig = disp p sig" by blast
  have "34 \<notin> range (signalOf (lstate p))"
  proof
    assume "34 \<in> range (signalOf (lstate p))"
    then obtain e where "34 = 35 + event_code e" unfolding s by auto
    then show False by (cases e) simp_all
  qed
  then have "disp p' 34 = DefaultAction" using p'(3) by (simp add: p_def)
  moreover have "disp p' 35 = LauncherHandler [36, 37]"
    using p'(2) [rule_format, of LAUNCHER_EVENT_NEW_PACKETS_IN_SEND_WINDOW] unfolding maskFor_def s
    by (simp add: allEvents_def)
  ultimately show ?thesis using p'(1) by blast
qed

text \<open>A pass over the window launches exactly the selected pads, in ring order: those in the
  window with one of the statuses that hold a packet of the base packet's message, and none
  unless the base packet is in the first of the statuses. It never fails, returns the number of
  launches that succeeded, marks these pads as sent, puts on the wire the packets not jammed, and
  leaves the window, the waiting packets and the send table.\<close>

lemma window_pass:
  assumes "launcher_inv st" and "live_statuses statuses" and "statuses \<noteq> []"
  shows "\<exists>n st'. sendAllPacketsInWindowCore env st statuses = Some (n, st')
    \<and> fired env st (selected st statuses) n st'"
  by (rule sendAllPacketsInWindowCore_fired [OF assms])

lemma window_pass_witness:
  "\<exists>st st'. busy st = 1 \<and> sendAllPacketsInWindowCore goodEnv st [READY] = Some (1, st')
     \<and> status (padOf st' 0) = SENT \<and> length (wire st') = length (wire st) + 1"
proof -
  from example_sent obtain st where st: "launcher_inv st" "wbase st = 0" "busy st = 1"
    "winsize (bs st) = 2" "status (padOf st 0) = READY" by blast
  have "status (padOf st 1) \<noteq> READY" using launcher_inv_D(11) [OF st(1), of 1] st(3)
    by (auto simp: vacant_def QUEUE_LEN_def)
  then have sel: "selected st [READY] = [0]"
    using st(4,5) by (simp add: selected_def picked_def upto.simps)
  from window_pass [OF st(1), of "[READY]" goodEnv] obtain n st' where
    p: "sendAllPacketsInWindowCore goodEnv st [READY] = Some (n, st')" "fired goodEnv st [0] n st'"
    unfolding sel by auto
  have "length (onWire goodEnv st 0) = 1" by (simp add: onWire_def Let_def)
  with p show ?thesis using st(3)
    by (intro exI [of _ st] exI [of _ st']) (auto simp: fired_def QUEUE_LEN_def)
qed

text \<open>C34: On a new-packets event the handler launches the ready packets of the base packet's
  message and starts the timer if it is not running and a launch succeeded.\<close>

theorem new_packets_event:
  assumes "launcher_inv st" and "signals_ok st"
  shows "\<exists>n st1. fired env st (selected st [READY]) n st1
    \<and> launcherSigHandler env (signalOf st LAUNCHER_EVENT_NEW_PACKETS_IN_SEND_WINDOW) st
        = Some (st1\<lparr>ltimer := timerAfterNew n (ltimer st)\<rparr>)"
  unfolding timerAfterNew_def by (rule handler_new_packets [OF assms])

theorem new_packets_event_witness:
  "\<exists>st st1. busy st = 1 \<and> fired goodEnv st (selected st [READY]) 1 st1
    \<and> launcherSigHandler goodEnv (newSig st) st = Some (st1\<lparr>ltimer := timerAfterNew 1 (ltimer st)\<rparr>)"
proof -
  from example_sent obtain st where st: "launcher_inv st" "signals_ok st" "busy st = 1"
    "winsize (bs st) = 2" "status (padOf st 0) = READY" by blast
  have "status (padOf st 1) \<noteq> READY" using launcher_inv_D(11) [OF st(1), of 1] st(3)
    by (auto simp: vacant_def QUEUE_LEN_def)
  then have sel: "selected st [READY] = [0]"
    using st(4,5) by (simp add: selected_def picked_def upto.simps)
  from new_packets_event [OF st(1,2), of goodEnv] obtain n st1 where
    h: "fired goodEnv st (selected st [READY]) n st1"
    "launcherSigHandler goodEnv (newSig st) st = Some (st1\<lparr>ltimer := timerAfterNew n (ltimer st)\<rparr>)" by blast
  then have "n = 1" unfolding sel by (simp add: fired_def)
  with h st(3) show ?thesis by blast
qed

text \<open>C35: On a time-out event the handler launches the sent packets of the base packet's message
  again; with nothing launched it stops the timer.\<close>

theorem timed_out_event:
  assumes "launcher_inv st" and "signals_ok st"
  shows "\<exists>n st1. fired env st (selected st [SENT]) n st1
    \<and> launcherSigHandler env (signalOf st LAUNCHER_EVENT_PACKET_TIMED_OUT) st
        = Some (st1\<lparr>ltimer := timerAfterTimeout n (ltimer st)\<rparr>)"
  unfolding timerAfterTimeout_def by (rule handler_timed_out [OF assms])

theorem timed_out_event_witness:
  "\<exists>st1. launcherSigHandler goodEnv (timeSig (initLauncher 34 64 5000)) (initLauncher 34 64 5000)
      = Some (st1\<lparr>ltimer := newTimer\<rparr>) \<and> wire st1 = []"
proof -
  let ?L = "initLauncher 34 64 5000"
  have s: "signals_ok ?L" "ltimer ?L = newTimer" "wire ?L = []" by (simp_all add: signals_ok_def initLauncher_def)
  have "status (padOf ?L 0) \<noteq> SENT"
    by (simp add: initLauncher_def initLaunchBattery_def newLaunchBattery_def pad_at_def newLaunchPad_def)
  then have sel: "selected ?L [SENT] = []" by (simp add: selected_def)
  have "timerAfterTimeout n newTimer = newTimer" for n by (simp add: timerAfterTimeout_def newTimer_def)
  with timed_out_event [OF launcher_inv_init s(1), of goodEnv] s(2,3) sel show ?thesis
    by (auto simp: fired_def)
qed

section \<open>The launch battery\<close>

text \<open>C36: Adding packets to the ring appends them to the list of those that wait, stamped with
  consecutive ring indexes, and keeps the invariant; without enough pads nothing changes and the
  call fails.\<close>

theorem battery_add_appends:
  assumes "battery_inv s" and "n = int (length ps)" and "0 < n" and "\<forall>p\<in>set ps. wf_packet p"
  shows "if n \<le> contiguousPadsAvailable (battery s)
    then \<exists>b'. addToLaunchBattery (battery s) ps n = Some (0, b')
      \<and> battery_inv (s\<lparr>battery := b'\<rparr>)
      \<and> queue (s\<lparr>battery := b'\<rparr>) = queue s @ stamp_all (nextAvailableIndex (battery s)) ps
    else addToLaunchBattery (battery s) ps n = Some (- 1, battery s)"
  by (rule addToLaunchBattery_queue [OF assms])

theorem battery_add_appends_witness:
  "\<exists>b'. addToLaunchBattery (battery initLaunchBattery) [mk_packet 0 0 [1], mk_packet 0 1 [2]] 2 = Some (0, b')
    \<and> map data (queue (initLaunchBattery\<lparr>battery := b'\<rparr>)) = [[1], [2]]"
proof -
  have "\<forall>p\<in>set [mk_packet 0 0 [1], mk_packet 0 1 [2]]. wf_packet p"
    by (simp add: wf_mk_packet c_int_def)
  moreover have "queue initLaunchBattery = []"
    by (simp add: queue_def used_def initLaunchBattery_def newLaunchBattery_def)
  moreover have "contiguousPadsAvailable (battery initLaunchBattery) = QUEUE_LEN"
    by (simp add: initLaunchBattery_def newLaunchBattery_def)
  ultimately show ?thesis
    using battery_add_appends [OF battery_inv_init, of 2 "[mk_packet 0 0 [1], mk_packet 0 1 [2]]"]
    by (auto simp: QUEUE_LEN_def stamp_all_def stamp_def mk_packet_def)
qed

text \<open>The count of available pads that the battery keeps is the number of pads that can take
  a packet.\<close>

lemma pad_count_exact:
  assumes "battery_inv s"
  shows "contiguousPadsAvailable (battery s) =
    int (card {i. 0 \<le> i \<and> i < QUEUE_LEN \<and> isLaunchPadAvailable (pads (battery s) i)})"
  by (rule available_pads [OF assms])

lemma pad_count_exact_witness:
  "int (card {i. 0 \<le> i \<and> i < QUEUE_LEN \<and> isLaunchPadAvailable (pads (battery initLaunchBattery) i)}) = 1024"
  using pad_count_exact [OF battery_inv_init]
  by (simp add: initLaunchBattery_def newLaunchBattery_def QUEUE_LEN_def)

text \<open>An index is in the window, also in one that wraps around the ring, exactly when its
  distance from the base modulo the ring length is below the window size.\<close>

lemma window_membership:
  assumes "window_inv w win" and "0 \<le> i" and "i < QUEUE_LEN"
  shows "isInWindow w i = ((i - base w) mod QUEUE_LEN < win)"
  by (rule isInWindow_iff [OF assms])

lemma window_membership_witness:
  "isInWindow \<lparr>base = 1023, nextSeqNum = 1\<rparr> 0 \<and> \<not> isInWindow \<lparr>base = 1023, nextSeqNum = 1\<rparr> 1"
proof -
  have w: "window_inv \<lparr>base = 1023, nextSeqNum = 1\<rparr> 2" by (simp add: window_inv_def QUEUE_LEN_def)
  show ?thesis using window_membership [OF w, of 0] window_membership [OF w, of 1] by (simp add: QUEUE_LEN_def)
qed

section \<open>Packets\<close>

text \<open>C37: A packet is serialized to the number of bytes its header tells, and read back as it was
  from any receive buffer that these bytes were written into.\<close>

theorem packet_roundtrip:
  assumes "wf_packet p"
  shows "\<exists>bs. serializePacket p = Some bs \<and> int (length bs) = calcPacketSize p
    \<and> (\<forall>buf. length bs \<le> length buf \<longrightarrow> deserializePacket (overwrite buf bs) = Some p)"
  using serialize_wire [OF assms] length_serializePacket [OF assms] deserialize_overwrite [OF assms]
  by blast

theorem packet_roundtrip_witness:
  "deserializePacket (overwrite (replicate 1500 0) (wire_bytes (mk_packet 9 0 [1, 2, 3])))
    = Some (mk_packet 9 0 [1, 2, 3])"
proof -
  have wf: "wf_packet (mk_packet 9 0 [1, 2, 3])" by (rule wf_mk_packet) (simp_all add: c_int_def)
  from packet_roundtrip [OF wf] obtain bs where
    b: "serializePacket (mk_packet 9 0 [1, 2, 3]) = Some bs"
    "\<forall>buf. length bs \<le> length buf \<longrightarrow> deserializePacket (overwrite buf bs) = Some (mk_packet 9 0 [1, 2, 3])" by blast
  then have "bs = wire_bytes (mk_packet 9 0 [1, 2, 3])" using serialize_wire [OF wf] by simp
  with b(2) show ?thesis by (simp add: wire_bytes_def mk_packet_def)
qed

text \<open>A message is divided in as many packets of at most 1476 bytes as needed, in order,
  none of them empty, all with one identifier, and the first one marked; together they hold the
  message.\<close>

lemma packetize_divides:
  assumes "msg_id_inv lid"
  shows "\<exists>ps. packetize msg (length msg) lid = Some (ps, length ps, (lid + 1) mod INT_MAX)
    \<and> length ps = (length msg + 1475) div 1476 \<and> concat (map data ps) = msg
    \<and> (\<forall>i<length ps. wf_packet (ps ! i) \<and> 0 < length (data (ps ! i)) \<and> length (data (ps ! i)) \<le> 1476
         \<and> msgId (hdr (ps ! i)) = lid \<and> isFirst (hdr (ps ! i)) = (i = 0) \<and> \<not> isAck (hdr (ps ! i)))"
proof -
  let ?ps = "map (\<lambda>(k, d). mk_packet lid k d) (enumerate 0 (chunks max_data msg))"
  have n: "length ?ps = numOfPackets msg" by (simp add: numOfPackets_def)
  have nth: "?ps ! i = mk_packet lid i (chunks max_data msg ! i)" if "i < numOfPackets msg" for i
    using that by (simp add: numOfPackets_def nth_enumerate_eq)
  have "map data ?ps = chunks max_data msg"
    by (rule nth_equalityI) (simp_all add: nth_enumerate_eq mk_packet_def)
  then have "concat (map data ?ps) = msg" by (simp add: concat_chunks max_data_eq)
  moreover have "wf_packet (?ps ! i) \<and> 0 < length (data (?ps ! i)) \<and> length (data (?ps ! i)) \<le> 1476
         \<and> msgId (hdr (?ps ! i)) = lid \<and> isFirst (hdr (?ps ! i)) = (i = 0) \<and> \<not> isAck (hdr (?ps ! i))"
    if i: "i < numOfPackets msg" for i
  proof -
    let ?c = "chunks max_data msg ! i"
    have c: "0 < length ?c" "length ?c \<le> 1476"
      using chunks_bound [of ?c max_data msg] i by (auto simp: numOfPackets_def max_data_eq)
    have "c_int lid" using assms by (simp add: msg_id_inv_def c_int_def)
    with c show ?thesis
      unfolding nth [OF i] by (simp add: wf_mk_packet) (simp add: mk_packet_def newPacket_def)
  qed
  moreover have "packetize msg (length msg) lid = Some (?ps, length ?ps, (lid + 1) mod INT_MAX)"
    using packetize_eq [of msg lid] generateMsgId_next [OF assms] by (simp add: max_data_def)
  ultimately show ?thesis using n by (intro exI [of _ ?ps]) (simp add: numOfPackets_eq)
qed

lemma packetize_divides_witness:
  "\<exists>ps. packetize [1, 2, 3] 3 2147483646 = Some (ps, 1, 0) \<and> concat (map data ps) = [1, 2, 3]"
  using packetize_divides [of 2147483646 "[1, 2, 3]"] by (auto simp: msg_id_inv_def numeral_3_eq_3)

text \<open>The identifiers of the messages of a run repeat exactly after INT_MAX messages.\<close>

lemma message_ids_repeat:
  assumes "msg_id_inv n"
  shows "(nth_msg_id n i = nth_msg_id n j) = (int i mod INT_MAX = int j mod INT_MAX)"
proof -
  have "((n + int i) mod INT_MAX = (n + int j) mod INT_MAX) = (INT_MAX dvd (n + int i) - (n + int j))"
    by (rule mod_eq_dvd_iff)
  also have "\<dots> = (int i mod INT_MAX = int j mod INT_MAX)" by (simp add: mod_eq_dvd_iff)
  finally show ?thesis by (simp add: nth_msg_id_eq [OF assms])
qed

lemma message_ids_repeat_witness: "nth_msg_id 2147483646 0 \<noteq> nth_msg_id 2147483646 1"
  using message_ids_repeat [of 2147483646 0 1] by (simp add: msg_id_inv_def)

section \<open>The tables\<close>

text \<open>C38: A message registered under a new identifier is found until it is removed; neither
  touches the other messages, and removing gives back the table as it was.\<close>

theorem send_table_register_remove:
  assumes "sorting_inv t" and "c_int k" and "sorting_lookup t k = None"
  shows "\<exists>t1. registerEntry t k e = Some t1 \<and> sorting_inv t1
    \<and> (\<exists>t2. findEntry t1 k = Some (Some e, t2) \<and> sorting_inv t2 \<and> sorting_lookup t2 = sorting_lookup t1)
    \<and> (\<forall>j. c_int j \<longrightarrow> j \<noteq> k \<longrightarrow> sorting_lookup t1 j = sorting_lookup t j)
    \<and> (\<exists>t3. removeFromSortingTable t1 k = Some t3 \<and> sorting_inv t3
         \<and> (\<forall>j. c_int j \<longrightarrow> sorting_lookup t3 j = sorting_lookup t j))"
proof -
  from send_table.add_fresh [OF assms] obtain t1 where a: "registerEntry t k e = Some t1" "sorting_inv t1" by blast
  from send_table.register_get [OF assms a(1)] send_table.register_other [OF assms a(1)]
    send_table.register_remove [OF assms a(1)] a show ?thesis by blast
qed

theorem send_table_register_remove_witness:
  "\<exists>t1 t2. registerEntry newSortingTable 5 (entryFor 3 zeroAddr 16 None) = Some t1
    \<and> findEntry t1 5 = Some (Some (entryFor 3 zeroAddr 16 None), t2)"
  using send_table_register_remove [OF send_table.invar_empty _ send_table.lookup_empty,
      where k = 5 and e = "entryFor 3 zeroAddr 16 None"]
  by (auto simp: c_int_def)

text \<open>Registering a key that is bound frees the key and the value that the caller gave, and
  stores the freed value in the pair of the table.\<close>

lemma rebinding_dangles:
  assumes "rep n h t css" and "mem h key = Some (KeyObj k)" and "length k = n" and "key \<notin> ckaddr ` cells css"
    and "mem h val = Some (ValObj v)" and "val \<notin> cvaddr ` cells css" and "lookup_cell css k = Some c"
  shows "\<exists>h'. addToHashTable h t key n val = Some (t, h')
    \<and> mem h' (cpair c) = Some (PairObj (ckaddr c) val) \<and> mem h' val = None \<and> mem h' key = None"
  by (rule addToHashTable_bound [OF assms])

lemma rebinding_dangles_witness:
  "\<exists>(h :: nat heap) t key val h'. addToHashTable h t key 1 val = Some (t, h')
    \<and> mem h val = Some (ValObj 1) \<and> mem h' val = None"
proof -
  from bound_key_example obtain h :: "nat heap" and t css key val c where
    b: "rep 1 h t css" "mem h key = Some (KeyObj [7])" "mem h val = Some (ValObj 1)"
    "key \<notin> ckaddr ` cells css" "val \<notin> cvaddr ` cells css" "lookup_cell css [7] = Some c" by blast
  from rebinding_dangles [OF b(1,2) _ b(4,3,5,6)] obtain h' where
    "addToHashTable h t key 1 val = Some (t, h')" "mem h' val = None" by auto
  with b(3) show ?thesis by blast
qed

text \<open>C39: On a list of nodes the list operations are the list functions: length, node at an
  index, append at the end (only the last node and the new one change), removal at an index (the
  node is freed, the value is given back), and an index out of range is refused; destroying
  frees exactly the nodes.\<close>

theorem linked_list_operations:
  assumes "ll h p xs" and "heap_ok h"
  shows "lenLL h p = Some (int (length xs))
    \<and> (\<forall>i. getLL h p i = (if 0 \<le> i \<and> i < int (length xs) then Some (0, Some (fst (xs ! nat i))) else Some (1, None)))
    \<and> (\<exists>h'. appendLL h p v = Some (if p = NULL then brk h else p, h')
         \<and> ll h' (if p = NULL then brk h else p) (xs @ [(brk h, v)]))
    \<and> (\<forall>i<length xs. \<exists>q h'. popLL h p (int i) = Some (0, q, Some (snd (xs ! i)), h')
         \<and> ll h' q (take i xs @ drop (Suc i) xs) \<and> mem h' (fst (xs ! i)) = None)
    \<and> destroyLL h p = Some (h\<lparr>mem := (\<lambda>a. if a \<in> addrs xs then None else mem h a)\<rparr>)"
proof (intro conjI allI impI)
  show "lenLL h p = Some (int (length xs))" by (rule lenLL_ll [OF assms(1)])
  show "getLL h p i = (if 0 \<le> i \<and> i < int (length xs) then Some (0, Some (fst (xs ! nat i))) else Some (1, None))" for i
    by (rule getLL_ll [OF assms(1)])
  show "\<exists>h'. appendLL h p v = Some (if p = NULL then brk h else p, h')
         \<and> ll h' (if p = NULL then brk h else p) (xs @ [(brk h, v)])"
    using appendLL_ll [OF assms] by blast
  show "\<exists>q h'. popLL h p (int i) = Some (0, q, Some (snd (xs ! i)), h')
         \<and> ll h' q (take i xs @ drop (Suc i) xs) \<and> mem h' (fst (xs ! i)) = None" if "i < length xs" for i
    using popLL_ll [OF assms(1) that assms(2)] by blast
  show "destroyLL h p = Some (h\<lparr>mem := (\<lambda>a. if a \<in> addrs xs then None else mem h a)\<rparr>)"
    by (rule destroyLL_ll [OF assms(1)])
qed

theorem linked_list_operations_witness:
  "\<exists>h' :: nat heap. popLL (snd (newNode empty_heap 42)) 1 0 = Some (0, NULL, Some 42, h') \<and> mem h' 1 = None"
  using linked_list_operations [OF ll_example, where 'a = nat] by fastforce

section \<open>Timer and network sampler\<close>

text \<open>A timer started to ring and restart rings at every time-out; told to restart it skips
  the next ring only, and told to shut down it rings no more and is not alive.\<close>

lemma timer_rings:
  shows "timerThread k (snd (startTimer newTimer AT_TIMEOUT_RING_THEN_RESTART True)) = (k,
      snd (startTimer newTimer AT_TIMEOUT_RING_THEN_RESTART True))
    \<and> timerThread (Suc k) (timeout (snd (startTimer newTimer AT_TIMEOUT_RING_THEN_RESTART True)) AT_TIMEOUT_RESTART)
      = (k, snd (startTimer newTimer AT_TIMEOUT_RING_THEN_RESTART True))
    \<and> fst (timerThread k (timeout (snd (startTimer newTimer AT_TIMEOUT_RING_THEN_RESTART True)) AT_TIMEOUT_SHUTDOWN)) = 0
    \<and> \<not> isAlive (snd (timerThread (Suc k) (timeout (snd (startTimer newTimer AT_TIMEOUT_RING_THEN_RESTART True)) AT_TIMEOUT_SHUTDOWN)))"
proof -
  let ?t = "snd (startTimer newTimer AT_TIMEOUT_RING_THEN_RESTART True)"
  have t: "isAlive ?t" "ring ?t" "atTimeout ?t = AT_TIMEOUT_RING_THEN_RESTART"
    by (simp_all add: startTimer_def newTimer_def)
  note r = timerThread_ringing [OF t]
  have "timerRound (timeout ?t AT_TIMEOUT_RESTART) = (False, ?t)"
    by (simp add: timerRound_def timeout_def startTimer_def newTimer_def)
  then have "timerThread (Suc k) (timeout ?t AT_TIMEOUT_RESTART) = (k, ?t)"
    using r t(1) by (simp add: timeout_def)
  moreover have "timerThread k (timeout ?t AT_TIMEOUT_SHUTDOWN) = (if k = 0 then (0, timeout ?t AT_TIMEOUT_SHUTDOWN)
      else (0, (timeout ?t AT_TIMEOUT_SHUTDOWN)\<lparr>isAlive := False\<rparr>))" for k
    using t(1) by (cases k) (simp_all add: timeout_def timerRound_def timerThread_dead)
  ultimately show ?thesis using r by simp
qed

text \<open>C40: The round trip estimate, in seconds and in nanoseconds. After any samples, a further sample
  moves the estimate by an eighth of its distance and the deviation by a quarter of the distance
  between the deviation and that of the sample from the new estimate, both rounded to the nearest
  integer; with samples below 10^9 in size the estimate stays below 10^9 and the
  deviation between zero and 2 * 10^9; and the estimate never leaves an interval that holds
  the samples and the estimate at the start.\<close>

theorem sampler_bounds:
  assumes "sampler_inv np" and "\<forall>x\<in>set samples. moderate x" and "moderate sample"
    and "np1 = sampleAll np samples" and "np2 = updateEstimatedRtt np1 sample"
  shows "sampler_inv np1 \<and> sampler_inv np2
    \<and> \<bar>8 * tv_sec (estimatedRtt np2) - (7 * tv_sec (estimatedRtt np1) + tv_sec sample)\<bar> \<le> 4
    \<and> \<bar>8 * tv_nsec (estimatedRtt np2) - (7 * tv_nsec (estimatedRtt np1) + tv_nsec sample)\<bar> \<le> 4
    \<and> \<bar>4 * tv_sec (devRtt np2)
        - (3 * tv_sec (devRtt np1) + \<bar>tv_sec (estimatedRtt np2) - tv_sec sample\<bar>)\<bar> \<le> 2
    \<and> \<bar>4 * tv_nsec (devRtt np2)
        - (3 * tv_nsec (devRtt np1) + \<bar>tv_nsec (estimatedRtt np2) - tv_nsec sample\<bar>)\<bar> \<le> 2
    \<and> (\<forall>f\<in>{tv_sec, tv_nsec}. \<forall>lo hi. (\<forall>x\<in>insert (estimatedRtt np) (set samples). lo \<le> f x \<and> f x \<le> hi)
        \<longrightarrow> lo \<le> f (estimatedRtt np1) \<and> f (estimatedRtt np1) \<le> hi)"
proof -
  have i: "sampler_inv np1" "sampler_inv np2"
    using assms by (simp_all add: sampleAll_inv sampler_inv_update)
  have b: "\<bar>tv_sec (estimatedRtt np2)\<bar> < 1000000000" "\<bar>tv_nsec (estimatedRtt np2)\<bar> < 1000000000"
    "\<bar>tv_sec sample\<bar> < 1000000000" "\<bar>tv_nsec sample\<bar> < 1000000000"
    using i(2) assms(3) by (simp_all add: sampler_inv_def moderate_def)
  note u = updateEstimatedRtt_simps [of np1 sample, folded assms(5)]
  have "\<forall>f\<in>{tv_sec, tv_nsec}. \<forall>lo hi. (\<forall>x\<in>insert (estimatedRtt np) (set samples). lo \<le> f x \<and> f x \<le> hi)
        \<longrightarrow> lo \<le> f (estimatedRtt np1) \<and> f (estimatedRtt np1) \<le> hi"
    using sampleAll_between [where np = np and samples = samples] assms(4) by auto
  then show ?thesis
    unfolding u(3,4) using i nextDeviation_quarter(1) [OF b(1,3)] nextDeviation_quarter(1) [OF b(2,4)]
      nextEstimate_eighth by (simp add: u(1,2))
qed

theorem sampler_bounds_witness:
  "\<bar>8 * tv_nsec (estimatedRtt (updateEstimatedRtt newNetworkParams \<lparr>tv_sec = 2, tv_nsec = 900\<rparr>)) - 900\<bar> \<le> 4
    \<and> \<bar>8 * tv_sec (estimatedRtt (updateEstimatedRtt newNetworkParams \<lparr>tv_sec = 2, tv_nsec = 900\<rparr>)) - 2\<bar> \<le> 4"
  using sampler_bounds [OF sampler_inv_new, of "[]" "\<lparr>tv_sec = 2, tv_nsec = 900\<rparr>" newNetworkParams, OF _ _ _ refl]
  by (simp add: newNetworkParams_def sampleAll_def moderate_def del: updateEstimatedRtt_simps)

text \<open>The time a timer waits is the estimate plus four deviations, one second before any
  sample; the nanoseconds are added without a carry, so the absolute time is one that
  pthread_cond_timedwait refuses as soon as they add up to a second or more.\<close>

lemma timeout_not_normalised:
  assumes "tv_sec (estimatedRtt np) = 0" and "tv_sec (devRtt np) = 0"
    and "0 \<le> tv_nsec (estimatedRtt np) + 4 * tv_nsec (devRtt np)"
    and "tv_nsec (estimatedRtt np) + 4 * tv_nsec (devRtt np) < INT_MAX" and "valid_timespec now"
    and "tv_nsec (estimatedRtt np) + 4 * tv_nsec (devRtt np) \<noteq> 0"
  shows "\<exists>t. calcTimeout True np now = Some t \<and> tv_sec t = tv_sec now
    \<and> tv_nsec t = tv_nsec now + (tv_nsec (estimatedRtt np) + 4 * tv_nsec (devRtt np))
    \<and> (valid_timespec t \<longleftrightarrow>
        tv_nsec now + (tv_nsec (estimatedRtt np) + 4 * tv_nsec (devRtt np)) < 1000000000)"
proof -
  let ?n = "tv_nsec (estimatedRtt np) + 4 * tv_nsec (devRtt np)"
  have "c_int ?n" using assms(3,4) by (simp add: c_int_def)
  then have "toWait True np = Some (0, ?n)"
    using assms(1,2,6) by (simp add: toWait_adaptive Let_def c_int_0)
  from addToWait_adaptive [OF this, of now] show ?thesis
    using assms(3,5) by (simp add: calcTimeout_def valid_timespec_def)
qed

lemma timeout_not_normalised_witness:
  "\<exists>t. calcTimeout True (newNetworkParams\<lparr>estimatedRtt := \<lparr>tv_sec = 0, tv_nsec = 600000000\<rparr>\<rparr>)
      \<lparr>tv_sec = 100, tv_nsec = 700000000\<rparr> = Some t
    \<and> tv_nsec t = 1300000000 \<and> \<not> valid_timespec t"
  using timeout_not_normalised [of "newNetworkParams\<lparr>estimatedRtt := \<lparr>tv_sec = 0, tv_nsec = 600000000\<rparr>\<rparr>"
      "\<lparr>tv_sec = 100, tv_nsec = 700000000\<rparr>"]
  by (auto simp: newNetworkParams_def valid_timespec_def)

end
